(* ===== verification/Prelude.thy ===== *)
theory Prelude
  imports Main "HOL-Library.Word" "HOL-Library.List_Lexorder" "HOL-Library.Monad_Syntax"
begin

text \<open>
  Shared vocabulary of the development: Go's machine integers as words, byte slices and
  strings as lists of bytes (a Go string is a byte sequence ordered bytewise, so the
  conversions \<open>[]byte(s)\<close> and \<open>string(b)\<close> are the identity), the parts of the Go standard
  library the program calls (\<open>encoding/binary\<close> little endian, \<open>hash/crc32\<close>, slicing), the
  scripted outcomes of file-system calls, and the generic list and word lemmas the component
  theories share.  A computation that can panic returns an option whose \<open>None\<close> is the panic.
\<close>

unbundle bit_operations_syntax

section \<open>Types\<close>

type_synonym byte = "8 word"
type_synonym u32 = "32 word"
type_synonym u64 = "64 word"
type_synonym bytes = "byte list"
type_synonym gostring = "byte list"

named_theorems wire \<open>lengths and round trips of the byte encodings\<close>

section \<open>Definitions\<close>

subsection \<open>String literals\<close>

definition str :: "string \<Rightarrow> gostring" where
  "str s = map of_char s"

subsection \<open>Package encoding/binary, little endian\<close>

definition put_le :: "nat \<Rightarrow> 'a::len word \<Rightarrow> bytes" where
  "put_le n w = map (\<lambda>i. ucast (drop_bit (8 * i) w)) [0..<n]"

primrec get_le :: "bytes \<Rightarrow> 'a::len word" where
  "get_le [] = 0"
| "get_le (b # bs) = ucast b OR push_bit 8 (get_le bs)"

definition PutUint32 :: "u32 \<Rightarrow> bytes" where
  "PutUint32 w = put_le 4 w"

definition PutUint64 :: "u64 \<Rightarrow> bytes" where
  "PutUint64 w = put_le 8 w"

text \<open>Reading from a slice that is too short panics.\<close>

definition Uint32 :: "bytes \<Rightarrow> u32 option" where
  "Uint32 bs = (if length bs < 4 then None else Some (get_le (take 4 bs)))"

definition Uint64 :: "bytes \<Rightarrow> u64 option" where
  "Uint64 bs = (if length bs < 8 then None else Some (get_le (take 8 bs)))"

text \<open>The slice expression \<open>p[i:j]\<close>, which panics out of range.\<close>

definition slice :: "'a list \<Rightarrow> nat \<Rightarrow> nat \<Rightarrow> 'a list option" where
  "slice p i j = (if i \<le> j \<and> j \<le> length p then Some (take (j - i) (drop i p)) else None)"

subsection \<open>Package hash/crc32: the IEEE polynomial, bit by bit\<close>

definition crc_shift :: "u32 \<Rightarrow> u32" where
  "crc_shift c = (if bit c 0 then drop_bit 1 c XOR 0xEDB88320 else drop_bit 1 c)"

definition crc_byte :: "byte \<Rightarrow> u32 \<Rightarrow> u32" where
  "crc_byte b c = foldr (\<lambda>_. crc_shift) [0..<8::nat] (c XOR ucast b)"

definition ChecksumIEEE :: "bytes \<Rightarrow> u32" where
  "ChecksumIEEE bs = fold crc_byte bs 0xFFFFFFFF XOR 0xFFFFFFFF"

subsection \<open>Outcomes of file-system calls\<close>

text \<open>
  Whether the next file-system calls succeed is scripted by a list of outcomes that the
  calls consume one by one; past its end every call succeeds.
\<close>

fun io_next :: "bool list \<Rightarrow> bool \<times> bool list" where
  "io_next [] = (True, [])"
| "io_next (b # bs) = (b, bs)"

fun io_seq :: "nat \<Rightarrow> bool list \<Rightarrow> bool \<times> bool list" where
  "io_seq 0 io = (True, io)"
| "io_seq (Suc n) io =
     (let (ok, io') = io_next io in if ok then io_seq n io' else (False, io'))"

subsection \<open>Statements that return an error\<close>

text \<open>
  A Go statement on a state \<open>'s\<close> that returns an \<open>error\<close> yields the new state and the error
  (\<open>None\<close> is \<open>nil\<close>); the outer option is \<open>None\<close> for a panic.  \<open>try_then m f\<close> is
  \<open>if err := m; err != nil { return err }; f\<close>.
\<close>

definition try_then ::
  "('s \<times> 'e option) option \<Rightarrow> ('s \<Rightarrow> ('s \<times> 'e option) option) \<Rightarrow> ('s \<times> 'e option) option" where
  "try_then m f =
     (case m of None \<Rightarrow> None
      | Some (s, Some e) \<Rightarrow> Some (s, Some e)
      | Some (s, None) \<Rightarrow> f s)"

section \<open>Lemmas\<close>

subsection \<open>Statements that return an error\<close>

lemma try_then_simps [simp]:
  "try_then None f = None" "try_then (Some (s, None)) f = f s"
  "try_then (Some (s, Some e)) f = Some (s, Some e)"
  by (simp_all add: try_then_def)

lemma try_then_ok:
  "try_then m f = Some (s', None) \<longleftrightarrow> (\<exists>s. m = Some (s, None) \<and> f s = Some (s', None))"
  by (auto simp: try_then_def split: option.splits)

subsection \<open>Little-endian encodings\<close>

lemma length_put_le [simp, wire]: "length (put_le n w) = n"
  by (simp add: put_le_def)

lemma length_PutUint32 [simp, wire]: "length (PutUint32 w) = 4"
  by (simp add: PutUint32_def)

lemma length_PutUint64 [simp, wire]: "length (PutUint64 w) = 8"
  by (simp add: PutUint64_def)

lemma bit_get_le:
  "k < LENGTH('a) \<Longrightarrow> bit (get_le bs :: 'a::len word) k
     \<longleftrightarrow> k div 8 < length bs \<and> bit (bs ! (k div 8)) (k mod 8)"
proof (induction bs arbitrary: k)
  case Nil
  then show ?case by simp
next
  case (Cons b bs)
  show ?case
  proof (cases "k < 8")
    case True
    with Cons.prems show ?thesis by (simp add: bit_simps)
  next
    case False
    then have "k div 8 = Suc ((k - 8) div 8)" "k mod 8 = (k - 8) mod 8"
      by (simp_all add: le_div_geq le_mod_geq)
    moreover have "\<not> bit b k" using False bit_imp_le_length [of b k] by auto
    ultimately show ?thesis using False Cons by (simp add: bit_simps)
  qed
qed

lemma get_put_le:
  assumes "LENGTH('a::len) = 8 * n"
  shows "get_le (put_le n w) = (w :: 'a word)"
proof (rule bit_word_eqI)
  fix k assume k: "k < LENGTH('a)"
  then have "k div 8 < n" using assms by auto
  moreover have "8 * (k div 8) + k mod 8 = k" by simp
  ultimately show "bit (get_le (put_le n w) :: 'a word) k = bit w k"
    using k by (simp add: bit_get_le put_le_def bit_simps)
qed

lemma Uint32_PutUint32 [simp, wire]: "Uint32 (PutUint32 w @ rest) = Some w"
  by (simp add: Uint32_def PutUint32_def get_put_le)

lemma Uint64_PutUint64 [simp, wire]: "Uint64 (PutUint64 w @ rest) = Some w"
  by (simp add: Uint64_def PutUint64_def get_put_le)

lemma Uint32_PutUint32_only [simp, wire]: "Uint32 (PutUint32 w) = Some w"
  using Uint32_PutUint32 [of w "[]"] by simp

lemma Uint64_PutUint64_only [simp, wire]: "Uint64 (PutUint64 w) = Some w"
  using Uint64_PutUint64 [of w "[]"] by simp

lemma slice_append_mid [wire]:
  "i = length a \<Longrightarrow> j = length a + length b \<Longrightarrow> slice (a @ b @ c) i j = Some b"
  by (simp add: slice_def)

subsection \<open>Words and lengths\<close>

lemma unat_of_nat_u32: "n < 2 ^ 32 \<Longrightarrow> unat (word_of_nat n :: u32) = n"
  by (simp add: unat_of_nat take_bit_nat_eq_self)

lemma unat_of_nat_u64: "n < 2 ^ 64 \<Longrightarrow> unat (word_of_nat n :: u64) = n"
  by (simp add: unat_of_nat take_bit_nat_eq_self)

end
