(* ===== verification/Wal.thy ===== *)
theory Wal
  imports Prelude
begin

text \<open>
  The write-ahead log of \<open>storage/wal.go\<close>.  The handle keeps the durable contents of the
  file and the bytes appended since the last successful \<open>Sync\<close>, of which a crash keeps an
  arbitrary prefix.
\<close>

section \<open>Definitions\<close>

datatype ioerr = ErrIO

text \<open>
  The struct \<open>WAL\<close>: \<open>w_disk\<close> is what the last successful fsync made durable, \<open>w_file\<close> what
  was written to the file since, \<open>w_buf\<close> what is still in the \<open>bufio.Writer\<close>, \<open>w_err\<close> the
  sticky error of the \<open>bufio.Writer\<close>, \<open>w_closed\<close> whether the file was closed, \<open>w_io\<close> the
  outcomes of the coming file-system calls.  The writer may pass bytes on to the file before
  \<open>Flush\<close>; that only moves them from \<open>w_buf\<close> to \<open>w_file\<close>, which a crash treats alike.
\<close>

record WAL =
  w_disk :: bytes
  w_file :: bytes
  w_buf :: bytes
  w_off :: u64
  w_err :: bool
  w_closed :: bool
  w_io :: "bool list"

datatype wfile = NoFile | Unreadable | File bytes

text \<open>Opening for append and reading the size are two calls.\<close>

definition OpenWAL :: "bool list \<Rightarrow> wfile \<Rightarrow> ioerr + WAL" where
  "OpenWAL io f =
     (let (ok, io') = io_seq 2 io in
      if \<not> ok \<or> f = Unreadable then Inl ErrIO
      else let content = (case f of File bs \<Rightarrow> bs | _ \<Rightarrow> []) in
           Inr \<lparr>w_disk = content, w_file = [], w_buf = [], w_off = word_of_nat (length content),
                w_err = False, w_closed = False, w_io = io'\<rparr>)"

definition frame :: "bytes \<Rightarrow> bytes" where
  "frame payload =
     PutUint32 (ChecksumIEEE payload) @ PutUint32 (word_of_nat (length payload)) @ payload"

text \<open>One call of \<open>w.buf.Write\<close>; a failed write leaves the error in the writer for good.\<close>

definition buf_Write :: "WAL \<Rightarrow> bytes \<Rightarrow> WAL \<times> ioerr option" where
  "buf_Write w bs =
     (if w_err w then (w, Some ErrIO)
      else let (ok, io') = io_next (w_io w);
               w' = w\<lparr>w_buf := w_buf w @ bs, w_io := io'\<rparr>
           in if ok then (w', None) else (w'\<lparr>w_err := True\<rparr>, Some ErrIO))"

definition Append :: "WAL \<Rightarrow> bytes \<Rightarrow> WAL \<times> ioerr option" where
  "Append w payload =
     (let hdr = PutUint32 (ChecksumIEEE payload) @ PutUint32 (word_of_nat (length payload));
          (w1, e1) = buf_Write w hdr in
      case e1 of Some e \<Rightarrow> (w1, Some e)
      | None \<Rightarrow>
          (let (w2, e2) = buf_Write w1 payload in
           case e2 of Some e \<Rightarrow> (w2, Some e)
           | None \<Rightarrow> (w2\<lparr>w_off := w_off w2 + word_of_nat (8 + length payload)\<rparr>, None)))"

definition buf_Flush :: "WAL \<Rightarrow> WAL \<times> ioerr option" where
  "buf_Flush w =
     (if w_err w then (w, Some ErrIO)
      else if w_buf w = [] then (w, None)
      else let (ok, io') = io_next (w_io w); w' = w\<lparr>w_io := io'\<rparr>
           in if ok \<and> \<not> w_closed w
              then (w'\<lparr>w_file := w_file w @ w_buf w, w_buf := []\<rparr>, None)
              else (w'\<lparr>w_err := True\<rparr>, Some ErrIO))"

definition file_Sync :: "WAL \<Rightarrow> WAL \<times> ioerr option" where
  "file_Sync w =
     (let (ok, io') = io_next (w_io w); w' = w\<lparr>w_io := io'\<rparr> in
      if ok \<and> \<not> w_closed w
      then (w'\<lparr>w_disk := w_disk w @ w_file w, w_file := []\<rparr>, None)
      else (w', Some ErrIO))"

definition file_Close :: "WAL \<Rightarrow> WAL \<times> ioerr option" where
  "file_Close w =
     (let (ok, io') = io_next (w_io w) in
      (w\<lparr>w_closed := True, w_io := io'\<rparr>, if ok \<and> \<not> w_closed w then None else Some ErrIO))"

definition Sync :: "WAL \<Rightarrow> WAL \<times> ioerr option" where
  "Sync w =
     (case buf_Flush w of
        (w1, Some e) \<Rightarrow> (w1, Some e)
      | (w1, None) \<Rightarrow> file_Sync w1)"

definition Close :: "WAL \<Rightarrow> WAL \<times> ioerr option" where
  "Close w =
     (case Sync w of
        (w1, Some e) \<Rightarrow> (fst (file_Close w1), Some e)
      | (w1, None) \<Rightarrow> file_Close w1)"

text \<open>
  \<open>ReplayWAL\<close>: the callback \<open>fn\<close> maps the caller's state to an error or to a new state.
\<close>

definition next_record :: "bytes \<Rightarrow> (bytes \<times> bytes) option" where
  "next_record bs =
     (if length bs < 8 then None
      else let crc = get_le (take 4 bs) :: u32;
               n = unat (get_le (take 4 (drop 4 bs)) :: u32);
               rest = drop 8 bs in
           if length rest < n then None
           else if ChecksumIEEE (take n rest) \<noteq> crc then None
           else Some (take n rest, drop n rest))"

lemma next_record_shorter: "next_record bs = Some (p, r) \<Longrightarrow> length r < length bs"
  by (auto simp: next_record_def Let_def split: if_splits)

function replay :: "('s \<Rightarrow> bytes \<Rightarrow> 'e + 's) \<Rightarrow> 's \<Rightarrow> bytes \<Rightarrow> 'e + 's" where
  "replay fn s bs =
     (case next_record bs of
        None \<Rightarrow> Inr s
      | Some (p, r) \<Rightarrow> (case fn s p of Inl e \<Rightarrow> Inl e | Inr s' \<Rightarrow> replay fn s' r))"
  by pat_completeness auto
termination
  by (relation "measure (\<lambda>(fn, s, bs). length bs)") (auto dest: next_record_shorter)

declare replay.simps [simp del]

text \<open>The records a file holds, up to the first torn or corrupted one: the specification of
  the replay.\<close>

function records :: "bytes \<Rightarrow> bytes list" where
  "records bs = (case next_record bs of None \<Rightarrow> [] | Some (p, r) \<Rightarrow> p # records r)"
  by pat_completeness auto
termination
  by (relation "measure length") (auto dest: next_record_shorter)

declare records.simps [simp del]

fun run_records :: "('s \<Rightarrow> bytes \<Rightarrow> 'e + 's) \<Rightarrow> 's \<Rightarrow> bytes list \<Rightarrow> 'e + 's" where
  "run_records fn s [] = Inr s"
| "run_records fn s (p # ps) =
     (case fn s p of Inl e \<Rightarrow> Inl e | Inr s' \<Rightarrow> run_records fn s' ps)"

definition frames :: "bytes list \<Rightarrow> bytes" where
  "frames ps = concat (map frame ps)"

text \<open>A payload whose length fits the 32-bit length field.\<close>

definition fits :: "bytes \<Rightarrow> bool" where
  "fits p \<longleftrightarrow> length p < 2 ^ 32"

text \<open>What a crash leaves in the file: the durable bytes and some of the unsynced ones.\<close>

definition crash :: "WAL \<Rightarrow> nat \<Rightarrow> bytes" where
  "crash w n = w_disk w @ take n (w_file w @ w_buf w)"

text \<open>The handle holds the durable records \<open>ds\<close> and then the unsynced records \<open>ps\<close>; after a
  failed write the buffer ends in a part of the last one.\<close>

definition holds :: "WAL \<Rightarrow> bytes list \<Rightarrow> bytes list \<Rightarrow> bool" where
  "holds w ds ps \<longleftrightarrow> (\<forall>p \<in> set (ds @ ps). fits p) \<and> w_disk w = frames ds
     \<and> (if w_err w then \<exists>m. w_file w @ w_buf w = take m (frames ps)
        else w_file w @ w_buf w = frames ps)"

text \<open>
  A session on one handle: calls of \<open>Append\<close> and \<open>Sync\<close>, with the records known durable and
  the records written since carried along.
\<close>

datatype walop = OpAppend bytes | OpSync

fun wal_session :: "WAL \<times> bytes list \<times> bytes list \<Rightarrow> walop list \<Rightarrow>
    WAL \<times> bytes list \<times> bytes list" where
  "wal_session (w, ds, ps) [] = (w, ds, ps)"
| "wal_session (w, ds, ps) (OpAppend p # ops) =
     wal_session (fst (Append w p), ds, if w_err w then ps else ps @ [p]) ops"
| "wal_session (w, ds, ps) (OpSync # ops) =
     (case Sync w of (w', None) \<Rightarrow> wal_session (w', ds @ ps, []) ops
      | (w', Some e) \<Rightarrow> wal_session (w', ds, ps) ops)"

datatype 'e walerr = OpenErr | ReplayErr 'e

definition ReplayWAL :: "('s \<Rightarrow> bytes \<Rightarrow> 'e + 's) \<Rightarrow> 's \<Rightarrow> wfile \<Rightarrow> 'e walerr + 's" where
  "ReplayWAL fn s f =
     (case f of NoFile \<Rightarrow> Inr s
      | Unreadable \<Rightarrow> Inl OpenErr
      | File bs \<Rightarrow> map_sum ReplayErr id (replay fn s bs))"


section \<open>Lemmas\<close>

subsection \<open>Frames\<close>

lemma frames_simps [simp]:
  "frames [] = []" "frames (p # ps) = frame p @ frames ps"
  "frames (ps @ qs) = frames ps @ frames qs"
  by (simp_all add: frames_def)

lemma length_frame [wire]: "length (frame p) = 8 + length p"
  by (simp add: frame_def)

lemma frame_nonempty [simp]: "frame p \<noteq> []"
  by (simp add: frame_def flip: length_0_conv)

lemma frame_fields:
  assumes "fits p"
  shows "(get_le (take 4 (frame p @ r)) :: u32) = ChecksumIEEE p"
    and "unat (get_le (take 4 (drop 4 (frame p @ r))) :: u32) = length p"
    and "drop 8 (frame p @ r) = p @ r"
  using assms
  by (simp_all add: frame_def fits_def PutUint32_def get_put_le unat_of_nat_u32)

lemma next_record_frame: "fits p \<Longrightarrow> next_record (frame p @ r) = Some (p, r)"
  unfolding next_record_def
  by (simp only: frame_fields Let_def) (simp add: length_frame)

lemma next_record_short: "length bs < 8 \<Longrightarrow> next_record bs = None"
  by (simp add: next_record_def)

lemma next_record_overrun:
  "length bs < 8 + unat (get_le (take 4 (drop 4 bs)) :: u32) \<Longrightarrow> next_record bs = None"
  by (auto simp: next_record_def Let_def simp del: take_drop)

lemma next_record_torn:
  assumes "fits p" "n < length (frame p)"
  shows "next_record (take n (frame p)) = None"
proof (cases "n < 8")
  case True
  then show ?thesis by (simp add: next_record_short)
next
  case False
  then have "take 4 (drop 4 (take n (frame p))) = take 4 (drop 4 (frame p))"
    by (simp add: drop_take)
  with assms False show ?thesis
    using frame_fields(2) [of p "[]"] by (intro next_record_overrun) (simp add: length_frame)
qed

subsection \<open>Replay is a fold over the decoded records\<close>

lemma run_records_append:
  "run_records fn s (ps @ qs) =
     (case run_records fn s ps of Inl e \<Rightarrow> Inl e | Inr s' \<Rightarrow> run_records fn s' qs)"
  by (induction ps arbitrary: s) (auto split: sum.splits)

lemma replay_records: "replay fn s bs = run_records fn s (records bs)"
proof (induction fn s bs rule: replay.induct)
  case (1 fn s bs)
  then show ?case
    by (simp add: replay.simps [of fn s bs] records.simps [of bs] split: option.splits sum.splits)
qed

lemma records_frame_append: "fits p \<Longrightarrow> records (frame p @ r) = p # records r"
  by (simp add: records.simps [of "frame p @ r"] next_record_frame)

lemma records_frames_append:
  "\<forall>p \<in> set ps. fits p \<Longrightarrow> records (frames ps @ r) = ps @ records r"
  by (induction ps) (simp_all add: records_frame_append)

lemma records_torn:
  "fits p \<Longrightarrow> n < length (frame p) \<Longrightarrow> records (take n (frame p)) = []"
  by (simp add: records.simps [of "take n (frame p)"] next_record_torn)

lemma records_Nil [simp]: "records [] = []"
  by (simp add: records.simps [of "[]"] next_record_short)

lemma records_frames: "\<forall>p \<in> set ps. fits p \<Longrightarrow> records (frames ps) = ps"
  using records_frames_append [of ps "[]"] by simp

text \<open>Every prefix of a sequence of frames decodes to a prefix of the records.\<close>

lemma records_take_frames:
  "\<forall>p \<in> set ps. fits p \<Longrightarrow> \<exists>k. records (take n (frames ps)) = take k ps"
proof (induction ps arbitrary: n)
  case Nil
  then show ?case by simp
next
  case (Cons p ps)
  show ?case
  proof (cases "n < length (frame p)")
    case True
    then have "records (take n (frames (p # ps))) = take 0 (p # ps)"
      using Cons.prems by (simp add: records_torn)
    then show ?thesis by blast
  next
    case False
    then have "take n (frames (p # ps)) = frames [p] @ take (n - length (frame p)) (frames ps)"
      by simp
    moreover obtain k where "records (take (n - length (frame p)) (frames ps)) = take k ps"
      using Cons by auto
    ultimately have "records (take n (frames (p # ps))) = take (Suc k) (p # ps)"
      using Cons.prems records_frames_append [of "[p]"] by simp
    then show ?thesis by blast
  qed
qed

subsection \<open>The operations on the handle\<close>

lemma holds_take:
  "holds w ds ps \<Longrightarrow> \<exists>m. w_file w @ w_buf w = take m (frames ps)"
  by (auto simp: holds_def split: if_splits intro: exI [of _ "length (frames ps)"])

lemma take8_frame: "take 8 (frame p) =
  PutUint32 (ChecksumIEEE p) @ PutUint32 (word_of_nat (length p))"
  by (simp add: frame_def)

lemma Append_spec:
  assumes "Append w p = (w', e)" "\<not> w_err w"
  shows "w_disk w' = w_disk w \<and> w_file w' = w_file w \<and> w_closed w' = w_closed w
    \<and> w_buf w' = w_buf w @ (if w_err w' \<and> length (w_buf w') = length (w_buf w) + 8
        then take 8 (frame p) else frame p)
    \<and> (e = None \<longleftrightarrow> \<not> w_err w')"
  using assms
  by (auto simp: Append_def buf_Write_def Let_def take8_frame split: prod.splits if_splits)
     (auto simp: frame_def)

lemma Append_sticky: "w_err w \<Longrightarrow> Append w p = (w, Some ErrIO)"
  by (simp add: Append_def buf_Write_def)

lemma Append_None_no_err: "Append w p = (w', None) \<Longrightarrow> \<not> w_err w \<and> \<not> w_err w'"
  using Append_sticky [of w p] Append_spec [of w p w' None] by (cases "w_err w") auto

lemma Sync_spec:
  assumes "Sync w = (w', e)"
  shows "w_closed w' = w_closed w \<and>
    (if e = None then w_disk w' = w_disk w @ w_file w @ w_buf w \<and> w_file w' = [] \<and> w_buf w' = []
       \<and> \<not> w_err w \<and> \<not> w_err w' \<and> \<not> w_closed w
     else w_disk w' = w_disk w \<and> w_file w' @ w_buf w' = w_file w @ w_buf w
       \<and> (w_err w \<longrightarrow> w_err w'))"
  using assms
  by (auto simp: Sync_def buf_Flush_def file_Sync_def Let_def split: prod.splits if_splits)

lemma holds_Append:
  assumes "holds w ds ps" "fits p" "Append w p = (w', e)"
  shows "holds w' ds (if w_err w then ps else ps @ [p])"
proof (cases "w_err w")
  case True
  with assms show ?thesis by (simp add: Append_sticky)
next
  case False
  note spec = Append_spec [OF assms(3) False]
  let ?b = "w_file w' @ w_buf w'"
  have b: "w_file w @ w_buf w = frames ps" using False assms(1) by (simp add: holds_def)
  have "\<exists>m. ?b = take m (frames (ps @ [p]))"
  proof (cases "w_err w' \<and> length (w_buf w') = length (w_buf w) + 8")
    case True
    with spec b have "?b = take (length (frames ps) + 8) (frames (ps @ [p]))"
      by (simp flip: append_assoc)
    then show ?thesis by blast
  next
    case otherwise: False
    with spec b have "?b = take (length (frames (ps @ [p]))) (frames (ps @ [p]))"
      by (simp flip: append_assoc)
    then show ?thesis by blast
  qed
  with spec b False assms(1,2) show ?thesis
    by (auto simp: holds_def simp flip: append_assoc)
qed

lemma holds_Sync:
  assumes "holds w ds ps" "Sync w = (w', e)"
  shows "if e = None then holds w' (ds @ ps) [] else holds w' ds ps"
  using Sync_spec [OF assms(2)] assms(1)
  by (auto simp: holds_def split: if_splits intro: exI [of _ "length (frames ps)"])

lemma OpenWAL_fields:
  assumes "OpenWAL io f = Inr w"
  shows "w_disk w = (case f of File bs \<Rightarrow> bs | _ \<Rightarrow> []) \<and> w_file w = [] \<and> w_buf w = []
    \<and> \<not> w_err w \<and> \<not> w_closed w"
  using assms by (auto simp: OpenWAL_def Let_def split: prod.splits if_splits)

lemma holds_OpenWAL:
  "OpenWAL io f = Inr w \<Longrightarrow> f = File (frames ds) \<Longrightarrow> \<forall>p \<in> set ds. fits p \<Longrightarrow> holds w ds []"
  using OpenWAL_fields [of io f w] by (simp add: holds_def)

lemma records_crash:
  assumes "holds w ds ps"
  shows "\<exists>k. records (crash w n) = ds @ take k ps"
proof -
  obtain m where m: "w_file w @ w_buf w = take m (frames ps)" using holds_take [OF assms] by blast
  have "\<forall>p \<in> set ps. fits p" using assms by (simp add: holds_def)
  then obtain k where "records (take (min n m) (frames ps)) = take k ps"
    using records_take_frames by blast
  moreover have "crash w n = frames ds @ take (min n m) (frames ps)"
    using assms m by (simp add: crash_def holds_def)
  ultimately show ?thesis
    using assms records_frames_append [of ds] by (auto simp: holds_def)
qed

section \<open>The contract of a record log\<close>

text \<open>
  What the storage engine and the Raft storage rely on: records appended and synced survive a
  crash in order, records appended later survive as a prefix.  \<open>logged w ds ps\<close> says that the
  handle holds the durable records \<open>ds\<close> and the pending records \<open>ps\<close>.
\<close>

locale record_log =
  fixes append :: "'w \<Rightarrow> bytes \<Rightarrow> 'w \<times> ioerr option"
    and sync :: "'w \<Rightarrow> 'w \<times> ioerr option"
    and image :: "'w \<Rightarrow> nat \<Rightarrow> bytes"
    and decode :: "bytes \<Rightarrow> bytes list"
    and logged :: "'w \<Rightarrow> bytes list \<Rightarrow> bytes list \<Rightarrow> bool"
    and accepts :: "bytes \<Rightarrow> bool"
  assumes append_ok:
      "logged w ds ps \<Longrightarrow> accepts p \<Longrightarrow> append w p = (w', None) \<Longrightarrow> logged w' ds (ps @ [p])"
    and append_failed:
      "logged w ds ps \<Longrightarrow> accepts p \<Longrightarrow> append w p = (w', Some e) \<Longrightarrow>
       logged w' ds ps \<or> logged w' ds (ps @ [p])"
    and sync_ok: "logged w ds ps \<Longrightarrow> sync w = (w', None) \<Longrightarrow> logged w' (ds @ ps) []"
    and sync_failed: "logged w ds ps \<Longrightarrow> sync w = (w', Some e) \<Longrightarrow> logged w' ds ps"
    and image_decodes: "logged w ds ps \<Longrightarrow> \<exists>k. decode (image w n) = ds @ take k ps"
begin

lemma durable_kept:
  assumes "logged w ds ps"
  shows "\<exists>more. decode (image w n) = ds @ more"
  using image_decodes [OF assms] by blast

lemma synced_recovers:
  assumes "logged w ds ps" "sync w = (w', None)"
  shows "decode (image w' n) = ds @ ps"
  using image_decodes [OF sync_ok [OF assms]] by auto

lemma append_sync_recovers:
  assumes "logged w ds ps" "accepts p" "append w p = (w1, None)" "sync w1 = (w2, None)"
  shows "decode (image w2 n) = ds @ ps @ [p]"
  using synced_recovers [OF append_ok [OF assms(1-3)] assms(4)] by simp

end

interpretation wal: record_log Append Sync crash records holds fits
proof unfold_locales
  fix w ds ps p w'
  assume h: "holds w ds ps" "fits p" and a: "Append w p = (w', None)"
  from Append_None_no_err [OF a] show "holds w' ds (ps @ [p])" using holds_Append [OF h a] by simp
next
  fix w ds ps p w' e
  assume "holds w ds ps" "fits p" "Append w p = (w', Some e)"
  from holds_Append [OF this] show "holds w' ds ps \<or> holds w' ds (ps @ [p])"
    by (auto split: if_splits)
next
  fix w ds ps w'
  assume "holds w ds ps" "Sync w = (w', None)"
  from holds_Sync [OF this] show "holds w' (ds @ ps) []" by simp
next
  fix w ds ps w' e
  assume "holds w ds ps" "Sync w = (w', Some e)"
  from holds_Sync [OF this] show "holds w' ds ps" by simp
qed (rule records_crash)

lemma holds_session:
  "holds w ds ps \<Longrightarrow> \<forall>p. OpAppend p \<in> set ops \<longrightarrow> fits p \<Longrightarrow>
   wal_session (w, ds, ps) ops = (w', ds', ps') \<Longrightarrow> holds w' ds' ps'"
proof (induction ops arbitrary: w ds ps)
  case (Cons op ops)
  show ?case
  proof (cases op)
    case (OpAppend p)
    obtain w1 e where a: "Append w p = (w1, e)" by fastforce
    with Cons.prems OpAppend have "holds w1 ds (if w_err w then ps else ps @ [p])"
      by (intro holds_Append) auto
    with Cons a OpAppend show ?thesis by auto
  next
    case OpSync
    obtain w1 e where "Sync w = (w1, e)" by fastforce
    with holds_Sync [OF Cons.prems(1) this] Cons OpSync show ?thesis
      by (cases e) auto
  qed
qed simp

section \<open>Properties\<close>



text \<open>C8: a torn tail hides what is appended after it.  \<open>ReplayWAL\<close> stops at a torn record, but
  \<open>OpenWAL\<close> opens the file for appending without cutting the torn bytes off; if the torn
  record announced more bytes than the next record brings, that record is appended, synced and
  reported durable, and no later replay ever returns it.\<close>

theorem torn_tail_hides_appends:
  assumes "\<forall>d \<in> set ds. fits d" "fits p" "8 \<le> n" "n + length (frame q) < length (frame p)"
    and "OpenWAL io (File (frames ds @ take n (frame p))) = Inr w"
    and "Append w q = (w1, None)" "Sync w1 = (w2, None)"
  shows "records (crash w2 k) = ds"
proof -
  have w: "w_disk w = frames ds @ take n (frame p)" "w_file w = []" "w_buf w = []" "\<not> w_err w"
    using OpenWAL_fields [OF assms(5)] by simp_all
  have "w_disk w1 = w_disk w" "w_file w1 = []" "w_buf w1 = frame q"
    using Append_spec [OF assms(6) w(4)] w(2,3) by auto
  then have image: "crash w2 k = frames ds @ take n (frame p) @ frame q"
    using Sync_spec [OF assms(7)] w by (simp add: crash_def)
  let ?t = "take n (frame p) @ frame q"
  have "take 4 (drop 4 ?t) = take 4 (drop 4 (frame p))"
    using assms(3) by (simp add: drop_take length_frame)
  then have "unat (get_le (take 4 (drop 4 ?t)) :: u32) = length p"
    using frame_fields(2) [OF assms(2), of "[]"] by simp
  then have "next_record ?t = None"
    using assms(4) by (intro next_record_overrun) (simp add: length_frame)
  then have "records ?t = []" by (simp add: records.simps [of ?t])
  then show ?thesis using image records_frames_append [OF assms(1)] by simp
qed

theorem torn_tail_hides_appends_witness:
  "records (crash (fst (Sync (fst (Append (projr (OpenWAL []
      (File (frames [[5]] @ take 8 (frame (replicate 20 0)))))) [1])))) 0) = [[5]]"
proof -
  let ?w = "projr (OpenWAL [] (File (frames [[5]] @ take 8 (frame (replicate 20 0)))))"
  have 1: "OpenWAL [] (File (frames [[5]] @ take 8 (frame (replicate 20 0)))) = Inr ?w"
    by (simp add: OpenWAL_def numeral_2_eq_2)
  have 2: "Append ?w [1] = (fst (Append ?w [1]), None)"
    by (simp add: OpenWAL_def numeral_2_eq_2 Append_def buf_Write_def Let_def)
  have 3: "Sync (fst (Append ?w [1])) = (fst (Sync (fst (Append ?w [1]))), None)"
    by (simp add: OpenWAL_def numeral_2_eq_2 Append_def buf_Write_def Sync_def buf_Flush_def file_Sync_def Let_def)
  show ?thesis
    by (rule torn_tail_hides_appends [OF _ _ _ _ 1 2 3])
      (simp_all add: fits_def length_frame)
qed

end
