(* ===== verification/RaftPb.thy ===== *)
theory RaftPb
  imports Prelude
begin

text \<open>
  The messages of \<open>proto/raft.proto\<close> as the Go structs generated for them
  (\<open>proto/raftpb/raft.pb.go\<close>).  A proto3 enum is an open \<open>int32\<close>, so a peer can send values the
  schema does not name; the enums stay 32-bit words with named values.
\<close>

section \<open>Log entries and configuration changes\<close>

text \<open>\<open>type EntryType int32\<close> and \<open>type ConfChangeType int32\<close> with their named values.\<close>

type_synonym EntryType = "32 word"
type_synonym ConfChangeType = "32 word"

abbreviation ENTRY_NORMAL :: EntryType where "ENTRY_NORMAL \<equiv> 0"
abbreviation ENTRY_CONF_CHANGE :: EntryType where "ENTRY_CONF_CHANGE \<equiv> 1"

abbreviation CONF_CHANGE_ADD_NODE :: ConfChangeType where "CONF_CHANGE_ADD_NODE \<equiv> 0"
abbreviation CONF_CHANGE_REMOVE_NODE :: ConfChangeType where "CONF_CHANGE_REMOVE_NODE \<equiv> 1"
abbreviation CONF_CHANGE_LEAVE_JOINT :: ConfChangeType where "CONF_CHANGE_LEAVE_JOINT \<equiv> 2"

record ConfChange =
  cc_Type :: ConfChangeType
  cc_NodeId :: u64
  cc_Context :: bytes

record Entry =
  e_Term :: u64
  e_Index :: u64
  e_Data :: bytes
  e_Type :: EntryType
  e_ConfChange :: "ConfChange option"

section \<open>Requests and responses\<close>

record RequestVoteRequest =
  rv_Term :: u64
  rv_CandidateId :: u64
  rv_LastLogIndex :: u64
  rv_LastLogTerm :: u64

record RequestVoteResponse =
  rvr_Term :: u64
  rvr_VoteGranted :: bool

record AppendEntriesRequest =
  ae_Term :: u64
  ae_LeaderId :: u64
  ae_PrevLogIndex :: u64
  ae_PrevLogTerm :: u64
  ae_Entries :: "Entry list"
  ae_LeaderCommit :: u64

record AppendEntriesResponse =
  aer_Term :: u64
  aer_Success :: bool
  aer_ConflictIndex :: u64
  aer_ConflictTerm :: u64

record InstallSnapshotRequest =
  is_Term :: u64
  is_LeaderId :: u64
  is_LastIncludedIndex :: u64
  is_LastIncludedTerm :: u64
  is_Data :: bytes
  is_ConfState :: bytes

record InstallSnapshotResponse =
  isr_Term :: u64

record ReadIndexRequest =
  ri_Term :: u64
  ri_LeaderId :: u64

record ReadIndexResponse =
  rir_Term :: u64
  rir_Ack :: bool

end
