(* ===== verification/ConfState.thy ===== *)
theory ConfState
  imports RaftPb "HOL-Library.FSet"
begin

text \<open>
  Cluster membership with joint consensus: \<open>raft/confstate.go\<close> and
  \<open>raft/confstate_errors.go\<close>.  A Go map used as a set is a finite set; a nil map and an empty
  map differ only when they are written to, which the code does only after \<open>cloneSet\<close> has
  turned an empty map into a nil one.
\<close>

section \<open>Definitions\<close>

subsection \<open>State, errors, accessors\<close>

datatype conf_err =
    ErrConfChangeInProgress | ErrNotInJoint | ErrUnknownMember | ErrQuorumLoss
  | ErrInvalidConfChange | ErrInvalidConfState
  | NilMapPanic  \<comment> \<open>the runtime panic of a write to a nil map\<close>

record ConfState =
  Voters :: "u64 fset"
  Joint :: "u64 fset"

definition NewConfState :: "u64 list \<Rightarrow> ConfState" where
  "NewConfState ids = \<lparr>Voters = fset_of_list ids, Joint = {||}\<rparr>"

definition InJoint :: "ConfState \<Rightarrow> bool" where
  "InJoint c \<longleftrightarrow> fcard (Joint c) > 0"

definition sortedKeys :: "u64 fset \<Rightarrow> u64 list" where
  "sortedKeys m = sorted_list_of_fset m"

definition VoterIDs :: "ConfState \<Rightarrow> u64 list" where
  "VoterIDs c = sortedKeys (Voters c)"

definition JointIDs :: "ConfState \<Rightarrow> u64 list" where
  "JointIDs c = sortedKeys (Joint c)"

definition AllPeerIDs :: "ConfState \<Rightarrow> u64 list" where
  "AllPeerIDs c =
     (if \<not> InJoint c then VoterIDs c else sortedKeys (Voters c |\<union>| Joint c))"

definition Contains :: "ConfState \<Rightarrow> u64 \<Rightarrow> bool" where
  "Contains c i \<longleftrightarrow> i |\<in>| Voters c"

subsection \<open>Quorums\<close>

definition majority :: "nat \<Rightarrow> nat" where
  "majority n = n div 2 + 1"

definition HasVoteQuorum :: "ConfState \<Rightarrow> nat \<Rightarrow> bool" where
  "HasVoteQuorum c voteCount \<longleftrightarrow>
     (if \<not> InJoint c then voteCount \<ge> majority (fcard (Voters c))
      else voteCount \<ge> majority (fcard (Joint c)) \<and> voteCount \<ge> majority (fcard (Voters c)))"

text \<open>Reading a missing key of a Go map yields the zero value.\<close>

definition mget :: "(u64 \<rightharpoonup> u64) \<Rightarrow> u64 \<Rightarrow> u64" where
  "mget m k = (case m k of None \<Rightarrow> 0 | Some v \<Rightarrow> v)"

fun countGE :: "u64 list \<Rightarrow> (u64 \<rightharpoonup> u64) \<Rightarrow> u64 \<Rightarrow> nat" where
  "countGE [] matchIndex idx = 0"
| "countGE (i # ids) matchIndex idx =
     (if mget matchIndex i \<ge> idx then 1 else 0) + countGE ids matchIndex idx"

definition canCommit :: "ConfState \<Rightarrow> u64 \<Rightarrow> (u64 \<rightharpoonup> u64) \<Rightarrow> bool" where
  "canCommit c idx matchIndex \<longleftrightarrow>
     (if \<not> InJoint c
      then countGE (VoterIDs c) matchIndex idx \<ge> majority (fcard (Voters c))
      else countGE (JointIDs c) matchIndex idx \<ge> majority (fcard (Joint c)) \<and>
           countGE (VoterIDs c) matchIndex idx \<ge> majority (fcard (Voters c)))"

fun first_committable :: "ConfState \<Rightarrow> (u64 \<rightharpoonup> u64) \<Rightarrow> u64 list \<Rightarrow> u64" where
  "first_committable c matchIndex [] = 0"
| "first_committable c matchIndex (idx # vals) =
     (if idx = 0 then first_committable c matchIndex vals
      else if canCommit c idx matchIndex then idx
      else first_committable c matchIndex vals)"

definition MaxCommitIndex :: "ConfState \<Rightarrow> (u64 \<rightharpoonup> u64) \<Rightarrow> u64" where
  "MaxCommitIndex c matchIndex =
     (let ids = AllPeerIDs c in
      if length ids = 0 then 0
      else first_committable c matchIndex (rev (sort (map (mget matchIndex) ids))))"

subsection \<open>Configuration changes\<close>

definition ApplyConfChange :: "ConfState \<Rightarrow> ConfChange \<Rightarrow> conf_err + ConfState" where
  "ApplyConfChange c cc =
     (if cc_Type cc = CONF_CHANGE_ADD_NODE then
        if InJoint c then Inl ErrConfChangeInProgress
        else if Voters c = {||} then Inl NilMapPanic
        else Inr \<lparr>Voters = finsert (cc_NodeId cc) (Voters c), Joint = Voters c\<rparr>
      else if cc_Type cc = CONF_CHANGE_REMOVE_NODE then
        if InJoint c then Inl ErrConfChangeInProgress
        else if \<not> Contains c (cc_NodeId cc) then Inl ErrUnknownMember
        else if fcard (Voters c) \<le> 1 then Inl ErrQuorumLoss
        else Inr \<lparr>Voters = Voters c |-| {|cc_NodeId cc|}, Joint = Voters c\<rparr>
      else if cc_Type cc = CONF_CHANGE_LEAVE_JOINT then
        if \<not> InJoint c then Inl ErrNotInJoint
        else Inr (c\<lparr>Joint := {||}\<rparr>)
      else Inl ErrInvalidConfChange)"

subsection \<open>Encoding\<close>

definition encodeConfState :: "ConfState \<Rightarrow> bytes" where
  "encodeConfState c =
     (let voters = VoterIDs c; joint = JointIDs c in
      PutUint32 (word_of_nat (length voters)) @ concat (map PutUint64 voters) @
      PutUint32 (word_of_nat (length joint)) @ concat (map PutUint64 joint))"

fun read_ids :: "nat \<Rightarrow> bytes \<Rightarrow> u64 list" where
  "read_ids 0 buf = []"
| "read_ids (Suc n) buf = get_le (take 8 buf) # read_ids n (drop 8 buf)"

definition decodeConfState :: "bytes \<Rightarrow> conf_err + ConfState" where
  "decodeConfState buf =
     (if length buf < 4 then Inr \<lparr>Voters = {||}, Joint = {||}\<rparr>
      else let nv = unat (get_le (take 4 buf) :: u32) in
      if 4 + nv * 8 > length buf then Inl ErrInvalidConfState
      else let voters = fset_of_list (read_ids nv (drop 4 buf)); off = 4 + nv * 8 in
      if off + 4 > length buf then Inr \<lparr>Voters = voters, Joint = {||}\<rparr>
      else let nj = unat (get_le (take 4 (drop off buf)) :: u32); off' = off + 4 in
      if off' + nj * 8 > length buf then Inl ErrInvalidConfState
      else Inr \<lparr>Voters = voters, Joint = fset_of_list (read_ids nj (drop off' buf))\<rparr>)"

subsection \<open>Specification: quorums as sets of servers\<close>

text \<open>A set of servers is a quorum of a configuration when it contains a majority of the voters
  and, during a transition, a majority of the old voters.\<close>

definition is_quorum :: "ConfState \<Rightarrow> u64 set \<Rightarrow> bool" where
  "is_quorum c Q \<longleftrightarrow>
     card (Q \<inter> fset (Voters c)) \<ge> majority (fcard (Voters c)) \<and>
     (InJoint c \<longrightarrow> card (Q \<inter> fset (Joint c)) \<ge> majority (fcard (Joint c)))"

text \<open>The servers whose match index has reached \<open>idx\<close>.\<close>

definition matched :: "(u64 \<rightharpoonup> u64) \<Rightarrow> u64 \<Rightarrow> u64 set" where
  "matched m idx = {i. mget m i \<ge> idx}"

text \<open>Well-formed membership: at least one voter, and the two sets of a transition differ by at
  most one server.\<close>

definition conf_wf :: "ConfState \<Rightarrow> bool" where
  "conf_wf c \<longleftrightarrow> Voters c \<noteq> {||} \<and>
     (InJoint c \<longrightarrow> (\<exists>i. Voters c = finsert i (Joint c) \<or> Voters c = Joint c |-| {|i|}))"

section \<open>Lemmas\<close>

subsection \<open>Accessors\<close>

lemma InJoint_iff [simp]: "InJoint c \<longleftrightarrow> Joint c \<noteq> {||}"
  by (auto simp: InJoint_def fcard.rep_eq card_gt_0_iff fset_inject [symmetric])

lemma set_sortedKeys [simp]: "set (sortedKeys m) = fset m"
  by (simp add: sortedKeys_def)

lemma distinct_sortedKeys [simp]: "distinct (sortedKeys m)"
  by (simp add: sortedKeys_def sorted_list_of_fset.rep_eq)

lemma length_sortedKeys [simp]: "length (sortedKeys m) = fcard m"
  by (metis distinct_card distinct_sortedKeys fcard.rep_eq set_sortedKeys)

lemma fset_of_list_sortedKeys [simp]: "fset_of_list (sortedKeys m) = m"
  by (simp add: fset_of_list.rep_eq fset_inject [symmetric])

lemma countGE_card:
  "distinct ids \<Longrightarrow> countGE ids m idx = card (matched m idx \<inter> set ids)"
proof (induction ids)
  case (Cons i ids)
  then have "matched m idx \<inter> set (i # ids) =
      (if mget m i \<ge> idx then insert i (matched m idx \<inter> set ids) else matched m idx \<inter> set ids)"
    by (auto simp: matched_def)
  with Cons show ?case by (simp add: card_insert_if)
qed simp

lemma canCommit_is_quorum: "canCommit c idx m \<longleftrightarrow> is_quorum c (matched m idx)"
  by (auto simp: canCommit_def is_quorum_def countGE_card VoterIDs_def JointIDs_def)

lemma matched_antimono: "idx \<le> idx' \<Longrightarrow> matched m idx' \<subseteq> matched m idx"
  by (auto simp: matched_def)

lemma is_quorum_mono:
  assumes "is_quorum c Q" "Q \<inter> (fset (Voters c) \<union> fset (Joint c)) \<subseteq> R"
  shows "is_quorum c R"
proof -
  have "card (Q \<inter> fset A) \<le> card (R \<inter> fset A)" if "A = Voters c \<or> A = Joint c" for A
    using assms(2) that by (intro card_mono) auto
  from this [of "Voters c"] this [of "Joint c"] assms(1) show ?thesis
    by (auto simp: is_quorum_def)
qed

subsection \<open>Majorities intersect\<close>

lemma sets_meet:
  assumes "finite U" "S \<subseteq> U" "T \<subseteq> U" "card U < card S + card T"
  shows "S \<inter> T \<noteq> {}"
proof
  assume "S \<inter> T = {}"
  then have "card S + card T = card (S \<union> T)"
    using assms by (simp add: card_Un_disjoint finite_subset)
  also have "\<dots> \<le> card U" using assms by (intro card_mono) auto
  finally show False using assms(4) by simp
qed

lemma majorities_meet: "majority n + majority n > n"
  by (simp add: majority_def)

lemma majority_overlap:
  "q \<ge> majority v \<Longrightarrow> s \<ge> majority (max v j) \<Longrightarrow> u = max v j \<Longrightarrow> u \<le> Suc (min v j) \<Longrightarrow> u < s + q"
  unfolding majority_def by (cases "v \<le> j") auto

text \<open>
  What the protocol needs of quorums, and what it gains: two quorums share a server, so a
  server that answers only once decides between them.
\<close>

locale quorum_system =
  fixes quorum :: "'a set \<Rightarrow> bool"
  assumes quorums_meet: "quorum Q \<Longrightarrow> quorum R \<Longrightarrow> Q \<inter> R \<noteq> {}"
begin

lemma quorum_nonempty: "quorum Q \<Longrightarrow> Q \<noteq> {}"
  using quorums_meet by fastforce

lemma unique_choice:
  assumes "quorum Q" "quorum R" "\<forall>i \<in> Q. f i = a" "\<forall>i \<in> R. f i = b"
  shows "a = b"
  using quorums_meet [OF assms(1,2)] assms(3,4) by auto

lemma common_witness:
  assumes "quorum Q" "quorum R" "\<forall>i \<in> Q. P i" "\<forall>i \<in> R. P' i"
  obtains i where "i \<in> Q" "i \<in> R" "P i" "P' i"
  using quorums_meet [OF assms(1,2)] assms(3,4) by blast

end

interpretation conf: quorum_system "is_quorum c" for c
proof
  fix Q R assume "is_quorum c Q" "is_quorum c R"
  then have "card (fset (Voters c)) < card (Q \<inter> fset (Voters c)) + card (R \<inter> fset (Voters c))"
    using majorities_meet [of "fcard (Voters c)"] by (simp add: is_quorum_def fcard.rep_eq)
  then have "(Q \<inter> fset (Voters c)) \<inter> (R \<inter> fset (Voters c)) \<noteq> {}"
    by (intro sets_meet [of "fset (Voters c)"]) auto
  then show "Q \<inter> R \<noteq> {}" by blast
qed

lemma votes_not_joint_quorum:
  assumes "\<not> InJoint c" "S \<subseteq> fset (Voters c)"
  shows "HasVoteQuorum c (card S) \<longleftrightarrow> is_quorum c S"
  using assms by (auto simp: HasVoteQuorum_def is_quorum_def Int_absorb2)

text \<open>During a transition the two voter sets differ by one server, so the larger one is the
  union, and counting votes against the larger majority is enough to meet every majority of
  either set.\<close>

lemma fcard_union_near:
  assumes "A = finsert i B \<or> A = B |-| {|i|}"
  shows "fcard (A |\<union>| B) = max (fcard A) (fcard B)"
    and "fcard (A |\<union>| B) \<le> Suc (min (fcard A) (fcard B))"
  using assms
  by (auto simp: fcard.rep_eq card_insert_if card_Diff_singleton_if Un_absorb1 Un_absorb2)

lemma joint_union_card:
  assumes "conf_wf c" "InJoint c"
  shows "fcard (Voters c |\<union>| Joint c) = max (fcard (Voters c)) (fcard (Joint c))"
    and "fcard (Voters c |\<union>| Joint c) \<le> Suc (min (fcard (Voters c)) (fcard (Joint c)))"
proof -
  have "\<exists>i. Voters c = finsert i (Joint c) \<or> Voters c = Joint c |-| {|i|}"
    using assms unfolding conf_wf_def by (elim conjE) (rule mp)
  then obtain i where i: "Voters c = finsert i (Joint c) \<or> Voters c = Joint c |-| {|i|}" ..
  show "fcard (Voters c |\<union>| Joint c) = max (fcard (Voters c)) (fcard (Joint c))"
    by (rule fcard_union_near(1) [OF i])
  show "fcard (Voters c |\<union>| Joint c) \<le> Suc (min (fcard (Voters c)) (fcard (Joint c)))"
    by (rule fcard_union_near(2) [OF i])
qed

lemma vote_quorum_meets_majority:
  assumes wf: "conf_wf c" and S: "S \<subseteq> set (AllPeerIDs c)" "HasVoteQuorum c (card S)"
    and Q: "is_quorum c Q"
  shows "S \<inter> Q \<noteq> {}"
proof (cases "InJoint c")
  case False
  with S have "is_quorum c S"
    using votes_not_joint_quorum by (simp add: AllPeerIDs_def VoterIDs_def)
  then show ?thesis using conf.quorums_meet [OF _ Q] by blast
next
  case True
  let ?U = "fset (Voters c |\<union>| Joint c)" and ?Q = "Q \<inter> fset (Voters c)"
  have "S \<subseteq> ?U" using True S by (simp add: AllPeerIDs_def)
  moreover have "card ?U < card S + card ?Q"
  proof -
    have "card ?Q \<ge> majority (fcard (Voters c))" using Q by (simp add: is_quorum_def)
    moreover have "card S \<ge> majority (max (fcard (Voters c)) (fcard (Joint c)))"
      using True S(2) by (auto simp: HasVoteQuorum_def max_def)
    ultimately have "fcard (Voters c |\<union>| Joint c) < card S + card ?Q"
      using joint_union_card [OF wf True] by (intro majority_overlap) auto
    then show ?thesis by (simp only: fcard.rep_eq)
  qed
  ultimately have "S \<inter> ?Q \<noteq> {}" by (intro sets_meet [of ?U]) auto
  then show ?thesis by blast
qed

lemma vote_quorums_meet:
  assumes wf: "conf_wf c"
    and S: "S \<subseteq> set (AllPeerIDs c)" "HasVoteQuorum c (card S)"
    and T: "T \<subseteq> set (AllPeerIDs c)" "HasVoteQuorum c (card T)"
  shows "S \<inter> T \<noteq> {}"
proof (rule sets_meet [of "set (AllPeerIDs c)"])
  have "card (set (AllPeerIDs c)) = (if InJoint c then max (fcard (Voters c)) (fcard (Joint c))
      else fcard (Voters c))"
    using joint_union_card(1) [OF wf] by (simp add: AllPeerIDs_def VoterIDs_def fcard.rep_eq)
  then show "card (set (AllPeerIDs c)) < card S + card T"
    using S(2) T(2) by (auto simp: HasVoteQuorum_def majority_def split: if_splits)
qed (use S T in auto)

subsection \<open>The commit index\<close>

lemma first_committable_in:
  "first_committable c m vals = 0 \<or>
   (first_committable c m vals \<in> set vals \<and> canCommit c (first_committable c m vals) m)"
  by (induction vals) auto

lemma first_committable_greatest:
  "sorted (rev vals) \<Longrightarrow> v \<in> set vals \<Longrightarrow> v \<noteq> 0 \<Longrightarrow> canCommit c v m \<Longrightarrow>
   v \<le> first_committable c m vals"
  by (induction vals) (auto simp: sorted_append)

text \<open>A committable index can be raised to the match index of some server.\<close>

lemma canCommit_raise:
  assumes "canCommit c idx m" "idx \<noteq> 0"
  obtains i where "i \<in> set (AllPeerIDs c)" "idx \<le> mget m i" "canCommit c (mget m i) m"
proof -
  let ?P = "fset (Voters c) \<union> fset (Joint c)"
  let ?V = "mget m ` (matched m idx \<inter> ?P)"
  have q: "is_quorum c (matched m idx)" using assms canCommit_is_quorum by simp
  have fin: "finite ?V" by simp
  have "matched m idx \<inter> fset (Voters c) \<noteq> {}"
    using q by (auto simp: is_quorum_def majority_def)
  then have ne: "?V \<noteq> {}" by auto
  define v where "v = Min ?V"
  have "v \<in> ?V" using Min_in [OF fin ne] by (simp add: v_def)
  then obtain i where i: "i \<in> matched m idx" "i \<in> ?P" "mget m i = v" by auto
  have "matched m idx \<inter> ?P \<subseteq> matched m v"
    using Min_le [OF fin] by (auto simp: v_def matched_def)
  then have "canCommit c v m" using is_quorum_mono [OF q] canCommit_is_quorum by blast
  moreover have "i \<in> set (AllPeerIDs c)"
    using i(2) by (auto simp: AllPeerIDs_def VoterIDs_def)
  ultimately show ?thesis using that i by (auto simp: matched_def)
qed

lemma MaxCommitIndex_canCommit:
  "MaxCommitIndex c m \<noteq> 0 \<Longrightarrow> canCommit c (MaxCommitIndex c m) m"
  using first_committable_in [of c m "rev (sort (map (mget m) (AllPeerIDs c)))"]
  by (auto simp: MaxCommitIndex_def Let_def)

lemma MaxCommitIndex_greatest:
  assumes "canCommit c idx m"
  shows "idx \<le> MaxCommitIndex c m"
proof (cases "idx = 0")
  case False
  then obtain i where i: "i \<in> set (AllPeerIDs c)" "idx \<le> mget m i" "canCommit c (mget m i) m"
    using canCommit_raise [OF assms] by blast
  moreover have "mget m i \<noteq> 0" using False i(2) by auto
  ultimately have "mget m i \<le> MaxCommitIndex c m"
    by (auto simp: MaxCommitIndex_def Let_def intro!: first_committable_greatest)
  then show ?thesis using i(2) by simp
qed simp

subsection \<open>Configuration changes keep the membership well formed\<close>

lemma ApplyConfChange_cases:
  assumes "ApplyConfChange c cc = Inr c'"
  obtains
    (add) "cc_Type cc = CONF_CHANGE_ADD_NODE" "\<not> InJoint c" "Voters c \<noteq> {||}"
      "c' = \<lparr>Voters = finsert (cc_NodeId cc) (Voters c), Joint = Voters c\<rparr>"
  | (remove) "cc_Type cc = CONF_CHANGE_REMOVE_NODE" "\<not> InJoint c" "cc_NodeId cc |\<in>| Voters c"
      "fcard (Voters c) > 1"
      "c' = \<lparr>Voters = Voters c |-| {|cc_NodeId cc|}, Joint = Voters c\<rparr>"
  | (leave) "cc_Type cc = CONF_CHANGE_LEAVE_JOINT" "InJoint c" "c' = c\<lparr>Joint := {||}\<rparr>"
  using assms by (auto simp: ApplyConfChange_def Contains_def split: if_splits)

lemma ApplyConfChange_wf:
  assumes "conf_wf c" "ApplyConfChange c cc = Inr c'"
  shows "conf_wf c'"
  using assms(2)
proof (cases rule: ApplyConfChange_cases)
  case add
  then show ?thesis unfolding conf_wf_def by (intro conjI impI exI [of _ "cc_NodeId cc"]) simp_all
next
  case remove
  have "Voters c |-| {|cc_NodeId cc|} \<noteq> {||}"
  proof
    assume "Voters c |-| {|cc_NodeId cc|} = {||}"
    then have "Voters c |\<subseteq>| {|cc_NodeId cc|}" by auto
    then have "fcard (Voters c) \<le> fcard {|cc_NodeId cc|}" by (rule fcard_mono)
    with remove(4) show False by (simp add: fcard.rep_eq)
  qed
  with remove(5) show ?thesis
    unfolding conf_wf_def by (intro conjI impI exI [of _ "cc_NodeId cc"]) simp_all
next
  case leave
  with assms(1) show ?thesis by (simp add: conf_wf_def)
qed

subsection \<open>Encoding\<close>

lemma length_concat_PutUint64 [simp, wire]: "length (concat (map PutUint64 ids)) = length ids * 8"
  by (induction ids) simp_all

lemma read_ids_PutUint64 [wire]:
  "n = length ids \<Longrightarrow> read_ids n (concat (map PutUint64 ids) @ r) = ids"
  by (induction ids arbitrary: n) (simp_all add: PutUint64_def get_put_le)

lemma read_ids_PutUint64_only [wire]:
  "n = length ids \<Longrightarrow> read_ids n (concat (map PutUint64 ids)) = ids"
  using read_ids_PutUint64 [of n ids "[]"] by simp

lemma get_le_PutUint32 [simp, wire]: "get_le (PutUint32 w) = w"
  by (simp add: PutUint32_def get_put_le)

lemma decode_encode_ConfState:
  assumes "fcard (Voters c) < 2 ^ 32" "fcard (Joint c) < 2 ^ 32"
  shows "decodeConfState (encodeConfState c) = Inr c"
proof -
  let ?v = "VoterIDs c" and ?j = "JointIDs c"
  have n: "unat (word_of_nat (length ?v) :: u32) = length ?v"
       "unat (word_of_nat (length ?j) :: u32) = length ?j"
    using assms by (simp_all add: unat_of_nat_u32 VoterIDs_def JointIDs_def)
  show ?thesis
    unfolding decodeConfState_def encodeConfState_def Let_def
    using n by (simp add: read_ids_PutUint64 read_ids_PutUint64_only VoterIDs_def JointIDs_def)
qed

lemma adjacent_quorums:
  assumes "ApplyConfChange c cc = Inr c'" "is_quorum c Q" "is_quorum c' R"
  shows "Q \<inter> R \<noteq> {}"
  using assms(1)
proof (cases rule: ApplyConfChange_cases)
  case leave
  then have "is_quorum c' Q" using assms(2) by (simp add: is_quorum_def)
  then show ?thesis using conf.quorums_meet assms(3) by blast
next
  case add
  then have "is_quorum c R" using assms(3) by (simp add: is_quorum_def)
  then show ?thesis using conf.quorums_meet assms(2) by blast
next
  case remove
  then have "is_quorum c R" using assms(3) by (auto simp: is_quorum_def)
  then show ?thesis using conf.quorums_meet assms(2) by blast
qed

section \<open>Properties\<close>

text \<open>C4: \<open>MaxCommitIndex\<close> returns the greatest index that the required majorities have
  replicated: the largest index whose set of up-to-date servers is a quorum of the
  configuration (of both voter sets during a transition), and 0 when there is none.\<close>

theorem max_commit_index_greatest:
  "MaxCommitIndex c m = Max (insert 0 {idx. is_quorum c {i. idx \<le> mget m i}})"
proof (rule Max_eqI [symmetric])
  show "finite (insert 0 {idx. is_quorum c {i. idx \<le> mget m i}})" by simp
  show "y \<le> MaxCommitIndex c m" if "y \<in> insert 0 {idx. is_quorum c {i. idx \<le> mget m i}}" for y
    using that MaxCommitIndex_greatest [of c y m] by (auto simp: canCommit_is_quorum matched_def)
  show "MaxCommitIndex c m \<in> insert 0 {idx. is_quorum c {i. idx \<le> mget m i}}"
    using MaxCommitIndex_canCommit [of c m] by (auto simp: canCommit_is_quorum matched_def)
qed

text \<open>C5: elections and commits overlap during a membership change.  In a well-formed
  configuration, joint or not, the servers whose votes satisfy \<open>HasVoteQuorum\<close> include a member
  of every quorum that could have committed an entry, and of every other set of voters that
  could have won an election.\<close>

theorem election_meets_commit:
  assumes "conf_wf c" "S \<subseteq> set (AllPeerIDs c)" "HasVoteQuorum c (card S)"
  shows "(is_quorum c Q \<longrightarrow> S \<inter> Q \<noteq> {}) \<and>
    (T \<subseteq> set (AllPeerIDs c) \<and> HasVoteQuorum c (card T) \<longrightarrow> S \<inter> T \<noteq> {})"
  using vote_quorum_meets_majority [OF assms] vote_quorums_meet [OF assms] by blast

theorem election_meets_commit_witness:
  "{1, 3} \<inter> {1, 2 :: u64} \<noteq> {} \<and> {1, 3} \<inter> {2, 3 :: u64} \<noteq> {}"
proof -
  let ?c = "\<lparr>Voters = {|1, 2|}, Joint = {|1, 2, 3|}\<rparr> :: ConfState"
  have wf: "conf_wf ?c"
    unfolding conf_wf_def by (intro conjI impI exI [of _ 3]) auto
  have S: "S \<subseteq> set (AllPeerIDs ?c) \<and> HasVoteQuorum ?c (card S)"
    if "S = {1, 3} \<or> S = {2, 3}" for S
    using that by (auto simp: AllPeerIDs_def HasVoteQuorum_def majority_def fcard.rep_eq)
  have Q: "is_quorum ?c {1, 2}" by (simp add: is_quorum_def majority_def fcard.rep_eq)
  show ?thesis
    using election_meets_commit [OF wf, of "{1, 3}" "{1, 2}" "{2, 3}"] S Q by blast
qed

text \<open>C6: consecutive configurations overlap.  Whatever configuration change is applied, every
  quorum of the old configuration shares a server with every quorum of the new one, and a
  well-formed membership stays well formed.\<close>

theorem conf_change_quorums_overlap:
  assumes "ApplyConfChange c cc = Inr c'"
  shows "(is_quorum c Q \<and> is_quorum c' R \<longrightarrow> Q \<inter> R \<noteq> {}) \<and> (conf_wf c \<longrightarrow> conf_wf c')"
  using adjacent_quorums [OF assms] ApplyConfChange_wf [OF _ assms] by blast

theorem conf_change_quorums_overlap_witness:
  "{1, 2} \<inter> {2, 3 :: u64} \<noteq> {} \<and> conf_wf \<lparr>Voters = {|1, 2, 3, 4|}, Joint = {|1, 2, 3|}\<rparr>"
proof -
  let ?c = "NewConfState [1, 2, 3]"
  let ?c' = "\<lparr>Voters = {|1, 2, 3, 4|}, Joint = {|1, 2, 3|}\<rparr> :: ConfState"
  have 1: "ApplyConfChange ?c \<lparr>cc_Type = CONF_CHANGE_ADD_NODE, cc_NodeId = 4, cc_Context = []\<rparr>
      = Inr ?c'"
    by (auto simp: ApplyConfChange_def NewConfState_def)
  have "is_quorum ?c {1, 2}" "is_quorum ?c' {2, 3, 4}" "conf_wf ?c"
    by (simp_all add: is_quorum_def majority_def fcard.rep_eq NewConfState_def conf_wf_def)
  then show ?thesis
    using conf_change_quorums_overlap [OF 1, of "{1, 2}" "{2, 3, 4}"] by blast
qed


text \<open>C7: the persisted membership reads back: \<open>decodeConfState\<close> inverts \<open>encodeConfState\<close> on
  every configuration whose sets fit the 32-bit counts.\<close>

theorem conf_state_roundtrip:
  assumes "fcard (Voters c) < 2 ^ 32" "fcard (Joint c) < 2 ^ 32"
  shows "decodeConfState (encodeConfState c) = Inr c"
  using assms by (rule decode_encode_ConfState)

theorem conf_state_roundtrip_witness:
  "decodeConfState (encodeConfState \<lparr>Voters = {|1, 2|}, Joint = {|1, 2, 3|}\<rparr>)
     = Inr \<lparr>Voters = {|1, 2|}, Joint = {|1, 2, 3|}\<rparr>"
  by (rule conf_state_roundtrip) (simp_all add: fcard.rep_eq)

end
