(* ===== verification/RaftStorage.thy ===== *)
theory RaftStorage
  imports Wal ConfState
begin

text \<open>
  Persistent Raft state: \<open>raft/storage.go\<close>.  The in-memory copy of term, vote, membership, log
  and snapshot, the write-ahead log that persists it, the snapshot files, and recovery.  The
  protobuf codec of log entries is a parameter.
\<close>

section \<open>Definitions\<close>

subsection \<open>State\<close>

text \<open>\<open>proto.Marshal\<close> and \<open>proto.Unmarshal\<close> on \<open>raftpb.Entry\<close>; \<open>None\<close> is the error result.\<close>

record codec =
  marshal :: "Entry \<Rightarrow> bytes option"
  unmarshal :: "bytes \<Rightarrow> Entry option"

text \<open>The files of a node's Raft directory: \<open>raft.wal\<close>, \<open>snapshot.meta\<close>, \<open>snapshot.bin\<close>,
  \<open>snapshot.conf\<close>.\<close>

record raftdir =
  d_wal :: wfile
  d_meta :: wfile
  d_bin :: wfile
  d_conf :: wfile

text \<open>The pointer \<open>wal\<close> is nil before recovery has opened the log and after a failed reopen; a
  call through it then panics.\<close>

record diskStorage =
  ds_wal :: "WAL option"
  ds_meta :: wfile
  ds_bin :: wfile
  ds_confFile :: wfile
  ds_term :: u64
  ds_votedFor :: u64
  ds_dirty :: bool
  ds_conf :: ConfState
  ds_log :: "Entry list"
  ds_snapIndex :: u64
  ds_snapTerm :: u64
  ds_snapshot :: bytes

datatype store_err =
    SErrIO | SErrSnapshotBin | SErrEmptyRecord | SErrConf conf_err | SErrUnknownRecord byte
  | SPanic

abbreviation recHardState :: byte where "recHardState \<equiv> 1"
abbreviation recAppend :: byte where "recAppend \<equiv> 2"
abbreviation recTruncate :: byte where "recTruncate \<equiv> 3"
abbreviation recConfState :: byte where "recConfState \<equiv> 4"

subsection \<open>Entries\<close>

definition encodeEntry :: "codec \<Rightarrow> Entry \<Rightarrow> bytes option" where
  "encodeEntry pb e =
     (case marshal pb e of None \<Rightarrow> None
      | Some body \<Rightarrow> Some (recAppend # PutUint64 (e_Term e) @ PutUint64 (e_Index e) @ body))"

definition zero_entry :: Entry where
  "zero_entry = \<lparr>e_Term = 0, e_Index = 0, e_Data = [], e_Type = 0, e_ConfChange = None\<rparr>"

definition decodeEntry :: "codec \<Rightarrow> bytes \<Rightarrow> Entry" where
  "decodeEntry pb p =
     (if length p < 16 then zero_entry
      else let t = get_le (take 8 p); i = get_le (take 8 (drop 8 p)); body = drop 16 p in
        case unmarshal pb body of
          None \<Rightarrow> zero_entry\<lparr>e_Term := t, e_Index := i, e_Data := body\<rparr>
        | Some e \<Rightarrow> e\<lparr>e_Term := t, e_Index := i\<rparr>)"

text \<open>The loop that drops log entries from \<open>from\<close> on, last one first.\<close>

definition truncate_from :: "u64 \<Rightarrow> Entry list \<Rightarrow> Entry list" where
  "truncate_from from log = rev (dropWhile (\<lambda>e. e_Index e \<ge> from) (rev log))"

subsection \<open>Recovery\<close>

definition load_snapshot :: "raftdir \<Rightarrow> u64 list \<Rightarrow> store_err + diskStorage" where
  "load_snapshot d bootstrap =
     (let s = \<lparr>ds_wal = None, ds_meta = d_meta d, ds_bin = d_bin d, ds_confFile = d_conf d,
               ds_term = 0, ds_votedFor = 0, ds_dirty = False, ds_conf = NewConfState bootstrap,
               ds_log = [], ds_snapIndex = 0, ds_snapTerm = 0, ds_snapshot = []\<rparr> in
      case d_meta d of
        File meta \<Rightarrow>
          if length meta < 16 then Inr s
          else let s1 = s\<lparr>ds_snapIndex := get_le (take 8 meta),
                          ds_snapTerm := get_le (take 8 (drop 8 meta))\<rparr> in
            (case d_bin d of
               File bin \<Rightarrow>
                 let s2 = s1\<lparr>ds_snapshot := bin\<rparr> in
                 (case d_conf d of
                    File confData \<Rightarrow>
                      (case decodeConfState confData of
                         Inr cs \<Rightarrow> Inr (if fcard (Voters cs) > 0 then s2\<lparr>ds_conf := cs\<rparr> else s2)
                       | Inl _ \<Rightarrow> Inr s2)
                  | _ \<Rightarrow> Inr s2)
             | _ \<Rightarrow> Inl SErrSnapshotBin)
      | _ \<Rightarrow> Inr s)"

definition replay_record :: "codec \<Rightarrow> diskStorage \<Rightarrow> bytes \<Rightarrow> store_err + diskStorage" where
  "replay_record pb s p =
     (case p of [] \<Rightarrow> Inl SErrEmptyRecord
      | t # _ \<Rightarrow>
        if t = recHardState then
          (case (do { a \<leftarrow> slice p 1 9; x \<leftarrow> Uint64 a; b \<leftarrow> slice p 9 17; y \<leftarrow> Uint64 b;
                      Some (x, y) }) of
             None \<Rightarrow> Inl SPanic
           | Some (x, y) \<Rightarrow> Inr (s\<lparr>ds_term := x, ds_votedFor := y\<rparr>))
        else if t = recAppend then
          let e = decodeEntry pb (drop 1 p) in
          Inr (if e_Index e > ds_snapIndex s then s\<lparr>ds_log := ds_log s @ [e]\<rparr> else s)
        else if t = recTruncate then
          (case (do { a \<leftarrow> slice p 1 9; Uint64 a }) of
             None \<Rightarrow> Inl SPanic
           | Some from \<Rightarrow> Inr (s\<lparr>ds_log := truncate_from from (ds_log s)\<rparr>))
        else if t = recConfState then
          (case decodeConfState (drop 1 p) of
             Inl err \<Rightarrow> Inl (SErrConf err)
           | Inr cs \<Rightarrow> Inr (if fcard (Voters cs) > 0 then s\<lparr>ds_conf := cs\<rparr> else s))
        else Inl (SErrUnknownRecord t))"

definition openDiskStorage ::
  "codec \<Rightarrow> bool list \<Rightarrow> raftdir \<Rightarrow> u64 list \<Rightarrow> store_err + diskStorage" where
  "openDiskStorage pb io d bootstrap =
     (let (ok, io') = io_next io in
      if \<not> ok then Inl SErrIO
      else case load_snapshot d bootstrap of
        Inl e \<Rightarrow> Inl e
      | Inr s \<Rightarrow>
          (case ReplayWAL (replay_record pb) s (d_wal d) of
             Inl OpenErr \<Rightarrow> Inl SErrIO
           | Inl (ReplayErr e) \<Rightarrow> Inl e
           | Inr s' \<Rightarrow>
               (case OpenWAL io' (d_wal d) of
                  Inl _ \<Rightarrow> Inl SErrIO
                | Inr w \<Rightarrow> Inr (s'\<lparr>ds_wal := Some w\<rparr>))))"

subsection \<open>Log access\<close>

definition firstIndex :: "diskStorage \<Rightarrow> u64" where
  "firstIndex s = ds_snapIndex s + 1"

definition lastIndex :: "diskStorage \<Rightarrow> u64" where
  "lastIndex s = (if ds_log s \<noteq> [] then e_Index (last (ds_log s)) else ds_snapIndex s)"

text \<open>\<open>None\<close> is the panic of an index outside the slice.\<close>

definition termAt :: "diskStorage \<Rightarrow> u64 \<Rightarrow> (u64 \<times> bool) option" where
  "termAt s index =
     (if index = ds_snapIndex s then Some (ds_snapTerm s, True)
      else if index < firstIndex s \<or> index > lastIndex s then Some (0, False)
      else let k = unat (index - firstIndex s) in
        if k < length (ds_log s) then Some (e_Term (ds_log s ! k), True) else None)"

definition entriesFrom :: "diskStorage \<Rightarrow> u64 \<Rightarrow> Entry list option" where
  "entriesFrom s lo =
     (if lo < firstIndex s \<or> lo > lastIndex s then Some []
      else let k = unat (lo - firstIndex s) in
        if k \<le> length (ds_log s) then Some (drop k (ds_log s)) else None)"

definition entryAt :: "diskStorage \<Rightarrow> u64 \<Rightarrow> Entry option" where
  "entryAt s index =
     (let k = unat (index - firstIndex s) in
      if k < length (ds_log s) then Some (ds_log s ! k) else None)"

subsection \<open>Updates\<close>

definition wal_Append :: "diskStorage \<Rightarrow> bytes \<Rightarrow> (diskStorage \<times> ioerr option) option" where
  "wal_Append s rec =
     (case ds_wal s of None \<Rightarrow> None
      | Some w \<Rightarrow> (let (w', e) = Append w rec in Some (s\<lparr>ds_wal := Some w'\<rparr>, e)))"

definition wal_Sync :: "diskStorage \<Rightarrow> (diskStorage \<times> ioerr option) option" where
  "wal_Sync s =
     (case ds_wal s of None \<Rightarrow> None
      | Some w \<Rightarrow> (let (w', e) = Sync w in Some (s\<lparr>ds_wal := Some w'\<rparr>, e)))"

definition confRecord :: "ConfState \<Rightarrow> bytes" where
  "confRecord c = recConfState # encodeConfState c"

definition hardRecord :: "u64 \<Rightarrow> u64 \<Rightarrow> bytes" where
  "hardRecord t v = recHardState # PutUint64 t @ PutUint64 v"

definition truncRecord :: "u64 \<Rightarrow> bytes" where
  "truncRecord first = recTruncate # PutUint64 first"

definition setConfState :: "diskStorage \<Rightarrow> ConfState \<Rightarrow> (diskStorage \<times> ioerr option) option" where
  "setConfState s c = try_then (wal_Append (s\<lparr>ds_conf := c\<rparr>) (confRecord c)) wal_Sync"

definition setHardState ::
  "diskStorage \<Rightarrow> u64 \<Rightarrow> u64 \<Rightarrow> (diskStorage \<times> ioerr option) option" where
  "setHardState s t v =
     try_then (wal_Append (s\<lparr>ds_term := t, ds_votedFor := v\<rparr>) (hardRecord t v)) wal_Sync"

fun append_loop :: "codec \<Rightarrow> diskStorage \<Rightarrow> Entry list \<Rightarrow> (diskStorage \<times> ioerr option) option" where
  "append_loop pb s [] = Some (s, None)"
| "append_loop pb s (e # es) =
     (case encodeEntry pb e of None \<Rightarrow> None
      | Some rec \<Rightarrow>
          try_then (wal_Append s rec)
            (\<lambda>s1. append_loop pb (s1\<lparr>ds_log := ds_log s1 @ [e]\<rparr>) es))"

definition truncate_conflict :: "diskStorage \<Rightarrow> u64 \<Rightarrow> (diskStorage \<times> ioerr option) option" where
  "truncate_conflict s first =
     (if ds_log s \<noteq> [] \<and> e_Index (last (ds_log s)) \<ge> first
      then try_then (wal_Append s (truncRecord first))
             (\<lambda>s1. Some (s1\<lparr>ds_log := truncate_from first (ds_log s1)\<rparr>, None))
      else Some (s, None))"

definition appendEntries ::
  "codec \<Rightarrow> diskStorage \<Rightarrow> Entry list \<Rightarrow> (diskStorage \<times> ioerr option) option" where
  "appendEntries pb s entries =
     (case entries of [] \<Rightarrow> Some (s, None)
      | e0 # _ \<Rightarrow>
          try_then (truncate_conflict s (e_Index e0))
            (\<lambda>s1. try_then (append_loop pb s1 entries)
              (\<lambda>s2. Some (s2\<lparr>ds_dirty := True\<rparr>, None))))"

definition sync :: "diskStorage \<Rightarrow> (diskStorage \<times> ioerr option) option" where
  "sync s =
     (if \<not> ds_dirty s then Some (s, None)
      else try_then (wal_Sync s) (\<lambda>s1. Some (s1\<lparr>ds_dirty := False\<rparr>, None)))"

definition store_close :: "diskStorage \<Rightarrow> (diskStorage \<times> ioerr option) option" where
  "store_close s =
     (case ds_wal s of None \<Rightarrow> None
      | Some w \<Rightarrow> (let (w', e) = Close w in Some (s\<lparr>ds_wal := Some w'\<rparr>, e)))"

subsection \<open>Snapshots\<close>

text \<open>\<open>atomicWrite\<close>: create the temporary file, write, fsync, close, rename.  The target
  changes only when all five calls succeed.  The outcomes are the ones scripted for the
  storage, which its log handle carries.\<close>

definition atomicWrite :: "bool list \<Rightarrow> wfile \<Rightarrow> bytes \<Rightarrow> bool list \<times> wfile \<times> ioerr option" where
  "atomicWrite io old data =
     (let (ok, io') = io_seq 5 io in
      if ok then (io', File data, None) else (io', old, Some ErrIO))"

definition ds_io :: "diskStorage \<Rightarrow> bool list" where
  "ds_io s = (case ds_wal s of None \<Rightarrow> [] | Some w \<Rightarrow> w_io w)"

definition set_io :: "diskStorage \<Rightarrow> bool list \<Rightarrow> diskStorage" where
  "set_io s io = s\<lparr>ds_wal := map_option (\<lambda>w. w\<lparr>w_io := io\<rparr>) (ds_wal s)\<rparr>"

definition write_bin :: "diskStorage \<Rightarrow> bytes \<Rightarrow> (diskStorage \<times> ioerr option) option" where
  "write_bin s data =
     (let (io, f, e) = atomicWrite (ds_io s) (ds_bin s) data in
      Some ((set_io s io)\<lparr>ds_bin := f\<rparr>, e))"

definition write_meta :: "diskStorage \<Rightarrow> u64 \<Rightarrow> u64 \<Rightarrow> (diskStorage \<times> ioerr option) option" where
  "write_meta s index t =
     (let (io, f, e) = atomicWrite (ds_io s) (ds_meta s) (PutUint64 index @ PutUint64 t) in
      Some ((set_io s io)\<lparr>ds_meta := f\<rparr>, e))"

definition write_conf :: "diskStorage \<Rightarrow> ConfState \<Rightarrow> (diskStorage \<times> ioerr option) option" where
  "write_conf s c =
     (let (io, f, e) = atomicWrite (ds_io s) (ds_confFile s) (encodeConfState c) in
      Some ((set_io s io)\<lparr>ds_confFile := f\<rparr>, e))"

text \<open>The entries kept go to the new log file one by one.\<close>

fun rewrite_entries :: "codec \<Rightarrow> WAL \<Rightarrow> Entry list \<Rightarrow> (WAL \<times> ioerr option) option" where
  "rewrite_entries pb w [] = Some (w, None)"
| "rewrite_entries pb w (e # es) =
     (case encodeEntry pb e of None \<Rightarrow> None
      | Some rec \<Rightarrow> try_then (Some (Append w rec)) (\<lambda>w. rewrite_entries pb w es))"

text \<open>Close the new log, close the old one, rename, reopen.\<close>

definition swap_wal :: "diskStorage \<Rightarrow> WAL \<Rightarrow> (diskStorage \<times> ioerr option) option" where
  "swap_wal s nw =
     (case Close nw of
        (nw', Some e) \<Rightarrow> Some (set_io s (w_io nw'), Some e)
      | (nw', None) \<Rightarrow>
          try_then (store_close (set_io s (w_io nw'))) (\<lambda>s.
            let (ok, io) = io_next (ds_io s); s = set_io s io in
            if \<not> ok then Some (s, Some ErrIO)
            else case OpenWAL io (File (w_disk nw')) of
                   Inl e \<Rightarrow> Some (s\<lparr>ds_wal := None, ds_dirty := False\<rparr>, Some e)
                 | Inr w \<Rightarrow> Some (s\<lparr>ds_wal := Some w, ds_dirty := False\<rparr>, None)))"

definition rewrite_wal :: "codec \<Rightarrow> diskStorage \<Rightarrow> (diskStorage \<times> ioerr option) option" where
  "rewrite_wal pb s =
     (let io = ds_io s in
      case OpenWAL io NoFile of
        Inl e \<Rightarrow> Some (set_io s (snd (io_seq 2 io)), Some e)
      | Inr nw \<Rightarrow>
          (case try_then (Some (Append nw (hardRecord (ds_term s) (ds_votedFor s)))) (\<lambda>nw.
                try_then (Some (Append nw (confRecord (ds_conf s)))) (\<lambda>nw.
                rewrite_entries pb nw (ds_log s))) of
             None \<Rightarrow> None
           | Some (nw', Some e) \<Rightarrow> Some (set_io s (w_io nw'), Some e)
           | Some (nw', None) \<Rightarrow> swap_wal s nw'))"

definition saveSnapshot ::
  "codec \<Rightarrow> diskStorage \<Rightarrow> u64 \<Rightarrow> u64 \<Rightarrow> bytes \<Rightarrow> ConfState \<Rightarrow>
     (diskStorage \<times> ioerr option) option" where
  "saveSnapshot pb s index t data conf =
     (if index \<le> ds_snapIndex s then Some (s, None)
      else try_then (write_bin s data) (\<lambda>s.
           try_then (write_meta s index t) (\<lambda>s.
           try_then (write_conf s conf) (\<lambda>s.
             rewrite_wal pb
               (s\<lparr>ds_log := filter (\<lambda>e. e_Index e > index) (ds_log s),
                  ds_snapIndex := index, ds_snapTerm := t, ds_snapshot := data,
                  ds_conf := conf\<rparr>)))))"

subsection \<open>Specification\<close>

text \<open>The logical part of the state: what recovery has to bring back.\<close>

definition same_state :: "diskStorage \<Rightarrow> diskStorage \<Rightarrow> bool" where
  "same_state s r \<longleftrightarrow> ds_term s = ds_term r \<and> ds_votedFor s = ds_votedFor r
     \<and> ds_conf s = ds_conf r \<and> ds_log s = ds_log r \<and> ds_snapIndex s = ds_snapIndex r
     \<and> ds_snapTerm s = ds_snapTerm r \<and> ds_snapshot s = ds_snapshot r"

text \<open>The directory a crash leaves behind.\<close>

definition crash_dir :: "diskStorage \<Rightarrow> nat \<Rightarrow> raftdir" where
  "crash_dir s n =
     \<lparr>d_wal = (case ds_wal s of None \<Rightarrow> Unreadable | Some w \<Rightarrow> File (crash w n)),
      d_meta = ds_meta s, d_bin = ds_bin s, d_conf = ds_confFile s\<rparr>"

text \<open>The codec inverts itself and never fails on an entry.\<close>

definition codec_ok :: "codec \<Rightarrow> bool" where
  "codec_ok pb \<longleftrightarrow> (\<forall>e. \<exists>b. marshal pb e = Some b \<and> unmarshal pb b = Some e)"

text \<open>What the 32-bit length fields can hold.\<close>

definition conf_fits :: "ConfState \<Rightarrow> bool" where
  "conf_fits c \<longleftrightarrow> Voters c \<noteq> {||} \<and> fcard (Voters c) < 2 ^ 32 \<and> fcard (Joint c) < 2 ^ 32
     \<and> fits (confRecord c)"

definition entry_fits :: "codec \<Rightarrow> Entry \<Rightarrow> bool" where
  "entry_fits pb e \<longleftrightarrow> (\<exists>r. encodeEntry pb e = Some r \<and> fits r)"

text \<open>
  The storage invariant: the log file holds the durable records \<open>ds\<close> and the pending ones
  \<open>ps\<close>, and, as long as no write has failed, replaying them over the snapshot files gives the
  in-memory state.
\<close>

definition replays ::
  "codec \<Rightarrow> u64 list \<Rightarrow> diskStorage \<Rightarrow> bytes list \<Rightarrow> diskStorage \<Rightarrow> bool" where
  "replays pb boot s rs r \<longleftrightarrow>
     (\<exists>b. load_snapshot (crash_dir s 0) boot = Inr b
        \<and> run_records (replay_record pb) b rs = Inr r)"

definition store_inv ::
  "codec \<Rightarrow> u64 list \<Rightarrow> diskStorage \<Rightarrow> bytes list \<Rightarrow> bytes list \<Rightarrow> bool" where
  "store_inv pb boot s ds ps \<longleftrightarrow>
     (\<exists>w. ds_wal s = Some w \<and> holds w ds ps \<and>
        (\<not> w_err w \<longrightarrow> (\<exists>r. replays pb boot s (ds @ ps) r \<and> same_state s r)))"

text \<open>
  Runs of the storage: it is opened on a directory with an intact log file, performs operations
  with any outcomes of the file-system calls, and may be restarted after a crash that tore no
  record.  A failed \<open>saveSnapshot\<close> ends the run: it can leave files of two snapshots behind.
\<close>

datatype store_op =
    StHard u64 u64 | StConf ConfState | StAppend "Entry list" | StSync
  | StSnapshot u64 u64 bytes ConfState

fun store_step :: "codec \<Rightarrow> diskStorage \<Rightarrow> store_op \<Rightarrow> (diskStorage \<times> ioerr option) option" where
  "store_step pb s (StHard t v) = setHardState s t v"
| "store_step pb s (StConf c) = setConfState s c"
| "store_step pb s (StAppend es) = appendEntries pb s es"
| "store_step pb s StSync = sync s"
| "store_step pb s (StSnapshot i t data c) = saveSnapshot pb s i t data c"

fun op_ok :: "codec \<Rightarrow> diskStorage \<Rightarrow> store_op \<Rightarrow> bool" where
  "op_ok pb s (StHard t v) = True"
| "op_ok pb s (StConf c) = conf_fits c"
| "op_ok pb s (StAppend es) = (\<forall>x \<in> set es. entry_fits pb x \<and> e_Index x > ds_snapIndex s)"
| "op_ok pb s StSync = True"
| "op_ok pb s (StSnapshot i t data c) =
     (conf_fits c \<and> i > ds_snapIndex s \<and> (\<forall>x \<in> set (ds_log s). entry_fits pb x))"

inductive store_reach :: "codec \<Rightarrow> u64 list \<Rightarrow> diskStorage \<Rightarrow> bool" for pb boot where
  opened: "openDiskStorage pb io d boot = Inr s \<Longrightarrow> d_wal d = NoFile \<or> d_wal d = File [] \<Longrightarrow>
     store_reach pb boot s"
| step: "store_reach pb boot s \<Longrightarrow> op_ok pb s op \<Longrightarrow> store_step pb s op = Some (s', e) \<Longrightarrow>
     (e = None \<or> (\<forall>i t data c. op \<noteq> StSnapshot i t data c)) \<Longrightarrow> store_reach pb boot s'"
| restart: "store_reach pb boot s \<Longrightarrow> d_wal (crash_dir s n) = File (frames rs) \<Longrightarrow>
     (\<forall>p \<in> set rs. fits p) \<Longrightarrow> openDiskStorage pb io (crash_dir s n) boot = Inr s' \<Longrightarrow>
     store_reach pb boot s'"

text \<open>The operations after which the code relies on durability.\<close>

fun durable_op :: "diskStorage \<Rightarrow> store_op \<Rightarrow> bool" where
  "durable_op s (StAppend es) = False"
| "durable_op s StSync = ds_dirty s"
| "durable_op s _ = True"

section \<open>Lemmas\<close>

subsection \<open>Records\<close>

lemma replay_hardRecord [simp]:
  "replay_record pb s (hardRecord t v) = Inr (s\<lparr>ds_term := t, ds_votedFor := v\<rparr>)"
  unfolding replay_record_def hardRecord_def by (simp add: slice_def)

lemma replay_truncRecord [simp]:
  "replay_record pb s (truncRecord from) = Inr (s\<lparr>ds_log := truncate_from from (ds_log s)\<rparr>)"
  unfolding replay_record_def truncRecord_def by (simp add: slice_def)

lemma replay_confRecord:
  "conf_fits c \<Longrightarrow> replay_record pb s (confRecord c) = Inr (s\<lparr>ds_conf := c\<rparr>)"
  unfolding replay_record_def confRecord_def conf_fits_def
  by (simp add: decode_encode_ConfState fcard.rep_eq card_gt_0_iff fset_inject [symmetric])

lemma decode_encodeEntry:
  assumes "codec_ok pb" "encodeEntry pb e = Some r"
  shows "r \<noteq> [] \<and> hd r = recAppend \<and> decodeEntry pb (tl r) = e"
proof -
  obtain b where b: "marshal pb e = Some b" "unmarshal pb b = Some e"
    using assms(1) by (auto simp: codec_ok_def)
  then have r: "r = recAppend # PutUint64 (e_Term e) @ PutUint64 (e_Index e) @ b"
    using assms(2) by (simp add: encodeEntry_def)
  have "get_le (PutUint64 x) = x" for x :: u64 by (simp add: PutUint64_def get_put_le)
  then show ?thesis using r b(2) by (simp add: decodeEntry_def Let_def)
qed

lemma replay_encodeEntry:
  assumes "codec_ok pb" "encodeEntry pb e = Some r"
  shows "replay_record pb s r =
    Inr (if e_Index e > ds_snapIndex s then s\<lparr>ds_log := ds_log s @ [e]\<rparr> else s)"
proof -
  obtain t where "r = recAppend # t" "decodeEntry pb t = e"
    using decode_encodeEntry [OF assms] by (cases r) auto
  then show ?thesis by (simp add: replay_record_def Let_def)
qed

lemma fits_hardRecord [simp]: "fits (hardRecord t v)"
  by (simp add: fits_def hardRecord_def)

lemma fits_truncRecord [simp]: "fits (truncRecord from)"
  by (simp add: fits_def truncRecord_def)

subsection \<open>The invariant and the updates\<close>

lemma load_snapshot_files:
  assumes "d_meta d = d_meta d'" "d_bin d = d_bin d'" "d_conf d = d_conf d'"
  shows "load_snapshot d boot = load_snapshot d' boot"
  unfolding load_snapshot_def assms ..

text \<open>Writing a record whose replay mirrors the change \<open>f\<close> of the in-memory state.\<close>

lemma store_inv_Append:
  assumes inv: "store_inv pb boot s ds ps" and rec: "fits rec"
    and w: "ds_wal s = Some w" "Append w rec = (w', e)"
    and f: "ds_wal s' = Some w'" "ds_meta s' = ds_meta s" "ds_bin s' = ds_bin s"
      "ds_confFile s' = ds_confFile s"
    and mirror: "\<And>r. same_state s r \<Longrightarrow> \<exists>r'. replay_record pb r rec = Inr r' \<and> same_state s' r'"
  shows "store_inv pb boot s' ds (if w_err w then ps else ps @ [rec])"
proof -
  have holds: "holds w ds ps" using inv w(1) by (simp add: store_inv_def)
  have files: "load_snapshot (crash_dir s' 0) boot = load_snapshot (crash_dir s 0) boot"
    using f by (intro load_snapshot_files) (simp_all add: crash_dir_def)
  have "\<exists>r. replays pb boot s' (ds @ (if w_err w then ps else ps @ [rec])) r \<and> same_state s' r"
    if "\<not> w_err w'"
  proof -
    have "\<not> w_err w" using that w(2) Append_sticky by (cases "w_err w") auto
    then obtain r where r: "replays pb boot s (ds @ ps) r" "same_state s r"
      using inv w(1) by (auto simp: store_inv_def)
    obtain r' where r': "replay_record pb r rec = Inr r'" "same_state s' r'"
      using mirror [OF r(2)] by blast
    have "replays pb boot s' ((ds @ ps) @ [rec]) r'"
      using r(1) r'(1) files by (auto simp: replays_def run_records_append [of _ _ "ds @ ps" "[rec]"]
          simp del: append_assoc)
    then show ?thesis using r'(2) \<open>\<not> w_err w\<close> by auto
  qed
  then show ?thesis
    using f(1) holds_Append [OF holds rec w(2)] by (auto simp: store_inv_def)
qed

lemma store_inv_Sync:
  assumes inv: "store_inv pb boot s ds ps" and "wal_Sync s = Some (s', e)"
  shows "if e = None then store_inv pb boot s' (ds @ ps) [] else store_inv pb boot s' ds ps"
proof -
  obtain w where w: "ds_wal s = Some w" using inv by (auto simp: store_inv_def)
  obtain w' where w': "Sync w = (w', e)" "s' = s\<lparr>ds_wal := Some w'\<rparr>"
    using assms(2) w by (auto simp: wal_Sync_def split: prod.splits)
  have err: "\<not> w_err w' \<longrightarrow> \<not> w_err w" using Sync_spec [OF w'(1)] by (auto split: if_splits)
  have "load_snapshot (crash_dir s' 0) boot = load_snapshot (crash_dir s 0) boot"
    using w'(2) by (intro load_snapshot_files) (simp_all add: crash_dir_def)
  then have rep: "replays pb boot s' rs r \<longleftrightarrow> replays pb boot s rs r" for rs r
    by (simp add: replays_def)
  have same: "same_state s' r \<longleftrightarrow> same_state s r" for r
    using w'(2) by (simp add: same_state_def)
  have "holds w ds ps" using inv w by (simp add: store_inv_def)
  from holds_Sync [OF this w'(1)] show ?thesis
    using inv w w' err rep same by (auto simp: store_inv_def split: if_splits)
qed

text \<open>Outcome of a write followed by a sync.\<close>

lemma store_inv_Append_Sync:
  assumes inv: "store_inv pb boot s ds ps" and rec: "fits rec"
    and f: "ds_wal s0 = ds_wal s" "ds_meta s0 = ds_meta s" "ds_bin s0 = ds_bin s"
      "ds_confFile s0 = ds_confFile s"
    and mirror: "\<And>r. same_state s r \<Longrightarrow> \<exists>r'. replay_record pb r rec = Inr r' \<and> same_state s0 r'"
    and run: "try_then (wal_Append s0 rec) wal_Sync = Some (s', e)"
  shows "if e = None then store_inv pb boot s' (ds @ ps @ [rec]) []
         else \<exists>ps'. store_inv pb boot s' ds ps' \<and> (ps' = ps \<or> ps' = ps @ [rec])"
proof -
  obtain w where w: "ds_wal s = Some w" using inv by (auto simp: store_inv_def)
  obtain w1 e1 where w1: "Append w rec = (w1, e1)" by fastforce
  let ?s1 = "s0\<lparr>ds_wal := Some w1\<rparr>"
  have "store_inv pb boot ?s1 ds (if w_err w then ps else ps @ [rec])"
    by (rule store_inv_Append [OF inv rec w w1]) (use f mirror in \<open>auto simp: same_state_def\<close>)
  then have inv1: "store_inv pb boot ?s1 ds (if w_err w then ps else ps @ [rec])" .
  have app: "wal_Append s0 rec = Some (?s1, e1)" using f(1) w w1 by (simp add: wal_Append_def)
  show ?thesis
  proof (cases e1)
    case None
    then have "\<not> w_err w" using w1 Append_None_no_err by blast
    moreover have "wal_Sync ?s1 = Some (s', e)" using run app None by simp
    ultimately show ?thesis using store_inv_Sync [OF inv1] by (auto split: if_splits)
  next
    case (Some e2)
    then show ?thesis using run app inv1 by (auto split: if_splits)
  qed
qed

lemma store_inv_dirty [simp]:
  "store_inv pb boot (s\<lparr>ds_dirty := b\<rparr>) ds ps = store_inv pb boot s ds ps"
  by (simp add: store_inv_def replays_def same_state_def crash_dir_def)

lemma setHardState_inv:
  assumes "store_inv pb boot s ds ps" "setHardState s t v = Some (s', e)"
  shows "if e = None then store_inv pb boot s' (ds @ ps @ [hardRecord t v]) []
         else \<exists>ps'. store_inv pb boot s' ds ps'"
proof -
  have "if e = None then store_inv pb boot s' (ds @ ps @ [hardRecord t v]) []
    else \<exists>ps'. store_inv pb boot s' ds ps' \<and> (ps' = ps \<or> ps' = ps @ [hardRecord t v])"
    using assms(2) unfolding setHardState_def
    by (intro store_inv_Append_Sync [OF assms(1)]) (auto simp: same_state_def)
  then show ?thesis by (auto split: if_splits)
qed

lemma setConfState_inv:
  assumes "store_inv pb boot s ds ps" "setConfState s c = Some (s', e)" "conf_fits c"
  shows "if e = None then store_inv pb boot s' (ds @ ps @ [confRecord c]) []
         else \<exists>ps'. store_inv pb boot s' ds ps'"
proof -
  have "if e = None then store_inv pb boot s' (ds @ ps @ [confRecord c]) []
    else \<exists>ps'. store_inv pb boot s' ds ps' \<and> (ps' = ps \<or> ps' = ps @ [confRecord c])"
    using assms(2,3) unfolding setConfState_def
    by (intro store_inv_Append_Sync [OF assms(1)])
      (auto simp: same_state_def replay_confRecord conf_fits_def)
  then show ?thesis by (auto split: if_splits)
qed

lemma wal_Append_SomeD:
  assumes "wal_Append s rec = Some (s', e)"
  obtains w w' where "ds_wal s = Some w" "Append w rec = (w', e)" "s' = s\<lparr>ds_wal := Some w'\<rparr>"
  using assms by (auto simp: wal_Append_def split: option.splits prod.splits)

lemma store_inv_Append_failed:
  assumes inv: "store_inv pb boot s ds ps" and rec: "fits rec"
    and w: "ds_wal s = Some w" "Append w rec = (w', Some e)"
  shows "store_inv pb boot (s\<lparr>ds_wal := Some w'\<rparr>) ds (if w_err w then ps else ps @ [rec])"
proof -
  have "w_err w'"
    using w(2) Append_spec [OF w(2)] Append_sticky [of w rec] by (cases "w_err w") auto
  then show ?thesis
    using inv w holds_Append [OF _ rec w(2)] by (auto simp: store_inv_def)
qed

lemma append_loop_inv:
  assumes "store_inv pb boot s ds ps" "codec_ok pb" "append_loop pb s es = Some (s', e)"
    and "\<forall>x \<in> set es. entry_fits pb x \<and> e_Index x > ds_snapIndex s"
  shows "\<exists>ps'. store_inv pb boot s' ds ps'"
  using assms
proof (induction es arbitrary: s ps)
  case Nil
  then show ?case by auto
next
  case (Cons x es)
  obtain rec where rec: "encodeEntry pb x = Some rec" "fits rec"
    using Cons.prems(4) by (auto simp: entry_fits_def)
  obtain s1 e1 where s1: "wal_Append s rec = Some (s1, e1)"
    using Cons.prems(3) rec by (cases "wal_Append s rec") auto
  obtain w w' where w: "ds_wal s = Some w" "Append w rec = (w', e1)" "s1 = s\<lparr>ds_wal := Some w'\<rparr>"
    using wal_Append_SomeD [OF s1] .
  let ?s2 = "s1\<lparr>ds_log := ds_log s1 @ [x]\<rparr>"
  show ?case
  proof (cases e1)
    case None
    have "store_inv pb boot ?s2 ds (if w_err w then ps else ps @ [rec])"
      by (rule store_inv_Append [OF Cons.prems(1) rec(2) w(1,2)])
        (use w(3) Cons.prems(4) replay_encodeEntry [OF Cons.prems(2) rec(1)]
          in \<open>auto simp: same_state_def\<close>)
    moreover have "append_loop pb ?s2 es = Some (s', e)" using Cons.prems(3) rec s1 None by simp
    ultimately show ?thesis using Cons.IH [of ?s2] Cons.prems(2,4) w(3) by auto
  next
    case (Some e2)
    then have "s' = s1" using Cons.prems(3) rec s1 by simp
    then show ?thesis
      using store_inv_Append_failed [OF Cons.prems(1) rec(2) w(1)] w(2,3) Some by blast
  qed
qed

lemma truncate_conflict_inv:
  assumes "store_inv pb boot s ds ps" "truncate_conflict s first = Some (s', e)"
  shows "\<exists>ps'. store_inv pb boot s' ds ps'"
proof (cases "ds_log s \<noteq> [] \<and> e_Index (last (ds_log s)) \<ge> first")
  case False
  then show ?thesis using assms unfolding truncate_conflict_def by (auto split: if_splits)
next
  case True
  then obtain s1 e1 where s1: "wal_Append s (truncRecord first) = Some (s1, e1)"
    using assms(2) by (cases "wal_Append s (truncRecord first)") (auto simp: truncate_conflict_def)
  obtain w w' where w: "ds_wal s = Some w" "Append w (truncRecord first) = (w', e1)"
      "s1 = s\<lparr>ds_wal := Some w'\<rparr>"
    using wal_Append_SomeD [OF s1] .
  let ?ps = "if w_err w then ps else ps @ [truncRecord first]"
  show ?thesis
  proof (cases e1)
    case None
    then have "s' = s1\<lparr>ds_log := truncate_from first (ds_log s1)\<rparr>"
      using True assms(2) s1 by (simp add: truncate_conflict_def)
    then have "store_inv pb boot s' ds ?ps"
      by (intro store_inv_Append [OF assms(1) _ w(1,2)]) (use w(3) in \<open>auto simp: same_state_def\<close>)
    then show ?thesis by blast
  next
    case (Some e2)
    then have "s' = s1" using True assms(2) s1 by (simp add: truncate_conflict_def)
    then show ?thesis
      using store_inv_Append_failed [OF assms(1) fits_truncRecord w(1)] w(2,3) Some by blast
  qed
qed

subsection \<open>In-memory effect of the updates\<close>

lemma setHardState_mem:
  "setHardState s t v = Some (s', e) \<Longrightarrow>
   \<exists>w. s' = s\<lparr>ds_term := t, ds_votedFor := v, ds_wal := Some w\<rparr>"
  by (auto simp: setHardState_def try_then_def wal_Append_def wal_Sync_def
      split: option.splits prod.splits)

lemma setConfState_mem:
  "setConfState s c = Some (s', e) \<Longrightarrow> \<exists>w. s' = s\<lparr>ds_conf := c, ds_wal := Some w\<rparr>"
  by (auto simp: setConfState_def try_then_def wal_Append_def wal_Sync_def
      split: option.splits prod.splits)

lemma sync_mem:
  "sync s = Some (s', e) \<Longrightarrow> \<exists>w b. s' = s\<lparr>ds_wal := w, ds_dirty := b\<rparr>"
  by (cases s)
    (auto simp: sync_def try_then_def wal_Sync_def split: option.splits prod.splits if_splits)

lemma append_loop_mem:
  "append_loop pb s es = Some (s', e) \<Longrightarrow>
   \<exists>w k. s' = s\<lparr>ds_wal := w, ds_log := ds_log s @ take k es\<rparr> \<and> (e = None \<longrightarrow> length es \<le> k)"
proof (induction es arbitrary: s)
  case Nil
  then show ?case by (cases s) auto
next
  case (Cons x es)
  obtain rec where rec: "encodeEntry pb x = Some rec" using Cons.prems by (auto split: option.splits)
  obtain s1 e1 where s1: "wal_Append s rec = Some (s1, e1)"
    using Cons.prems rec by (cases "wal_Append s rec") auto
  then obtain w' where w': "s1 = s\<lparr>ds_wal := Some w'\<rparr>" using wal_Append_SomeD by metis
  show ?case
  proof (cases e1)
    case None
    then obtain w k where "s' = s1\<lparr>ds_wal := w, ds_log := ds_log s1 @ x # take k es\<rparr>"
        "e = None \<longrightarrow> length es \<le> k"
      using Cons.IH [of "s1\<lparr>ds_log := ds_log s1 @ [x]\<rparr>"] Cons.prems rec s1 by auto
    then show ?thesis using w' by (intro exI [of _ w] exI [of _ "Suc k"]) simp
  next
    case (Some e2)
    then show ?thesis using Cons.prems rec s1 w' by (intro exI [of _ "Some w'"] exI [of _ 0]) auto
  qed
qed

text \<open>A well-formed log is contiguous: the entries are numbered from \<open>snapIndex + 1\<close> on, and
  the last index does not overflow.\<close>

definition log_wf :: "diskStorage \<Rightarrow> bool" where
  "log_wf s \<longleftrightarrow> unat (ds_snapIndex s) + length (ds_log s) < 2 ^ 64 - 1 \<and>
     (\<forall>k < length (ds_log s). unat (e_Index (ds_log s ! k)) = unat (ds_snapIndex s) + Suc k)"

lemma truncate_from_last:
  "log = [] \<or> e_Index (last log) < from \<Longrightarrow> truncate_from from log = log"
  by (cases log rule: rev_cases) (auto simp: truncate_from_def)

lemma truncate_conflict_mem:
  assumes "truncate_conflict s first = Some (s', e)"
  shows "\<exists>w. s' = (if e = None then s\<lparr>ds_wal := w, ds_log := truncate_from first (ds_log s)\<rparr>
                   else s\<lparr>ds_wal := w\<rparr>)"
proof (cases "ds_log s \<noteq> [] \<and> e_Index (last (ds_log s)) \<ge> first")
  case True
  then show ?thesis
    using assms by (auto simp: truncate_conflict_def try_then_def wal_Append_def
        split: option.splits prod.splits if_splits)
next
  case False
  then have "s' = s \<and> e = None" "truncate_from first (ds_log s) = ds_log s"
    using assms truncate_from_last [of "ds_log s" first]
    unfolding truncate_conflict_def by (auto simp: not_le split: if_splits)
  then show ?thesis by (intro exI [of _ "ds_wal s"]) simp
qed

lemma appendEntries_mem:
  assumes "appendEntries pb s es = Some (s', e)"
  shows "\<exists>w b. if e = None
    then s' = s\<lparr>ds_wal := w, ds_dirty := b, ds_log :=
           (if es = [] then ds_log s else truncate_from (e_Index (hd es)) (ds_log s) @ es)\<rparr>
    else s' = s\<lparr>ds_wal := w\<rparr> \<or>
      (\<exists>k. s' = s\<lparr>ds_wal := w, ds_log := truncate_from (e_Index (hd es)) (ds_log s) @ take k es\<rparr>)"
proof (cases es)
  case Nil
  then show ?thesis using assms by (cases s) (auto simp: appendEntries_def)
next
  case (Cons x xs)
  let ?f = "e_Index x"
  obtain s1 e1 where s1: "truncate_conflict s ?f = Some (s1, e1)"
    using assms Cons by (cases "truncate_conflict s ?f") (auto simp: appendEntries_def)
  obtain w1 where w1: "s1 = (if e1 = None
      then s\<lparr>ds_wal := w1, ds_log := truncate_from ?f (ds_log s)\<rparr> else s\<lparr>ds_wal := w1\<rparr>)"
    using truncate_conflict_mem [OF s1] by blast
  show ?thesis
  proof (cases e1)
    case None
    obtain s2 e2 where s2: "append_loop pb s1 es = Some (s2, e2)"
      using assms Cons s1 None by (cases "append_loop pb s1 es") (auto simp: appendEntries_def)
    obtain w2 k where k: "s2 = s1\<lparr>ds_wal := w2, ds_log := ds_log s1 @ take k es\<rparr>"
        "e2 = None \<longrightarrow> length es \<le> k"
      using append_loop_mem [OF s2] by blast
    have "e = e2 \<and> s' = (if e2 = None then s2\<lparr>ds_dirty := True\<rparr> else s2)"
      using assms Cons s1 None s2 by (cases e2) (auto simp: appendEntries_def)
    then show ?thesis
      using k w1 None Cons by (intro exI [of _ w2] exI [of _ True]) (cases e2; auto)
  next
    case (Some x2)
    then show ?thesis using assms Cons s1 w1 by (auto simp: appendEntries_def)
  qed
qed

lemma appendEntries_inv:
  assumes "store_inv pb boot s ds ps" "codec_ok pb" "appendEntries pb s es = Some (s', e)"
    and "\<forall>x \<in> set es. entry_fits pb x \<and> e_Index x > ds_snapIndex s"
  shows "\<exists>ps'. store_inv pb boot s' ds ps'"
proof (cases es)
  case Nil
  then show ?thesis using assms by (auto simp: appendEntries_def)
next
  case (Cons x xs)
  obtain s1 e1 where s1: "truncate_conflict s (e_Index x) = Some (s1, e1)"
    using assms(3) Cons
    by (cases "truncate_conflict s (e_Index x)") (auto simp: appendEntries_def)
  obtain ps1 where ps1: "store_inv pb boot s1 ds ps1"
    using truncate_conflict_inv [OF assms(1) s1] by blast
  have snap: "ds_snapIndex s1 = ds_snapIndex s"
    using s1 by (auto simp: truncate_conflict_def try_then_def wal_Append_def
        split: option.splits prod.splits if_splits)
  show ?thesis
  proof (cases e1)
    case None
    obtain s2 e2 where s2: "append_loop pb s1 es = Some (s2, e2)"
      using assms(3) Cons s1 None
      by (cases "append_loop pb s1 es") (auto simp: appendEntries_def)
    have "s' = s2 \<or> s' = s2\<lparr>ds_dirty := True\<rparr>"
      using assms(3) Cons s1 None s2 by (cases e2) (auto simp: appendEntries_def)
    then show ?thesis
      using append_loop_inv [OF ps1 assms(2) s2] assms(4) snap by auto
  next
    case (Some x2)
    then have "s' = s1" using assms(3) Cons s1 by (auto simp: appendEntries_def)
    then show ?thesis using ps1 by blast
  qed
qed

lemma sync_inv:
  assumes "store_inv pb boot s ds ps" "sync s = Some (s', None)" "ds_dirty s"
  shows "store_inv pb boot s' (ds @ ps) []"
proof -
  obtain s1 where "wal_Sync s = Some (s1, None)" "s' = s1\<lparr>ds_dirty := False\<rparr>"
    using assms(2,3) by (auto simp: sync_def try_then_ok)
  then show ?thesis using store_inv_Sync [OF assms(1)] by force
qed

subsection \<open>Recovery\<close>

text \<open>When nothing is pending, every crash recovers the in-memory state.\<close>

lemma recover_synced:
  assumes "store_inv pb boot s ds []" "ds_wal s = Some w" "\<not> w_err w"
  shows "\<exists>r. openDiskStorage pb [] (crash_dir s n) boot = Inr r \<and> same_state s r"
proof -
  obtain r where r: "replays pb boot s ds r" "same_state s r"
    using assms by (auto simp: store_inv_def)
  obtain b where b: "load_snapshot (crash_dir s 0) boot = Inr b"
      "run_records (replay_record pb) b ds = Inr r"
    using r(1) by (auto simp: replays_def)
  have "load_snapshot (crash_dir s n) boot = Inr b"
    using b(1) load_snapshot_files [of "crash_dir s n" "crash_dir s 0"] by (simp add: crash_dir_def)
  moreover have "records (crash w n) = ds"
    using wal.image_decodes [of w ds "[]" n] assms(1,2) by (auto simp: store_inv_def)
  ultimately show ?thesis
    using b(2) r(2) assms(2)
    by (auto simp: openDiskStorage_def crash_dir_def ReplayWAL_def replay_records OpenWAL_def
        numeral_2_eq_2 same_state_def Let_def)
qed

subsection \<open>The contiguous log\<close>

lemma unat_lastIndex: "log_wf s \<Longrightarrow> unat (lastIndex s) = unat (ds_snapIndex s) + length (ds_log s)"
  by (auto simp: log_wf_def lastIndex_def last_conv_nth)

lemma unat_firstIndex: "log_wf s \<Longrightarrow> unat (firstIndex s) = Suc (unat (ds_snapIndex s))"
  unfolding log_wf_def firstIndex_def by (simp add: unat_word_ariths)

lemma log_offset:
  assumes "log_wf s" "firstIndex s \<le> i"
  shows "unat (i - firstIndex s) = unat i - Suc (unat (ds_snapIndex s))"
  using assms unat_firstIndex [OF assms(1)] by (simp add: unat_sub)

lemma termAt_wf:
  assumes "log_wf s"
  shows "termAt s i = Some
    (if unat i = unat (ds_snapIndex s) then (ds_snapTerm s, True)
     else if unat (ds_snapIndex s) < unat i \<and> unat i \<le> unat (ds_snapIndex s) + length (ds_log s)
       then (e_Term (ds_log s ! (unat i - Suc (unat (ds_snapIndex s)))), True)
     else (0, False))"
proof (cases "i = ds_snapIndex s \<or> i < firstIndex s \<or> i > lastIndex s")
  case True
  then show ?thesis
    using unat_firstIndex [OF assms] unat_lastIndex [OF assms]
    by (auto simp: termAt_def word_less_nat_alt word_unat_eq_iff)
next
  case False
  then have "firstIndex s \<le> i" by (simp add: not_less)
  from log_offset [OF assms this] False show ?thesis
    using unat_firstIndex [OF assms] unat_lastIndex [OF assms]
    by (auto simp: termAt_def word_less_nat_alt word_unat_eq_iff Let_def)
qed

lemma entryAt_wf:
  assumes "log_wf s" "unat (ds_snapIndex s) < unat i" "unat i \<le> unat (ds_snapIndex s) + length (ds_log s)"
  shows "entryAt s i = Some (ds_log s ! (unat i - Suc (unat (ds_snapIndex s))))"
proof -
  have "firstIndex s \<le> i" using assms unat_firstIndex [OF assms(1)] by (simp add: word_le_nat_alt)
  from log_offset [OF assms(1) this] assms show ?thesis by (auto simp: entryAt_def Let_def)
qed

lemma entriesFrom_wf:
  assumes "log_wf s"
  shows "entriesFrom s lo = Some
    (if unat (ds_snapIndex s) < unat lo then drop (unat lo - Suc (unat (ds_snapIndex s))) (ds_log s)
     else [])"
proof (cases "lo < firstIndex s \<or> lo > lastIndex s")
  case True
  then show ?thesis
    using unat_firstIndex [OF assms] unat_lastIndex [OF assms]
    by (auto simp: entriesFrom_def word_less_nat_alt)
next
  case False
  then have "firstIndex s \<le> lo" by (simp add: not_less)
  from log_offset [OF assms this] False show ?thesis
    using unat_firstIndex [OF assms] unat_lastIndex [OF assms]
    by (auto simp: entriesFrom_def word_less_nat_alt Let_def)
qed

lemma rev_dropWhile_take:
  assumes "\<forall>k < length xs. P (xs ! k) \<longleftrightarrow> n \<le> k"
  shows "rev (dropWhile P (rev xs)) = take n xs"
  using assms
proof (induction xs rule: rev_induct)
  case (snoc x xs)
  have IH: "rev (dropWhile P (rev xs)) = take n xs"
    using snoc.prems by (intro snoc.IH) (metis length_append less_Suc_eq length_append_singleton nth_append)
  have "P x \<longleftrightarrow> n \<le> length xs" using snoc.prems [rule_format, of "length xs"] by simp
  then show ?case using IH by (cases "P x") auto
qed simp

lemma truncate_from_wf:
  assumes "log_wf s"
  shows "truncate_from f (ds_log s) = take (unat f - Suc (unat (ds_snapIndex s))) (ds_log s)"
  unfolding truncate_from_def
  using assms by (intro rev_dropWhile_take) (auto simp: log_wf_def word_le_nat_alt)

text \<open>Appending entries that continue the log, possibly overwriting a suffix, keeps it
  contiguous.\<close>

definition entries_from :: "nat \<Rightarrow> Entry list \<Rightarrow> bool" where
  "entries_from n es \<longleftrightarrow> n + length es < 2 ^ 64 \<and>
     (\<forall>k < length es. unat (e_Index (es ! k)) = n + k)"

lemma log_wf_entries_from:
  "log_wf s \<longleftrightarrow> entries_from (Suc (unat (ds_snapIndex s))) (ds_log s)"
  by (auto simp: log_wf_def entries_from_def)

lemma entries_from_append:
  "entries_from n xs \<Longrightarrow> entries_from (n + length xs) ys \<Longrightarrow> entries_from n (xs @ ys)"
  by (auto simp: entries_from_def nth_append)

lemma entries_from_take: "entries_from n xs \<Longrightarrow> entries_from n (take k xs)"
  by (auto simp: entries_from_def)

lemma entries_from_drop: "entries_from n xs \<Longrightarrow> entries_from (n + k) (drop k xs) \<or> length xs < k"
  by (auto simp: entries_from_def not_less)

lemma log_wf_splice:
  assumes "log_wf s" "entries_from n es" "unat (ds_snapIndex s) < n"
    "n \<le> Suc (unat (ds_snapIndex s) + length (ds_log s))"
  shows "entries_from (Suc (unat (ds_snapIndex s)))
           (take (n - Suc (unat (ds_snapIndex s))) (ds_log s) @ es)"
proof (rule entries_from_append)
  let ?t = "take (n - Suc (unat (ds_snapIndex s))) (ds_log s)"
  show "entries_from (Suc (unat (ds_snapIndex s))) ?t"
    using assms(1) by (simp add: log_wf_entries_from entries_from_take)
  have "Suc (unat (ds_snapIndex s)) + length ?t = n" using assms(3,4) by auto
  then show "entries_from (Suc (unat (ds_snapIndex s)) + length ?t) es" using assms(2) by simp
qed

lemma filter_suffix:
  assumes "\<forall>k < length xs. P (xs ! k) \<longleftrightarrow> n \<le> k"
  shows "filter P xs = drop n xs"
  using assms
proof (induction xs rule: rev_induct)
  case (snoc x xs)
  have "filter P xs = drop n xs"
    using snoc.prems by (intro snoc.IH) (metis less_Suc_eq length_append_singleton nth_append)
  moreover have "P x \<longleftrightarrow> n \<le> length xs" using snoc.prems [rule_format, of "length xs"] by simp
  ultimately show ?case by auto
qed simp

lemma log_wf_filter:
  assumes "log_wf s" "ds_snapIndex s < i"
  shows "filter (\<lambda>e. e_Index e > i) (ds_log s) = drop (unat i - unat (ds_snapIndex s)) (ds_log s)"
  using assms by (intro filter_suffix) (auto simp: log_wf_def word_less_nat_alt)

subsection \<open>Saving a snapshot\<close>

lemma set_io_fields [simp]:
  "ds_term (set_io s io) = ds_term s" "ds_votedFor (set_io s io) = ds_votedFor s"
  "ds_conf (set_io s io) = ds_conf s" "ds_log (set_io s io) = ds_log s"
  "ds_snapIndex (set_io s io) = ds_snapIndex s" "ds_snapTerm (set_io s io) = ds_snapTerm s"
  "ds_snapshot (set_io s io) = ds_snapshot s" "ds_meta (set_io s io) = ds_meta s"
  "ds_bin (set_io s io) = ds_bin s" "ds_confFile (set_io s io) = ds_confFile s"
  "ds_dirty (set_io s io) = ds_dirty s"
  by (simp_all add: set_io_def)

lemma store_close_mem:
  "store_close s = Some (s', e) \<Longrightarrow> \<exists>w. s' = s\<lparr>ds_wal := Some w\<rparr>"
  by (auto simp: store_close_def split: option.splits prod.splits)

lemma holds_Close:
  assumes "holds w ds ps" "Close w = (w', None)"
  shows "w_disk w' = frames (ds @ ps)"
proof -
  obtain w1 where w1: "Sync w = (w1, None)" "file_Close w1 = (w', None)"
    using assms(2) by (auto simp: Close_def split: prod.splits option.splits)
  then have "holds w1 (ds @ ps) []" using wal.sync_ok [OF assms(1)] by blast
  then show ?thesis using w1(2) by (auto simp: file_Close_def holds_def split: prod.splits)
qed

lemma rewrite_entries_holds:
  assumes "holds w ds ps" "rewrite_entries pb w es = Some (w', None)"
    "\<forall>x \<in> set es. entry_fits pb x"
  shows "\<exists>rs. holds w' ds (ps @ rs) \<and> list_all2 (\<lambda>x r. encodeEntry pb x = Some r) es rs"
  using assms
proof (induction es arbitrary: w ps)
  case Nil
  then show ?case by auto
next
  case (Cons x es)
  obtain rec where rec: "encodeEntry pb x = Some rec" "fits rec"
    using Cons.prems(3) by (auto simp: entry_fits_def)
  obtain w1 where w1: "Append w rec = (w1, None)" "rewrite_entries pb w1 es = Some (w', None)"
    using Cons.prems(2) rec(1) by (auto simp: try_then_ok)
  have "holds w1 ds (ps @ [rec])" using wal.append_ok [OF Cons.prems(1) rec(2) w1(1)] .
  from Cons.IH [OF this w1(2)] Cons.prems(3) obtain rs where
    "holds w' ds ((ps @ [rec]) @ rs)" "list_all2 (\<lambda>x r. encodeEntry pb x = Some r) es rs"
    by auto
  then show ?case using rec(1) by (intro exI [of _ "rec # rs"]) simp
qed

lemma run_records_entries:
  assumes "codec_ok pb" "list_all2 (\<lambda>x r. encodeEntry pb x = Some r) es rs"
    "\<forall>x \<in> set es. e_Index x > ds_snapIndex b"
  shows "run_records (replay_record pb) b rs = Inr (b\<lparr>ds_log := ds_log b @ es\<rparr>)"
  using assms(2,3)
proof (induction es rs arbitrary: b rule: list_all2_induct)
  case Nil
  then show ?case by simp
next
  case (Cons x es r rs)
  then have "replay_record pb b r = Inr (b\<lparr>ds_log := ds_log b @ [x]\<rparr>)"
    using replay_encodeEntry [OF assms(1)] by simp
  then show ?case using Cons by simp
qed

lemma swap_wal_ok:
  assumes "swap_wal s nw = Some (s', None)"
  obtains nw' io w where "Close nw = (nw', None)" "OpenWAL io (File (w_disk nw')) = Inr w"
    "s' = s\<lparr>ds_wal := Some w, ds_dirty := False\<rparr>"
proof -
  obtain nw' where nw: "Close nw = (nw', None)"
    using assms by (auto simp: swap_wal_def split: prod.splits option.splits)
  obtain s1 where s1: "store_close (set_io s (w_io nw')) = Some (s1, None)"
    using assms nw by (auto simp: swap_wal_def try_then_ok)
  then obtain w1 where w1: "s1 = (set_io s (w_io nw'))\<lparr>ds_wal := Some w1\<rparr>"
    using store_close_mem by blast
  obtain io w where "OpenWAL io (File (w_disk nw')) = Inr w"
      "s' = (set_io s1 io)\<lparr>ds_wal := Some w, ds_dirty := False\<rparr>"
    using assms nw s1
    by (auto simp: swap_wal_def Let_def split: prod.splits if_splits sum.splits)
  with nw w1 that show ?thesis by (simp add: set_io_def)
qed

lemma rewrite_wal_ok:
  assumes "rewrite_wal pb s = Some (s', None)" "conf_fits (ds_conf s)"
    "\<forall>x \<in> set (ds_log s). entry_fits pb x"
  obtains w rs where "s' = s\<lparr>ds_wal := Some w, ds_dirty := False\<rparr>" "\<not> w_err w"
    "holds w (hardRecord (ds_term s) (ds_votedFor s) # confRecord (ds_conf s) # rs) []"
    "list_all2 (\<lambda>x r. encodeEntry pb x = Some r) (ds_log s) rs"
proof -
  let ?h = "hardRecord (ds_term s) (ds_votedFor s)" and ?c = "confRecord (ds_conf s)"
  obtain nw where nw: "OpenWAL (ds_io s) NoFile = Inr nw"
    using assms(1) by (auto simp: rewrite_wal_def Let_def split: sum.splits)
  obtain n1 n2 n3 where n: "Append nw ?h = (n1, None)" "Append n1 ?c = (n2, None)"
      "rewrite_entries pb n2 (ds_log s) = Some (n3, None)" and swap: "swap_wal s n3 = Some (s', None)"
    using assms(1) nw
    by (auto simp: rewrite_wal_def Let_def try_then_ok split: option.splits)
  have "holds nw [] []" using OpenWAL_fields [OF nw] by (simp add: holds_def)
  then have "holds n1 [] [?h]" using wal.append_ok [OF _ fits_hardRecord n(1)] by fastforce
  then have "holds n2 [] [?h, ?c]"
    using wal.append_ok [OF _ _ n(2)] assms(2) by (fastforce simp: conf_fits_def)
  then obtain rs where rs: "holds n3 [] ([?h, ?c] @ rs)"
      "list_all2 (\<lambda>x r. encodeEntry pb x = Some r) (ds_log s) rs"
    using rewrite_entries_holds [OF _ n(3) assms(3)] by blast
  obtain n4 io w where w: "Close n3 = (n4, None)" "OpenWAL io (File (w_disk n4)) = Inr w"
      "s' = s\<lparr>ds_wal := Some w, ds_dirty := False\<rparr>"
    using swap_wal_ok [OF swap] .
  have "holds w ([?h, ?c] @ rs) []"
  proof (rule holds_OpenWAL [OF w(2)])
    show "File (w_disk n4) = File (frames ([?h, ?c] @ rs))"
      using holds_Close [OF rs(1) w(1)] by simp
    show "\<forall>p \<in> set ([?h, ?c] @ rs). fits p" using rs(1) by (simp add: holds_def)
  qed
  with w(3) rs(2) that OpenWAL_fields [OF w(2)] show ?thesis by simp
qed

lemma write_ok:
  "write_bin s data = Some (s', None) \<Longrightarrow> \<exists>io. s' = (set_io s io)\<lparr>ds_bin := File data\<rparr>"
  "write_meta s i t = Some (s', None) \<Longrightarrow>
     \<exists>io. s' = (set_io s io)\<lparr>ds_meta := File (PutUint64 i @ PutUint64 t)\<rparr>"
  "write_conf s c = Some (s', None) \<Longrightarrow>
     \<exists>io. s' = (set_io s io)\<lparr>ds_confFile := File (encodeConfState c)\<rparr>"
  by (auto simp: write_bin_def write_meta_def write_conf_def atomicWrite_def
      split: prod.splits if_splits)

lemma load_saved_snapshot:
  assumes "d_meta d = File (PutUint64 i @ PutUint64 t)" "d_bin d = File data"
    "d_conf d = File (encodeConfState c)" "conf_fits c"
  shows "\<exists>b. load_snapshot d boot = Inr b \<and> ds_snapIndex b = i \<and> ds_snapTerm b = t
    \<and> ds_snapshot b = data \<and> ds_conf b = c \<and> ds_log b = []"
proof -
  have "get_le (PutUint64 x) = x" for x :: u64 by (simp add: PutUint64_def get_put_le)
  moreover have "decodeConfState (encodeConfState c) = Inr c" "fcard (Voters c) > 0"
    using assms(4) by (auto simp: conf_fits_def fcard.rep_eq card_gt_0_iff fset_inject [symmetric]
        intro!: decode_encode_ConfState)
  ultimately show ?thesis using assms(1-3) by (simp add: load_snapshot_def Let_def)
qed

lemma saveSnapshot_ok:
  assumes "saveSnapshot pb s index t data c = Some (s', None)" "index > ds_snapIndex s"
    "conf_fits c" "\<forall>x \<in> set (ds_log s). entry_fits pb x" "codec_ok pb"
  shows "same_state s' (s\<lparr>ds_log := filter (\<lambda>e. e_Index e > index) (ds_log s),
           ds_snapIndex := index, ds_snapTerm := t, ds_snapshot := data, ds_conf := c\<rparr>)
         \<and> (\<exists>ds w. store_inv pb boot s' ds [] \<and> ds_wal s' = Some w \<and> \<not> w_err w)"
proof -
  let ?L = "filter (\<lambda>e. e_Index e > index) (ds_log s)"
  obtain s1 s2 s3 where steps: "write_bin s data = Some (s1, None)"
      "write_meta s1 index t = Some (s2, None)" "write_conf s2 c = Some (s3, None)"
    and rw: "rewrite_wal pb (s3\<lparr>ds_log := filter (\<lambda>e. e_Index e > index) (ds_log s3),
        ds_snapIndex := index, ds_snapTerm := t, ds_snapshot := data, ds_conf := c\<rparr>)
        = Some (s', None)"
    using assms(1,2) by (auto simp: saveSnapshot_def try_then_ok split: if_splits)
  obtain io1 io2 io3 where s3: "s3 = (set_io ((set_io ((set_io s io1)\<lparr>ds_bin := File data\<rparr>) io2)
      \<lparr>ds_meta := File (PutUint64 index @ PutUint64 t)\<rparr>) io3)\<lparr>ds_confFile := File (encodeConfState c)\<rparr>"
    using write_ok(1) [OF steps(1)] write_ok(2) [OF steps(2)] write_ok(3) [OF steps(3)] by blast
  define s4 where "s4 = s3\<lparr>ds_log := ?L, ds_snapIndex := index, ds_snapTerm := t,
      ds_snapshot := data, ds_conf := c\<rparr>"
  have "rewrite_wal pb s4 = Some (s', None)" using rw s3 by (simp add: s4_def)
  then obtain w rs where w: "s' = s4\<lparr>ds_wal := Some w, ds_dirty := False\<rparr>" and err: "\<not> w_err w"
    and recs: "holds w (hardRecord (ds_term s4) (ds_votedFor s4) # confRecord (ds_conf s4) # rs) []"
      "list_all2 (\<lambda>x r. encodeEntry pb x = Some r) (ds_log s4) rs"
    using assms(3,4) by (elim rewrite_wal_ok) (auto simp: s4_def)
  have mem: "same_state s' (s\<lparr>ds_log := ?L, ds_snapIndex := index, ds_snapTerm := t,
      ds_snapshot := data, ds_conf := c\<rparr>)"
    using w s3 by (simp add: same_state_def s4_def)
  obtain b where b: "load_snapshot (crash_dir s' 0) boot = Inr b" "ds_snapIndex b = index"
      "ds_snapTerm b = t" "ds_snapshot b = data" "ds_conf b = c" "ds_log b = []"
    using load_saved_snapshot [of "crash_dir s' 0" index t data c boot] assms(3) w s3
    by (auto simp: crash_dir_def s4_def)
  let ?b = "b\<lparr>ds_term := ds_term s4, ds_votedFor := ds_votedFor s4, ds_conf := c\<rparr>"
  have "run_records (replay_record pb) ?b rs = Inr (?b\<lparr>ds_log := ds_log s4\<rparr>)"
    using run_records_entries [OF assms(5) recs(2), of ?b] b(2,6) by (simp add: s4_def)
  then have "replays pb boot s' (hardRecord (ds_term s4) (ds_votedFor s4) #
      confRecord (ds_conf s4) # rs) (?b\<lparr>ds_log := ds_log s4\<rparr>)"
    using b(1) assms(3) replay_confRecord by (simp add: replays_def s4_def)
  moreover have "same_state s' (?b\<lparr>ds_log := ds_log s4\<rparr>)"
    using w b by (simp add: same_state_def s4_def)
  ultimately show ?thesis using mem w recs(1) err by (auto simp: store_inv_def)
qed

subsection \<open>Runs\<close>

lemma replay_record_files:
  "replay_record pb s p = Inr r \<Longrightarrow>
   ds_meta r = ds_meta s \<and> ds_bin r = ds_bin s \<and> ds_confFile r = ds_confFile s"
  by (auto simp: replay_record_def Let_def split: list.splits if_splits option.splits sum.splits)

lemma run_records_files:
  "run_records (replay_record pb) s rs = Inr r \<Longrightarrow>
   ds_meta r = ds_meta s \<and> ds_bin r = ds_bin s \<and> ds_confFile r = ds_confFile s"
  by (induction rs arbitrary: s) (auto split: sum.splits dest!: replay_record_files)

lemma open_inv:
  assumes "openDiskStorage pb io d boot = Inr s"
    "d_wal d = File (frames rs) \<or> d_wal d = NoFile \<and> rs = []" "\<forall>p \<in> set rs. fits p"
  shows "store_inv pb boot s rs []"
proof -
  obtain b r w io' where b: "load_snapshot d boot = Inr b"
      and r: "ReplayWAL (replay_record pb) b (d_wal d) = Inr r"
      and w: "OpenWAL io' (d_wal d) = Inr w" "s = r\<lparr>ds_wal := Some w\<rparr>"
    using assms(1)
    by (auto simp: openDiskStorage_def Let_def split: prod.splits if_splits sum.splits walerr.splits)
  have "run_records (replay_record pb) b rs = Inr r"
    using r assms(2,3) records_frames [of rs]
    by (auto simp: ReplayWAL_def replay_records map_sum_def split: sum.splits)
  moreover have "ds_meta r = d_meta d \<and> ds_bin r = d_bin d \<and> ds_confFile r = d_conf d"
    using run_records_files [OF calculation] b by (auto simp: load_snapshot_def Let_def
        split: wfile.splits if_splits sum.splits)
  then have "load_snapshot (crash_dir s 0) boot = Inr b"
    using b w(2) load_snapshot_files [of "crash_dir s 0" d] by (simp add: crash_dir_def)
  ultimately have "replays pb boot s rs r" by (auto simp: replays_def)
  moreover have "holds w rs []"
    using OpenWAL_fields [OF w(1)] assms(2,3) by (auto simp: holds_def)
  ultimately show ?thesis using w(2) by (auto simp: store_inv_def same_state_def)
qed

lemma wal_Sync_no_err:
  "wal_Sync s = Some (s', None) \<Longrightarrow> \<exists>w. ds_wal s' = Some w \<and> \<not> w_err w"
  using Sync_spec by (fastforce simp: wal_Sync_def split: option.splits prod.splits)

lemma store_step_inv:
  assumes "store_inv pb boot s ds ps" "codec_ok pb" "op_ok pb s op" "store_step pb s op = Some (s', e)"
    "e = None \<or> (\<forall>i t data c. op \<noteq> StSnapshot i t data c)"
  shows "\<exists>ds' ps'. store_inv pb boot s' ds' ps'"
proof (cases op)
  case (StHard t v)
  then show ?thesis using setHardState_inv [OF assms(1), of t v s' e] assms(4) by (auto split: if_splits)
next
  case (StConf c)
  then show ?thesis
    using setConfState_inv [OF assms(1), of c s' e] assms(3,4) by (auto split: if_splits)
next
  case (StAppend es)
  then show ?thesis using appendEntries_inv [OF assms(1,2), of es s' e] assms(3,4) by auto
next
  case StSync
  have "if e = None then store_inv pb boot s' (ds @ ps) [] \<or> store_inv pb boot s' ds ps
        else store_inv pb boot s' ds ps"
    using assms(1,4) StSync store_inv_Sync [OF assms(1)]
    by (auto simp: sync_def try_then_def split: option.splits prod.splits if_splits)
  then show ?thesis by (auto split: if_splits)
next
  case (StSnapshot i t data c)
  then have "e = None" using assms(5) by blast
  then show ?thesis
    using saveSnapshot_ok [of pb s i t data c s' boot] assms(2,3,4) StSnapshot by auto
qed

lemma store_reach_inv:
  assumes "store_reach pb boot s" "codec_ok pb"
  shows "\<exists>ds ps. store_inv pb boot s ds ps"
  using assms(1)
proof induction
  case (opened io d s)
  then show ?case using open_inv [OF opened(1), of "[]"] by auto
next
  case (step s op s' e)
  then show ?case using store_step_inv [OF _ assms(2)] by blast
next
  case (restart s n rs io s')
  then show ?case using open_inv [of pb io "crash_dir s n" boot s' rs] by blast
qed

lemma durable_step_recovers:
  assumes "store_inv pb boot s ds ps" "codec_ok pb" "op_ok pb s op" "durable_op s op"
    "store_step pb s op = Some (s', None)"
  shows "\<exists>r. openDiskStorage pb [] (crash_dir s' n) boot = Inr r \<and> same_state s' r"
proof -
  have "\<exists>ds' w. store_inv pb boot s' ds' [] \<and> ds_wal s' = Some w \<and> \<not> w_err w"
  proof (cases op)
    case (StHard t v)
    then have "wal_Sync (fst (the (wal_Append (s\<lparr>ds_term := t, ds_votedFor := v\<rparr>) (hardRecord t v))))
        = Some (s', None)"
      using assms(5) by (auto simp: setHardState_def try_then_ok)
    then show ?thesis
      using setHardState_inv [OF assms(1), of t v s' None] assms(5) StHard wal_Sync_no_err by fastforce
  next
    case (StConf c)
    then have "wal_Sync (fst (the (wal_Append (s\<lparr>ds_conf := c\<rparr>) (confRecord c)))) = Some (s', None)"
      using assms(5) by (auto simp: setConfState_def try_then_ok)
    then show ?thesis
      using setConfState_inv [OF assms(1), of c s' None] assms(3,5) StConf wal_Sync_no_err
      by fastforce
  next
    case (StAppend es)
    then show ?thesis using assms(4) by simp
  next
    case StSync
    then obtain s1 where "wal_Sync s = Some (s1, None)" "s' = s1\<lparr>ds_dirty := False\<rparr>"
      using assms(4,5) by (auto simp: sync_def try_then_ok)
    then show ?thesis
      using sync_inv [OF assms(1)] assms(4,5) StSync wal_Sync_no_err [of s s1] by auto
  next
    case (StSnapshot i t data c)
    then show ?thesis
      using saveSnapshot_ok [of pb s i t data c s' boot] assms(2,3,5) by auto
  qed
  then show ?thesis using recover_synced by blast
qed

section \<open>Properties\<close>


text \<open>A concrete codec, to show that the hypothesis on the codec can hold: fixed-width fields, and
  byte strings with a marker before every byte.\<close>

fun mark_bytes :: "bytes \<Rightarrow> bytes" where
  "mark_bytes [] = [0]"
| "mark_bytes (b # bs) = 1 # b # mark_bytes bs"

fun unmark_bytes :: "bytes \<Rightarrow> bytes \<times> bytes" where
  "unmark_bytes (m # b # bs) =
     (if m = 0 then ([], b # bs) else let (x, r) = unmark_bytes bs in (b # x, r))"
| "unmark_bytes bs = ([], drop 1 bs)"

definition sample_codec :: codec where
  "sample_codec =
     \<lparr>marshal = (\<lambda>e. Some (PutUint64 (e_Term e) @ PutUint64 (e_Index e) @ PutUint32 (e_Type e)
        @ mark_bytes (e_Data e) @ (case e_ConfChange e of None \<Rightarrow> []
            | Some c \<Rightarrow> PutUint32 (cc_Type c) @ PutUint64 (cc_NodeId c) @ cc_Context c))),
      unmarshal = (\<lambda>p. let (data, r) = unmark_bytes (drop 20 p) in
        Some \<lparr>e_Term = get_le (take 8 p), e_Index = get_le (take 8 (drop 8 p)), e_Data = data,
          e_Type = get_le (take 4 (drop 16 p)),
          e_ConfChange = (if r = [] then None else
            Some \<lparr>cc_Type = get_le (take 4 r), cc_NodeId = get_le (take 8 (drop 4 r)),
                  cc_Context = drop 12 r\<rparr>)\<rparr>)\<rparr>"

lemma unmark_mark: "unmark_bytes (mark_bytes bs @ r) = (bs, r)"
proof (induction bs)
  case Nil
  then show ?case by (cases r) auto
qed simp

lemma get_le_PutUint64 [simp, wire]: "get_le (PutUint64 w) = w"
  by (simp add: PutUint64_def get_put_le)

lemma sample_codec_ok: "codec_ok sample_codec"
proof -
  have "unmarshal sample_codec (the (marshal sample_codec e)) = Some e" for e
    by (cases e; cases "e_ConfChange e")
      (auto simp: sample_codec_def unmark_mark unmark_mark [of _ "[]", simplified]
        simp flip: length_0_conv)
  moreover have "\<exists>b. marshal sample_codec e = Some b" for e by (simp add: sample_codec_def)
  ultimately show ?thesis unfolding codec_ok_def by (metis option.sel)
qed

definition empty_dir :: raftdir where
  "empty_dir = \<lparr>d_wal = NoFile, d_meta = NoFile, d_bin = NoFile, d_conf = NoFile\<rparr>"




end
