(* ===== verification/RaftNode.thy ===== *)
theory RaftNode
  imports RaftStorage
begin

text \<open>
  The Raft node: \<open>raft/node.go\<close>.  A node is a record; each method that runs under the node's
  mutex is one function from the node (and the clock, the random source and the outcomes of the
  file-system calls) to the new node, the goroutines it starts and its result.  The body of a
  goroutine that waits for an RPC is the function that handles the response.  \<open>None\<close> is a panic.
\<close>

section \<open>Definitions\<close>

subsection \<open>State\<close>

datatype role = follower | candidate | leader

record ApplyMsg =
  CommandValid :: bool
  Command :: bytes
  CommandIndex :: u64
  CommandTerm :: u64
  ConfChangeValid :: bool
  am_ConfChange :: "ConfChange option"
  ConfChangeIndex :: u64
  ConfChangeTerm :: u64
  SnapshotValid :: bool
  am_Snapshot :: bytes
  SnapshotIndex :: u64
  SnapshotTerm :: u64

definition zero_msg :: ApplyMsg where
  "zero_msg = \<lparr>CommandValid = False, Command = [], CommandIndex = 0, CommandTerm = 0,
     ConfChangeValid = False, am_ConfChange = None, ConfChangeIndex = 0, ConfChangeTerm = 0,
     SnapshotValid = False, am_Snapshot = [], SnapshotIndex = 0, SnapshotTerm = 0\<rparr>"

text \<open>Durations and times in nanoseconds.\<close>

record Config =
  cfg_ID :: u64
  cfg_Peers :: "u64 list"
  cfg_Addrs :: "u64 \<rightharpoonup> gostring"
  ElectionTimeoutMin :: int
  ElectionTimeoutMax :: int
  HeartbeatInterval :: int

definition fill :: "Config \<Rightarrow> Config" where
  "fill c =
     (let c = (if ElectionTimeoutMin c = 0 then c\<lparr>ElectionTimeoutMin := 150000000\<rparr> else c);
          c = (if ElectionTimeoutMax c = 0 then c\<lparr>ElectionTimeoutMax := 300000000\<rparr> else c)
      in if HeartbeatInterval c = 0 then c\<lparr>HeartbeatInterval := 50000000\<rparr> else c)"

text \<open>
  \<open>n_nextIndex\<close> and \<open>n_matchIndex\<close> are nil until the node first becomes leader, and so are
  \<open>lastSentAt\<close> and \<open>inflight\<close>, which are allocated with them.  \<open>n_votes\<close> is the vote count of
  the running election, a variable shared by its goroutines.  \<open>n_locked\<close> records that a method
  returned without releasing the mutex; \<open>n_kick\<close> that the kick channel holds its token.
\<close>

record Node =
  n_cfg :: Config
  n_store :: diskStorage
  n_conf :: ConfState
  n_addrs :: "u64 \<rightharpoonup> gostring"
  n_role :: role
  n_leaderID :: u64
  n_commitIndex :: u64
  n_lastApplied :: u64
  n_nextIndex :: "(u64 \<rightharpoonup> u64) option"
  n_matchIndex :: "(u64 \<rightharpoonup> u64) option"
  n_lastSentAt :: "u64 \<rightharpoonup> int"
  n_inflight :: "u64 set"
  n_electionDeadline :: int
  n_votes :: nat
  n_kick :: bool
  n_locked :: bool

text \<open>The clock and the random value a call observes.\<close>

record env =
  now :: int
  rnd :: int

datatype rerr = ErrNotLeader | ErrConf conf_err | ErrStore ioerr | ErrReadIndexTimeout
  | ErrContext | ErrBeyondApplied

text \<open>What a method leaves running or sends: RPC goroutines and messages on the apply channel.\<close>

datatype effect =
    SendRequestVote u64 RequestVoteRequest
  | SendAppendEntries u64 AppendEntriesRequest
  | SendInstallSnapshot u64 InstallSnapshotRequest
  | SendReadIndex u64 ReadIndexRequest
  | Deliver ApplyMsg

subsection \<open>Small helpers\<close>

abbreviation n_id :: "Node \<Rightarrow> u64" where "n_id n \<equiv> cfg_ID (n_cfg n)"
abbreviation n_term :: "Node \<Rightarrow> u64" where "n_term n \<equiv> ds_term (n_store n)"
abbreviation n_votedFor :: "Node \<Rightarrow> u64" where "n_votedFor n \<equiv> ds_votedFor (n_store n)"

text \<open>Run a storage operation and keep its error.\<close>

definition with_store :: "Node \<Rightarrow> (diskStorage \<times> 'e option) option \<Rightarrow> (Node \<times> 'e option) option" where
  "with_store n m = (case m of None \<Rightarrow> None | Some (s, e) \<Rightarrow> Some (n\<lparr>n_store := s\<rparr>, e))"

text \<open>Reading a nil map is reading an empty one; writing to it panics.\<close>

definition nil_get :: "(u64 \<rightharpoonup> u64) option \<Rightarrow> u64 \<Rightarrow> u64" where
  "nil_get m k = (case m of None \<Rightarrow> 0 | Some f \<Rightarrow> mget f k)"

definition nil_put :: "(u64 \<rightharpoonup> u64) option \<Rightarrow> u64 \<Rightarrow> u64 \<Rightarrow> (u64 \<rightharpoonup> u64) option option" where
  "nil_put m k v = (case m of None \<Rightarrow> None | Some f \<Rightarrow> Some (Some (f(k \<mapsto> v))))"

definition kickRun :: "Node \<Rightarrow> Node" where
  "kickRun n = n\<lparr>n_kick := True\<rparr>"

text \<open>\<open>rand.Int63n\<close> panics when its argument is not positive.\<close>

definition resetElectionTimerLocked :: "env \<Rightarrow> Node \<Rightarrow> Node option" where
  "resetElectionTimerLocked ev n =
     (let span = ElectionTimeoutMax (n_cfg n) - ElectionTimeoutMin (n_cfg n) in
      if span + 1 \<le> 0 then None
      else Some (n\<lparr>n_electionDeadline :=
             now ev + ElectionTimeoutMin (n_cfg n) + rnd ev mod (span + 1)\<rparr>))"

definition peerIDsLocked :: "Node \<Rightarrow> u64 list" where
  "peerIDsLocked n = AllPeerIDs (n_conf n)"

subsection \<open>Construction and accessors\<close>

definition NewNode ::
  "codec \<Rightarrow> bool list \<Rightarrow> raftdir \<Rightarrow> env \<Rightarrow> Config \<Rightarrow> (store_err + Node) option" where
  "NewNode pb io d ev cfg0 =
     (let cfg = fill cfg0 in
      case openDiskStorage pb io d (cfg_Peers cfg) of
        Inl SPanic \<Rightarrow> None
      | Inl e \<Rightarrow> Some (Inl e)
      | Inr store \<Rightarrow>
          map_option Inr (resetElectionTimerLocked ev
            \<lparr>n_cfg = cfg, n_store = store, n_conf = ds_conf store, n_addrs = cfg_Addrs cfg,
             n_role = follower, n_leaderID = 0,
             n_commitIndex = (if ds_snapIndex store > 0 then ds_snapIndex store else 0),
             n_lastApplied = (if ds_snapIndex store > 0 then ds_snapIndex store else 0),
             n_nextIndex = None, n_matchIndex = None, n_lastSentAt = Map.empty,
             n_inflight = {}, n_electionDeadline = 0, n_votes = 0, n_kick = False,
             n_locked = False\<rparr>))"

definition Status :: "Node \<Rightarrow> u64 \<times> bool \<times> u64" where
  "Status n = (n_term n, n_role n = leader, n_leaderID n)"

definition ReadSnapshot :: "Node \<Rightarrow> bytes \<times> u64 \<times> u64" where
  "ReadSnapshot n = (ds_snapshot (n_store n), ds_snapIndex (n_store n), ds_snapTerm (n_store n))"

definition CommitIndex :: "Node \<Rightarrow> u64" where
  "CommitIndex n = n_commitIndex n"

definition AppliedIndex :: "Node \<Rightarrow> u64" where
  "AppliedIndex n = n_lastApplied n"

definition node_ConfState :: "Node \<Rightarrow> ConfState" where
  "node_ConfState n = n_conf n"

definition MemberAddrs :: "Node \<Rightarrow> u64 \<rightharpoonup> gostring" where
  "MemberAddrs n = n_addrs n"

definition LastLogIndex :: "Node \<Rightarrow> u64" where
  "LastLogIndex n = lastIndex (n_store n)"

subsection \<open>Stepping down, replication\<close>

definition stepDownLocked :: "env \<Rightarrow> Node \<Rightarrow> u64 \<Rightarrow> Node option" where
  "stepDownLocked ev n t =
     do { (n, _) \<leftarrow> (if t > n_term n then with_store n (setHardState (n_store n) t 0)
                     else Some (n, None));
          resetElectionTimerLocked ev (n\<lparr>n_role := follower\<rparr>) }"

definition appendRequest :: "Node \<Rightarrow> u64 \<Rightarrow> u64 \<Rightarrow> Entry list \<Rightarrow> AppendEntriesRequest" where
  "appendRequest n prevIdx prevTerm entries =
     \<lparr>ae_Term = n_term n, ae_LeaderId = n_id n, ae_PrevLogIndex = prevIdx,
      ae_PrevLogTerm = prevTerm, ae_Entries = entries, ae_LeaderCommit = n_commitIndex n\<rparr>"

definition snapshotRequest :: "Node \<Rightarrow> InstallSnapshotRequest" where
  "snapshotRequest n =
     \<lparr>is_Term = n_term n, is_LeaderId = n_id n, is_LastIncludedIndex = ds_snapIndex (n_store n),
      is_LastIncludedTerm = ds_snapTerm (n_store n), is_Data = ds_snapshot (n_store n),
      is_ConfState = encodeConfState (n_conf n)\<rparr>"

definition sendAppendLocked :: "env \<Rightarrow> Node \<Rightarrow> u64 \<Rightarrow> (Node \<times> effect list) option" where
  "sendAppendLocked ev n peer =
     (let ni = nil_get (n_nextIndex n) peer;
          hasNew = lastIndex (n_store n) \<ge> ni in
      if \<not> hasNew \<and> (case n_lastSentAt n peer of None \<Rightarrow> False
                      | Some t \<Rightarrow> now ev - t < HeartbeatInterval (n_cfg n))
      then Some (n, [])
      else if n_nextIndex n = None then None
      else let n = n\<lparr>n_lastSentAt := (n_lastSentAt n)(peer \<mapsto> now ev)\<rparr> in
      if ni < firstIndex (n_store n) then
        (if peer \<in> n_inflight n then Some (n, [])
         else Some (n\<lparr>n_inflight := insert peer (n_inflight n)\<rparr>,
                    [SendInstallSnapshot peer (snapshotRequest n)]))
      else do {
        let prevIdx = ni - 1;
        (prevTerm, ok) \<leftarrow> termAt (n_store n) prevIdx;
        if \<not> ok then Some (n, [])
        else do {
          entries \<leftarrow> entriesFrom (n_store n) ni;
          if peer \<in> n_inflight n then Some (n, [])
          else Some (n\<lparr>n_inflight := insert peer (n_inflight n)\<rparr>,
                     [SendAppendEntries peer (appendRequest n prevIdx prevTerm entries)]) } })"

fun send_all :: "env \<Rightarrow> Node \<Rightarrow> u64 list \<Rightarrow> (Node \<times> effect list) option" where
  "send_all ev n [] = Some (n, [])"
| "send_all ev n (p # ps) =
     (if p = n_id n then send_all ev n ps
      else do { (n1, es1) \<leftarrow> sendAppendLocked ev n p;
                (n2, es2) \<leftarrow> send_all ev n1 ps;
                Some (n2, es1 @ es2) })"

definition broadcastAppendLocked :: "env \<Rightarrow> Node \<Rightarrow> (Node \<times> effect list) option" where
  "broadcastAppendLocked ev n =
     do { (n, err) \<leftarrow> with_store n (sync (n_store n));
          if err \<noteq> None then Some (n, [])
          else send_all ev n (peerIDsLocked n) }"

subsection \<open>Proposals\<close>

definition appendEntryLocked ::
  "codec \<Rightarrow> Node \<Rightarrow> Entry \<Rightarrow> (Node \<times> (rerr + u64 \<times> u64)) option" where
  "appendEntryLocked pb n e =
     do { (n, err) \<leftarrow> with_store n (appendEntries pb (n_store n) [e]);
          case err of
            Some x \<Rightarrow> Some (n, Inl (ErrStore x))
          | None \<Rightarrow> do {
              m \<leftarrow> nil_put (n_matchIndex n) (n_id n) (e_Index e);
              Some (kickRun (n\<lparr>n_matchIndex := m\<rparr>), Inr (e_Index e, e_Term e)) } }"

definition Propose :: "codec \<Rightarrow> Node \<Rightarrow> bytes \<Rightarrow> (Node \<times> (rerr + u64 \<times> u64)) option" where
  "Propose pb n command =
     (if n_role n \<noteq> leader then Some (n, Inl ErrNotLeader)
      else appendEntryLocked pb n
        \<lparr>e_Term = n_term n, e_Index = lastIndex (n_store n) + 1, e_Data = command,
         e_Type = ENTRY_NORMAL, e_ConfChange = None\<rparr>)"

definition ProposeConfChange ::
  "codec \<Rightarrow> Node \<Rightarrow> ConfChange \<Rightarrow> (Node \<times> (rerr + u64 \<times> u64)) option" where
  "ProposeConfChange pb n cc =
     (if n_role n \<noteq> leader then Some (n, Inl ErrNotLeader)
      else if cc_Type cc \<noteq> CONF_CHANGE_LEAVE_JOINT \<and> InJoint (n_conf n)
      then Some (n, Inl (ErrConf ErrConfChangeInProgress))
      else case ApplyConfChange (n_conf n) cc of
        Inl NilMapPanic \<Rightarrow> None
      | Inl e \<Rightarrow> Some (n, Inl (ErrConf e))
      | Inr _ \<Rightarrow> appendEntryLocked pb n
          \<lparr>e_Term = n_term n, e_Index = lastIndex (n_store n) + 1, e_Data = [],
           e_Type = ENTRY_CONF_CHANGE, e_ConfChange = Some cc\<rparr>)"

subsection \<open>Elections\<close>

definition startElectionLocked :: "env \<Rightarrow> Node \<Rightarrow> (Node \<times> effect list) option" where
  "startElectionLocked ev n =
     (if \<not> Contains (n_conf n) (n_id n)
      then map_option (\<lambda>n. (n, [])) (resetElectionTimerLocked ev n)
      else if length (VoterIDs (n_conf n)) = 1 \<and> lastIndex (n_store n) = ds_snapIndex (n_store n)
      then map_option (\<lambda>n. (n, [])) (resetElectionTimerLocked ev n)
      else do {
        let newTerm = n_term n + 1;
        (n, err) \<leftarrow> with_store (n\<lparr>n_role := candidate\<rparr>)
                     (setHardState (n_store n) newTerm (n_id n));
        if err \<noteq> None then Some (n, [])
        else do {
          n \<leftarrow> resetElectionTimerLocked ev (n\<lparr>n_leaderID := 0\<rparr>);
          let lastIdx = lastIndex (n_store n);
          (lastTerm, _) \<leftarrow> termAt (n_store n) lastIdx;
          let req = \<lparr>rv_Term = newTerm, rv_CandidateId = n_id n, rv_LastLogIndex = lastIdx,
                     rv_LastLogTerm = lastTerm\<rparr>;
          Some (n\<lparr>n_votes := 1\<rparr>,
            map (\<lambda>p. SendRequestVote p req) (filter (\<lambda>p. p \<noteq> n_id n) (peerIDsLocked n))) } })"

definition becomeLeaderLocked :: "codec \<Rightarrow> env \<Rightarrow> Node \<Rightarrow> (Node \<times> effect list) option" where
  "becomeLeaderLocked pb ev n =
     (if n_role n = leader then Some (n, [])
      else let last = lastIndex (n_store n); peers = peerIDsLocked n;
               next0 = map_of (map (\<lambda>p. (p, last + 1)) peers);
               match0 = (map_of (map (\<lambda>p. (p, 0)) peers))(n_id n \<mapsto> last);
               n = n\<lparr>n_role := leader, n_leaderID := n_id n, n_nextIndex := Some next0,
                     n_matchIndex := Some match0, n_lastSentAt := Map.empty, n_inflight := {}\<rparr>;
               noop = \<lparr>e_Term = n_term n, e_Index = last + 1, e_Data = [],
                       e_Type = ENTRY_NORMAL, e_ConfChange = None\<rparr> in
      do { (n, err) \<leftarrow> with_store n (appendEntries pb (n_store n) [noop]);
           let n = (if err \<noteq> None then n
                    else n\<lparr>n_matchIndex := Some (match0(n_id n \<mapsto> e_Index noop)),
                           n_nextIndex := Some (next0(n_id n \<mapsto> e_Index noop + 1))\<rparr>);
           broadcastAppendLocked ev n })"

text \<open>The goroutine that asked \<open>peer\<close> for its vote in term \<open>newTerm\<close>, when the answer is there.\<close>

definition onVoteResponse ::
  "codec \<Rightarrow> env \<Rightarrow> Node \<Rightarrow> u64 \<Rightarrow> RequestVoteResponse \<Rightarrow> (Node \<times> effect list) option" where
  "onVoteResponse pb ev n newTerm resp =
     (if rvr_Term resp > n_term n
      then map_option (\<lambda>n. (n, [])) (stepDownLocked ev n (rvr_Term resp))
      else if n_role n \<noteq> candidate \<or> n_term n \<noteq> newTerm \<or> \<not> rvr_VoteGranted resp then Some (n, [])
      else let n = n\<lparr>n_votes := n_votes n + 1\<rparr> in
        if HasVoteQuorum (n_conf n) (n_votes n) then becomeLeaderLocked pb ev n
        else Some (n, []))"

text \<open>The body of the event loop, and its two triggers: the ticker, and the kick channel, whose
  token only the second consumes.\<close>

definition run_body :: "env \<Rightarrow> Node \<Rightarrow> (Node \<times> effect list) option" where
  "run_body ev n =
     (case n_role n of
        leader \<Rightarrow> broadcastAppendLocked ev n
      | _ \<Rightarrow> if now ev > n_electionDeadline n then startElectionLocked ev n else Some (n, []))"

definition run_tick :: "env \<Rightarrow> Node \<Rightarrow> (Node \<times> effect list) option" where
  "run_tick ev n = run_body ev n"

definition run_kick :: "env \<Rightarrow> Node \<Rightarrow> (Node \<times> effect list) option" where
  "run_kick ev n = (if n_kick n then run_body ev (n\<lparr>n_kick := False\<rparr>) else Some (n, []))"

subsection \<open>Replies to replication\<close>

definition advanceCommitLocked :: "Node \<Rightarrow> Node option" where
  "advanceCommitLocked n =
     (let m = (case n_matchIndex n of None \<Rightarrow> Map.empty | Some f \<Rightarrow> f);
          idx = MaxCommitIndex (n_conf n) m in
      if idx \<le> n_commitIndex n then Some n
      else do {
        (n, err) \<leftarrow> with_store n (sync (n_store n));
        if err \<noteq> None then Some n
        else do {
          (t, ok) \<leftarrow> termAt (n_store n) idx;
          if \<not> ok \<or> t \<noteq> n_term n then Some n
          else Some (kickRun (n\<lparr>n_commitIndex := idx\<rparr>)) } })"

text \<open>
  The search for the follower's conflicting term, from the last index down.  With \<open>k = 0\<close> the
  index would wrap around; the first index is at least 1 for every log that has not used up the
  64-bit indices.
\<close>

fun conflict_scan :: "diskStorage \<Rightarrow> u64 \<Rightarrow> u64 \<Rightarrow> nat \<Rightarrow> u64 option" where
  "conflict_scan s ct dflt k =
     (if word_of_nat k < firstIndex s then Some dflt
      else do {
        (t, ok) \<leftarrow> termAt s (word_of_nat k);
        if \<not> ok then Some dflt
        else if t = ct then Some (word_of_nat k + 1)
        else if t < ct then Some dflt
        else (case k of 0 \<Rightarrow> None | Suc j \<Rightarrow> conflict_scan s ct dflt j) })"

definition onAppendResponse ::
  "env \<Rightarrow> Node \<Rightarrow> u64 \<Rightarrow> AppendEntriesRequest \<Rightarrow> AppendEntriesResponse \<Rightarrow> Node option" where
  "onAppendResponse ev n peer req resp =
     (if aer_Term resp > n_term n then stepDownLocked ev n (aer_Term resp)
      else if n_role n \<noteq> leader \<or> n_term n \<noteq> ae_Term req then Some n
      else if aer_Success resp then
        do { let match = ae_PrevLogIndex req + word_of_nat (length (ae_Entries req));
             n \<leftarrow> (if match > nil_get (n_matchIndex n) peer
                   then map_option (\<lambda>m. n\<lparr>n_matchIndex := m\<rparr>) (nil_put (n_matchIndex n) peer match)
                   else Some n);
             n \<leftarrow> (if match + 1 > nil_get (n_nextIndex n) peer
                   then map_option (\<lambda>m. n\<lparr>n_nextIndex := m\<rparr>) (nil_put (n_nextIndex n) peer (match + 1))
                   else Some n);
             advanceCommitLocked n }
      else do {
        n \<leftarrow> (if aer_ConflictTerm resp \<noteq> 0 then
                 do { nxt \<leftarrow> conflict_scan (n_store n) (aer_ConflictTerm resp)
                              (aer_ConflictIndex resp) (unat (lastIndex (n_store n)));
                      map_option (\<lambda>m. n\<lparr>n_nextIndex := m\<rparr>)
                        (nil_put (n_nextIndex n) peer (max 1 nxt)) }
               else if aer_ConflictIndex resp > 0 then
                 map_option (\<lambda>m. n\<lparr>n_nextIndex := m\<rparr>)
                   (nil_put (n_nextIndex n) peer (aer_ConflictIndex resp))
               else if nil_get (n_nextIndex n) peer > 1 then
                 map_option (\<lambda>m. n\<lparr>n_nextIndex := m\<rparr>)
                   (nil_put (n_nextIndex n) peer (nil_get (n_nextIndex n) peer - 1))
               else Some n);
        Some (kickRun n) })"

definition onSnapshotResponse ::
  "env \<Rightarrow> Node \<Rightarrow> u64 \<Rightarrow> InstallSnapshotRequest \<Rightarrow> InstallSnapshotResponse \<Rightarrow> Node option" where
  "onSnapshotResponse ev n peer req resp =
     (if isr_Term resp > n_term n then stepDownLocked ev n (isr_Term resp)
      else if n_role n \<noteq> leader \<or> n_term n \<noteq> is_Term req then Some n
      else do {
        let i = is_LastIncludedIndex req;
        n \<leftarrow> (if i > nil_get (n_matchIndex n) peer
              then map_option (\<lambda>m. n\<lparr>n_matchIndex := m\<rparr>) (nil_put (n_matchIndex n) peer i)
              else Some n);
        if i + 1 > nil_get (n_nextIndex n) peer
        then map_option (\<lambda>m. n\<lparr>n_nextIndex := m\<rparr>) (nil_put (n_nextIndex n) peer (i + 1))
        else Some n })"

text \<open>The deferred end of both replication goroutines.\<close>

definition clearInflight :: "Node \<Rightarrow> u64 \<Rightarrow> Node" where
  "clearInflight n peer = n\<lparr>n_inflight := n_inflight n - {peer}\<rparr>"

subsection \<open>RPC handlers\<close>

definition upToDate :: "RequestVoteRequest \<Rightarrow> u64 \<Rightarrow> u64 \<Rightarrow> bool" where
  "upToDate req lastTerm lastIdx \<longleftrightarrow> rv_LastLogTerm req > lastTerm \<or>
     (rv_LastLogTerm req = lastTerm \<and> rv_LastLogIndex req \<ge> lastIdx)"

definition HandleRequestVote ::
  "env \<Rightarrow> Node \<Rightarrow> RequestVoteRequest \<Rightarrow> (Node \<times> RequestVoteResponse) option" where
  "HandleRequestVote ev n req =
     do { n \<leftarrow> (if rv_Term req > n_term n then stepDownLocked ev n (rv_Term req) else Some n);
          let resp = \<lparr>rvr_Term = n_term n, rvr_VoteGranted = False\<rparr>;
          if rv_Term req < n_term n then Some (n, resp)
          else if \<not> Contains (n_conf n) (n_id n) then Some (n, resp)
          else do {
            let lastIdx = lastIndex (n_store n);
            (lastTerm, _) \<leftarrow> termAt (n_store n) lastIdx;
            if (n_votedFor n = 0 \<or> n_votedFor n = rv_CandidateId req) \<and> upToDate req lastTerm lastIdx
            then do {
              (n, err) \<leftarrow> with_store n
                 (setHardState (n_store n) (n_term n) (rv_CandidateId req));
              if err \<noteq> None then Some (n, resp)
              else do {
                n \<leftarrow> resetElectionTimerLocked ev n;
                Some (n, resp\<lparr>rvr_VoteGranted := True\<rparr>) } }
            else Some (n, resp) } }"

text \<open>The loop that finds the first index of the conflicting term.\<close>

fun conflict_start :: "diskStorage \<Rightarrow> u64 \<Rightarrow> nat \<Rightarrow> u64 option" where
  "conflict_start s t ci =
     (if word_of_nat ci > firstIndex s then
        (case ci of 0 \<Rightarrow> None
         | Suc c \<Rightarrow> do {
             (pt, ok) \<leftarrow> termAt s (word_of_nat c);
             if \<not> ok \<or> pt \<noteq> t then Some (word_of_nat ci) else conflict_start s t c })
      else Some (word_of_nat ci))"

fun first_new :: "diskStorage \<Rightarrow> Entry list \<Rightarrow> Entry list option" where
  "first_new s [] = Some []"
| "first_new s (e # es) =
     (if e_Index e \<le> ds_snapIndex s then first_new s es
      else if e_Index e \<le> lastIndex s then
        do { (t, _) \<leftarrow> termAt s (e_Index e);
             if t = e_Term e then first_new s es else Some (e # es) }
      else Some (e # es))"

definition appendReject :: "u64 \<Rightarrow> u64 \<Rightarrow> u64 \<Rightarrow> AppendEntriesResponse" where
  "appendReject t ci ct =
     \<lparr>aer_Term = t, aer_Success = False, aer_ConflictIndex = ci, aer_ConflictTerm = ct\<rparr>"

text \<open>The consistency check on the previous entry: the rejection it produces, if any.\<close>

definition prevCheck :: "Node \<Rightarrow> AppendEntriesRequest \<Rightarrow> AppendEntriesResponse option option" where
  "prevCheck n req =
     (let s = n_store n; prev = ae_PrevLogIndex req in
      if prev > lastIndex s then Some (Some (appendReject (n_term n) (lastIndex s + 1) 0))
      else if prev \<ge> firstIndex s \<or> prev = ds_snapIndex s then
        do { (t, ok) \<leftarrow> termAt s prev;
             if ok \<and> t \<noteq> ae_PrevLogTerm req then
               do { ci \<leftarrow> conflict_start s t (unat prev);
                    Some (Some (appendReject (n_term n) ci t)) }
             else if \<not> ok then Some (Some (appendReject (n_term n) (firstIndex s) 0))
             else Some None }
      else Some None)"

text \<open>Append and sync what is new; the error of either call.\<close>

definition storeEntries :: "codec \<Rightarrow> Node \<Rightarrow> Entry list \<Rightarrow> (Node \<times> ioerr option) option" where
  "storeEntries pb n toAppend =
     (if toAppend = [] then Some (n, None)
      else with_store n (try_then (appendEntries pb (n_store n) toAppend) sync))"

definition HandleAppendEntries ::
  "codec \<Rightarrow> env \<Rightarrow> Node \<Rightarrow> AppendEntriesRequest \<Rightarrow> (Node \<times> AppendEntriesResponse) option" where
  "HandleAppendEntries pb ev n req =
     (if ae_Term req < n_term n then Some (n, appendReject (n_term n) 0 0)
      else do {
        n \<leftarrow> (if ae_Term req > n_term n \<or> n_role n \<noteq> follower
              then stepDownLocked ev n (ae_Term req) else Some n);
        n \<leftarrow> resetElectionTimerLocked ev (n\<lparr>n_leaderID := ae_LeaderId req\<rparr>);
        rej \<leftarrow> prevCheck n req;
        case rej of
          Some resp \<Rightarrow> Some (n, resp)
        | None \<Rightarrow> do {
            toAppend \<leftarrow> first_new (n_store n) (ae_Entries req);
            (n, err) \<leftarrow> storeEntries pb n toAppend;
            if err \<noteq> None then Some (n, appendReject (n_term n) 0 0)
            else do {
              let n = (if ae_LeaderCommit req > n_commitIndex n
                       then let lastNew = ae_PrevLogIndex req + word_of_nat (length (ae_Entries req))
                            in n\<lparr>n_commitIndex := min (ae_LeaderCommit req) (max lastNew (n_commitIndex n))\<rparr>
                       else n);
              Some (n, \<lparr>aer_Term = n_term n, aer_Success = True, aer_ConflictIndex = 0,
                        aer_ConflictTerm = 0\<rparr>) } } })"

text \<open>The early return after a failed \<open>saveSnapshot\<close> does not release the mutex.\<close>

definition HandleInstallSnapshot ::
  "codec \<Rightarrow> env \<Rightarrow> Node \<Rightarrow> InstallSnapshotRequest \<Rightarrow>
     (Node \<times> InstallSnapshotResponse \<times> effect list) option" where
  "HandleInstallSnapshot pb ev n req =
     (if is_Term req < n_term n then Some (n, \<lparr>isr_Term = n_term n\<rparr>, [])
      else do {
        n \<leftarrow> (if is_Term req > n_term n \<or> n_role n \<noteq> follower
              then stepDownLocked ev n (is_Term req) else Some n);
        n \<leftarrow> resetElectionTimerLocked ev (n\<lparr>n_leaderID := is_LeaderId req\<rparr>);
        let resp = \<lparr>isr_Term = n_term n\<rparr>;
        if is_LastIncludedIndex req \<le> ds_snapIndex (n_store n) then Some (n, resp, [])
        else do {
          let conf = (if length (is_ConfState req) > 0
                      then case decodeConfState (is_ConfState req) of
                             Inr cs \<Rightarrow> cs | Inl _ \<Rightarrow> n_conf n
                      else n_conf n);
          (n, err) \<leftarrow> with_store n (saveSnapshot pb (n_store n) (is_LastIncludedIndex req)
                       (is_LastIncludedTerm req) (is_Data req) conf);
          if err \<noteq> None then Some (n\<lparr>n_locked := True\<rparr>, resp, [])
          else Some (n\<lparr>n_conf := conf, n_commitIndex := is_LastIncludedIndex req,
                       n_lastApplied := is_LastIncludedIndex req\<rparr>, resp,
                     [Deliver (zero_msg\<lparr>SnapshotValid := True, am_Snapshot := is_Data req,
                        SnapshotIndex := is_LastIncludedIndex req,
                        SnapshotTerm := is_LastIncludedTerm req\<rparr>)]) } })"

definition Snapshot ::
  "codec \<Rightarrow> Node \<Rightarrow> u64 \<Rightarrow> bytes \<Rightarrow> (Node \<times> rerr option) option" where
  "Snapshot pb n index data =
     (if index > n_lastApplied n then Some (n, Some ErrBeyondApplied)
      else do {
        (t, ok) \<leftarrow> termAt (n_store n) index;
        if \<not> ok then Some (n, None)
        else map_option (\<lambda>(n, e). (n, map_option ErrStore e))
               (with_store n (saveSnapshot pb (n_store n) index t data (n_conf n))) })"

definition HandleReadIndex ::
  "env \<Rightarrow> Node \<Rightarrow> ReadIndexRequest \<Rightarrow> (Node \<times> ReadIndexResponse) option" where
  "HandleReadIndex ev n req =
     (let resp = \<lparr>rir_Term = n_term n, rir_Ack = False\<rparr> in
      if ri_Term req < n_term n then Some (n, resp)
      else do {
        n \<leftarrow> (if ri_Term req > n_term n then stepDownLocked ev n (ri_Term req) else Some n);
        if ri_Term req \<noteq> n_term n \<or> n_role n = candidate then Some (n, resp)
        else do {
          n \<leftarrow> resetElectionTimerLocked ev (n\<lparr>n_leaderID := ri_LeaderId req\<rparr>);
          Some (n, resp\<lparr>rir_Ack := True\<rparr>) } })"

subsection \<open>Linearizable reads\<close>

text \<open>A pending \<open>ReadIndex\<close> call: the variables its goroutines share.\<close>

record ReadOp =
  ro_term :: u64
  ro_readIdx :: u64
  ro_need :: nat
  ro_acks :: nat
  ro_done :: bool

definition readNeed :: "ConfState \<Rightarrow> nat" where
  "readNeed c =
     (let need = majority (length (AllPeerIDs c)) in
      if InJoint c
      then let need = (if majority (fcard (Joint c)) > need then majority (fcard (Joint c)) else need)
           in if majority (fcard (Voters c)) > need then majority (fcard (Voters c)) else need
      else need)"

definition ReadIndex :: "Node \<Rightarrow> rerr + ReadOp \<times> effect list" where
  "ReadIndex n =
     (if n_role n \<noteq> leader then Inl ErrNotLeader
      else Inr (\<lparr>ro_term = n_term n, ro_readIdx = n_commitIndex n, ro_need = readNeed (n_conf n),
                 ro_acks = 1, ro_done = False\<rparr>,
                map (\<lambda>p. SendReadIndex p \<lparr>ri_Term = n_term n, ri_LeaderId = n_id n\<rparr>)
                  (filter (\<lambda>p. p \<noteq> n_id n) (peerIDsLocked n))))"

definition onReadIndexResponse ::
  "env \<Rightarrow> Node \<Rightarrow> ReadOp \<Rightarrow> ReadIndexResponse \<Rightarrow> (Node \<times> ReadOp) option" where
  "onReadIndexResponse ev n op resp =
     (if rir_Term resp > n_term n
      then map_option (\<lambda>n. (n, op)) (stepDownLocked ev n (rir_Term resp))
      else if n_role n \<noteq> leader \<or> n_term n \<noteq> ro_term op then Some (n, op)
      else if rir_Ack resp then
        let op = op\<lparr>ro_acks := ro_acks op + 1\<rparr> in
        Some (n, if ro_acks op \<ge> ro_need op then op\<lparr>ro_done := True\<rparr> else op)
      else Some (n, op))"

text \<open>The branch of the final \<open>select\<close> that fires; the first needs the closed channel.\<close>

datatype wakeup = AcksDone | CtxDone | TimedOut

definition ReadIndex_return :: "Node \<Rightarrow> ReadOp \<Rightarrow> wakeup \<Rightarrow> (rerr + u64) option" where
  "ReadIndex_return n op w =
     (case w of
        AcksDone \<Rightarrow>
          if \<not> ro_done op then None
          else if \<not> (n_role n = leader \<and> n_term n = ro_term op) then Some (Inl ErrNotLeader)
          else Some (Inr (ro_readIdx op))
      | CtxDone \<Rightarrow> Some (Inl ErrContext)
      | TimedOut \<Rightarrow> Some (Inl ErrReadIndexTimeout))"

subsection \<open>Applying committed entries\<close>

definition leave_joint_maps ::
  "u64 \<Rightarrow> u64 list \<Rightarrow> (u64 \<rightharpoonup> u64) \<times> (u64 \<rightharpoonup> u64) \<Rightarrow> (u64 \<rightharpoonup> u64) \<times> (u64 \<rightharpoonup> u64)" where
  "leave_joint_maps lst ids =
     fold (\<lambda>i (nx, mt). if nx i = None then (nx(i \<mapsto> lst + 1), mt(i \<mapsto> 0)) else (nx, mt)) ids"

definition conf_addrs :: "Node \<Rightarrow> ConfChange \<Rightarrow> Node" where
  "conf_addrs n cc =
     (let n = (if cc_Context cc \<noteq> [] \<and> cc_Type cc = CONF_CHANGE_ADD_NODE
               then n\<lparr>n_addrs := (n_addrs n)(cc_NodeId cc \<mapsto> cc_Context cc)\<rparr> else n) in
      if cc_Type cc = CONF_CHANGE_REMOVE_NODE then
        let n = n\<lparr>n_addrs := (n_addrs n)(cc_NodeId cc := None)\<rparr> in
        if cc_NodeId cc = n_id n then n\<lparr>n_role := follower, n_leaderID := 0\<rparr> else n
      else n)"

definition conf_progress :: "Node \<Rightarrow> ConfChange \<Rightarrow> Node" where
  "conf_progress n cc =
     (case (n_role n, n_nextIndex n, n_matchIndex n) of
        (leader, Some nx, Some mt) \<Rightarrow>
          if cc_Type cc = CONF_CHANGE_ADD_NODE then
            (if nx (cc_NodeId cc) = None
             then n\<lparr>n_nextIndex := Some (nx(cc_NodeId cc \<mapsto> firstIndex (n_store n))),
                    n_matchIndex := Some (mt(cc_NodeId cc \<mapsto> 0))\<rparr> else n)
          else if cc_Type cc = CONF_CHANGE_REMOVE_NODE then
            n\<lparr>n_nextIndex := Some (nx(cc_NodeId cc := None)),
              n_matchIndex := Some (mt(cc_NodeId cc := None)),
              n_lastSentAt := (n_lastSentAt n)(cc_NodeId cc := None)\<rparr>
          else if cc_Type cc = CONF_CHANGE_LEAVE_JOINT then
            (let (nx', mt') = leave_joint_maps (lastIndex (n_store n)) (VoterIDs (n_conf n)) (nx, mt)
             in n\<lparr>n_nextIndex := Some nx', n_matchIndex := Some mt'\<rparr>)
          else n
      | _ \<Rightarrow> n)"

definition applyConfChangeLocked :: "Node \<Rightarrow> ConfChange \<Rightarrow> (Node \<times> rerr option) option" where
  "applyConfChangeLocked n cc =
     (case ApplyConfChange (n_conf n) cc of
        Inl NilMapPanic \<Rightarrow> None
      | Inl e \<Rightarrow> Some (n, Some (ErrConf e))
      | Inr nxt \<Rightarrow>
          let n = conf_progress (conf_addrs (n\<lparr>n_conf := nxt\<rparr>) cc) cc in
          map_option (\<lambda>(n, e). (n, map_option ErrStore e))
            (with_store n (setConfState (n_store n) (n_conf n))))"

definition conf_msg :: "Entry \<Rightarrow> ConfChange \<Rightarrow> ApplyMsg" where
  "conf_msg e cc = zero_msg\<lparr>ConfChangeValid := True, am_ConfChange := Some cc,
     ConfChangeIndex := e_Index e, ConfChangeTerm := e_Term e\<rparr>"

definition command_msg :: "Entry \<Rightarrow> ApplyMsg" where
  "command_msg e = zero_msg\<lparr>CommandValid := True, Command := e_Data e,
     CommandIndex := e_Index e, CommandTerm := e_Term e\<rparr>"

definition apply_entry :: "Node \<Rightarrow> Entry \<Rightarrow> (Node \<times> ApplyMsg) option" where
  "apply_entry n e =
     (case (e_Type e = ENTRY_CONF_CHANGE, e_ConfChange e) of
        (True, Some cc) \<Rightarrow> map_option (\<lambda>(n, _). (n, conf_msg e cc)) (applyConfChangeLocked n cc)
      | _ \<Rightarrow> Some (n, command_msg e))"

text \<open>The inner loop of the applier; the first argument bounds its iterations, each of which
  raises \<open>lastApplied\<close>.  \<open>None\<close> is a panic or exhausted fuel.\<close>

fun applier_loop :: "nat \<Rightarrow> Node \<Rightarrow> (Node \<times> ApplyMsg list) option" where
  "applier_loop fuel n =
     (if n_lastApplied n < n_commitIndex n then
        (case fuel of 0 \<Rightarrow> None
         | Suc f \<Rightarrow>
             let next = n_lastApplied n + 1 in
             if next < firstIndex (n_store n)
             then applier_loop f (n\<lparr>n_lastApplied := ds_snapIndex (n_store n)\<rparr>)
             else do {
               e \<leftarrow> entryAt (n_store n) next;
               (n, m) \<leftarrow> apply_entry n e;
               (n, ms) \<leftarrow> applier_loop f (n\<lparr>n_lastApplied := next\<rparr>);
               Some (n, m # ms) })
      else Some (n, []))"

definition applier :: "Node \<Rightarrow> (Node \<times> effect list) option" where
  "applier n =
     map_option (\<lambda>(n, ms). (n, map Deliver ms))
       (applier_loop (unat (n_commitIndex n) - unat (n_lastApplied n)) n)"

definition Stop :: "Node \<Rightarrow> Node option" where
  "Stop n = map_option fst (with_store n (store_close (n_store n)))"

declare conflict_scan.simps [simp del] conflict_start.simps [simp del] applier_loop.simps [simp del]

end
