(* ===== verification/RaftNodeFacts.thy ===== *)
theory RaftNodeFacts
  imports RaftNode
begin

text \<open>
  What the methods of a Raft node guarantee on their own: what each of them leaves alone, that
  terms grow and a vote is never taken back, that the log stays contiguous, that no handler
  panics, what a successful \<open>AppendEntries\<close> does to the log, when the commit index moves, and
  what the applier delivers.
\<close>

section \<open>A concrete node\<close>

text \<open>Server 1 of a cluster of three, in term 1, with one entry in its log, for the witnesses.\<close>

definition sample_env :: env where "sample_env = \<lparr>now = 1000, rnd = 0\<rparr>"

definition entry :: "u64 \<Rightarrow> u64 \<Rightarrow> Entry" where
  "entry t i = \<lparr>e_Term = t, e_Index = i, e_Data = [], e_Type = ENTRY_NORMAL, e_ConfChange = None\<rparr>"

definition sample_wal :: WAL where
  "sample_wal = \<lparr>w_disk = [], w_file = [], w_buf = [], w_off = 0, w_err = False, w_closed = False,
     w_io = []\<rparr>"

definition sample_store :: diskStorage where
  "sample_store = \<lparr>ds_wal = Some sample_wal, ds_meta = NoFile, ds_bin = NoFile, ds_confFile = NoFile,
     ds_term = 1, ds_votedFor = 0, ds_dirty = False, ds_conf = NewConfState [1, 2, 3],
     ds_log = [entry 1 1], ds_snapIndex = 0, ds_snapTerm = 0, ds_snapshot = []\<rparr>"

definition sample_node :: Node where
  "sample_node = \<lparr>n_cfg = \<lparr>cfg_ID = 1, cfg_Peers = [1, 2, 3], cfg_Addrs = Map.empty,
       ElectionTimeoutMin = 150, ElectionTimeoutMax = 300, HeartbeatInterval = 50\<rparr>,
     n_store = sample_store, n_conf = NewConfState [1, 2, 3], n_addrs = Map.empty,
     n_role = follower, n_leaderID = 0, n_commitIndex = 0, n_lastApplied = 0, n_nextIndex = None,
     n_matchIndex = None, n_lastSentAt = Map.empty, n_inflight = {}, n_electionDeadline = 0,
     n_votes = 0, n_kick = False, n_locked = False\<rparr>"

text \<open>The same server right after its first start, and a request for its vote.\<close>

definition boot_node :: Node where
  "boot_node = sample_node\<lparr>n_store := projr (openDiskStorage sample_codec [] empty_dir [1, 2, 3])\<rparr>"

definition vote_request :: "u64 \<Rightarrow> RequestVoteRequest" where
  "vote_request c = \<lparr>rv_Term = 1, rv_CandidateId = c, rv_LastLogIndex = 0, rv_LastLogTerm = 0\<rparr>"

lemmas sample_defs = sample_env_def entry_def sample_wal_def sample_store_def sample_node_def

lemmas wal_eval = wal_Append_def wal_Sync_def Append_def Sync_def buf_Write_def buf_Flush_def
  file_Sync_def try_then_def

lemmas store_eval = setHardState_def setConfState_def appendEntries_def truncate_conflict_def
  encodeEntry_def sync_def with_store_def termAt_def lastIndex_def firstIndex_def truncate_from_def

lemma boot_open:
  "openDiskStorage sample_codec [] empty_dir [1, 2, 3] = Inr (sample_store\<lparr>ds_term := 0, ds_log := []\<rparr>)"
  by (simp add: openDiskStorage_def load_snapshot_def empty_dir_def ReplayWAL_def OpenWAL_def
      numeral_2_eq_2 sample_store_def sample_wal_def)

lemma boot_node_store: "n_store boot_node = sample_store\<lparr>ds_term := 0, ds_log := []\<rparr>"
  by (simp add: boot_node_def boot_open)

lemma boot_reach: "store_reach sample_codec [1, 2, 3] (n_store boot_node)"
  unfolding boot_node_store by (rule store_reach.opened [OF boot_open]) (simp add: empty_dir_def)

lemma boot_voters: "Contains (NewConfState [1, 2, 3]) 1"
  by (simp add: Contains_def NewConfState_def)

lemma boot_grants:
  "\<exists>n' resp. HandleRequestVote sample_env boot_node (vote_request 2) = Some (n', resp)
     \<and> rvr_VoteGranted resp \<and> n_term n' = 1 \<and> n_votedFor n' = 2 \<and> \<not> n_locked n'"
  by (simp add: boot_node_def boot_open sample_defs HandleRequestVote_def vote_request_def
      stepDownLocked_def resetElectionTimerLocked_def wal_eval store_eval boot_voters upToDate_def Let_def)

section \<open>Frame lemmas\<close>

text \<open>Each method changes the node only in the fields written out here.\<close>

lemma u64_less_succ: "(w :: u64) < - 1 \<Longrightarrow> w < w + 1"
proof -
  assume "w < - 1"
  moreover have "(- 1 :: u64) = 18446744073709551615" by simp
  ultimately have "unat w < 18446744073709551615" by (simp add: word_less_nat_alt)
  then show ?thesis by (simp add: word_less_nat_alt unat_word_ariths)
qed

lemma with_store_Some:
  "with_store n m = Some (n', e) \<longleftrightarrow> (\<exists>s. m = Some (s, e) \<and> n' = n\<lparr>n_store := s\<rparr>)"
  by (auto simp: with_store_def split: option.splits)

lemma reset_mem:
  "resetElectionTimerLocked ev n = Some n' \<Longrightarrow> \<exists>d. n' = n\<lparr>n_electionDeadline := d\<rparr>"
  by (auto simp: resetElectionTimerLocked_def Let_def split: if_splits)

lemma stepDown_mem:
  assumes "stepDownLocked ev n t = Some n'"
  shows "\<exists>s d. n' = n\<lparr>n_store := s, n_role := follower, n_electionDeadline := d\<rparr> \<and>
    (if t > n_term n then \<exists>w. s = (n_store n)\<lparr>ds_term := t, ds_votedFor := 0, ds_wal := Some w\<rparr>
     else s = n_store n)"
proof (cases "t > n_term n")
  case True
  then obtain s e where s: "setHardState (n_store n) t 0 = Some (s, e)"
    and r: "resetElectionTimerLocked ev (n\<lparr>n_store := s, n_role := follower\<rparr>) = Some n'"
    using assms
    by (cases "setHardState (n_store n) t 0") (auto simp: stepDownLocked_def with_store_def)
  obtain d where d: "n' = n\<lparr>n_store := s, n_role := follower, n_electionDeadline := d\<rparr>"
    using reset_mem [OF r] by blast
  show ?thesis
    using True setHardState_mem [OF s] by (intro exI [of _ s] exI [of _ d]) (simp add: d)
next
  case False
  then have "resetElectionTimerLocked ev (n\<lparr>n_role := follower\<rparr>) = Some n'"
    using assms by (simp add: stepDownLocked_def)
  then obtain d where d: "n' = n\<lparr>n_role := follower, n_electionDeadline := d\<rparr>"
    using reset_mem by blast
  have "n' = n\<lparr>n_store := n_store n, n_role := follower, n_electionDeadline := d\<rparr>"
    unfolding d by (cases n) simp
  then show ?thesis using False by (intro exI [of _ "n_store n"] exI [of _ d]) simp
qed

text \<open>The part of the storage that the protocol reads, and what the operations do to it.\<close>

definition core :: "diskStorage \<Rightarrow> u64 \<times> u64 \<times> Entry list \<times> u64 \<times> u64" where
  "core s = (ds_term s, ds_votedFor s, ds_log s, ds_snapIndex s, ds_snapTerm s)"

lemma log_view:
  assumes "ds_log s' = ds_log s" "ds_snapIndex s' = ds_snapIndex s" "ds_snapTerm s' = ds_snapTerm s"
  shows "lastIndex s' = lastIndex s \<and> firstIndex s' = firstIndex s \<and> termAt s' = termAt s
    \<and> entriesFrom s' = entriesFrom s \<and> entryAt s' = entryAt s \<and> log_wf s' = log_wf s"
  unfolding lastIndex_def firstIndex_def termAt_def entriesFrom_def entryAt_def log_wf_def assms
  by simp

lemma core_set_io [simp]: "core (set_io s io) = core s"
  by (simp add: core_def)

lemma core_files [simp]:
  "core (s\<lparr>ds_wal := w\<rparr>) = core s" "core (s\<lparr>ds_dirty := b\<rparr>) = core s"
  "core (s\<lparr>ds_bin := f\<rparr>) = core s" "core (s\<lparr>ds_meta := f\<rparr>) = core s"
  "core (s\<lparr>ds_confFile := f\<rparr>) = core s" "core (s\<lparr>ds_conf := c\<rparr>) = core s"
  by (simp_all add: core_def)

lemma sync_core: "sync s = Some (s', e) \<Longrightarrow> core s' = core s"
  by (drule sync_mem) auto

lemma setConfState_core: "setConfState s c = Some (s', e) \<Longrightarrow> core s' = core s"
  by (drule setConfState_mem) auto

lemma store_close_core: "store_close s = Some (s', e) \<Longrightarrow> core s' = core s"
  by (auto simp: store_close_def split: option.splits prod.splits)

lemma swap_wal_core: "swap_wal s nw = Some (s', e) \<Longrightarrow> core s' = core s"
  by (auto simp: swap_wal_def try_then_def Let_def dest!: store_close_core
      split: option.splits prod.splits if_splits sum.splits)

lemma rewrite_wal_core: "rewrite_wal pb s = Some (s', e) \<Longrightarrow> core s' = core s"
  by (auto simp: rewrite_wal_def Let_def dest: swap_wal_core
      split: option.splits prod.splits sum.splits)

lemma appendEntries_keeps:
  "appendEntries pb s es = Some (s', e) \<Longrightarrow> ds_term s' = ds_term s \<and> ds_votedFor s' = ds_votedFor s
     \<and> ds_snapIndex s' = ds_snapIndex s \<and> ds_snapTerm s' = ds_snapTerm s"
  by (drule appendEntries_mem) (auto split: if_splits)

text \<open>A snapshot keeps term and vote; the log loses the entries up to the index, or nothing.\<close>

definition compacted :: "diskStorage \<Rightarrow> u64 \<Rightarrow> u64 \<Rightarrow> diskStorage" where
  "compacted s i t = s\<lparr>ds_log := filter (\<lambda>x. e_Index x > i) (ds_log s), ds_snapIndex := i, ds_snapTerm := t\<rparr>"

lemma saveSnapshot_core:
  assumes "saveSnapshot pb s i t data c = Some (s', e)"
  shows "core s' = core s \<or> (i > ds_snapIndex s \<and> core s' = core (compacted s i t))"
  using assms
  by (auto simp: saveSnapshot_def write_bin_def write_meta_def write_conf_def try_then_def Let_def
        not_le compacted_def core_def dest!: rewrite_wal_core [unfolded core_def]
      split: option.splits prod.splits if_splits)

section \<open>Terms and votes\<close>

text \<open>The order in which hard state evolves: to a higher term, or within a term from no vote to
  a vote.\<close>

definition hard_le :: "Node \<Rightarrow> Node \<Rightarrow> bool" where
  "hard_le n n' \<longleftrightarrow> n_term n < n_term n' \<or>
     (n_term n = n_term n' \<and> (n_votedFor n = 0 \<or> n_votedFor n' = n_votedFor n))"

lemma hard_le_refl [simp, intro]: "hard_le n n"
  by (simp add: hard_le_def)

lemma hard_le_trans [trans]: "hard_le a b \<Longrightarrow> hard_le b c \<Longrightarrow> hard_le a c"
  by (auto simp: hard_le_def)

text \<open>Methods that keep term and vote.\<close>

definition hard_eq :: "Node \<Rightarrow> Node \<Rightarrow> bool" where
  "hard_eq n n' \<longleftrightarrow> n_term n' = n_term n \<and> n_votedFor n' = n_votedFor n"

lemma hard_eq_le: "hard_eq n n' \<Longrightarrow> hard_le n n'"
  by (simp add: hard_eq_def hard_le_def)

lemma hard_eq_trans [trans]: "hard_eq a b \<Longrightarrow> hard_eq b c \<Longrightarrow> hard_eq a c"
  by (simp add: hard_eq_def)

lemma stepDown_hard_le:
  assumes "stepDownLocked ev n t = Some n'"
  shows "hard_le n n'"
proof -
  obtain s d where "n' = n\<lparr>n_store := s, n_role := follower, n_electionDeadline := d\<rparr>"
    "if t > n_term n then \<exists>w. s = (n_store n)\<lparr>ds_term := t, ds_votedFor := 0, ds_wal := Some w\<rparr>
     else s = n_store n"
    using stepDown_mem [OF assms] by blast
  then show ?thesis by (cases "t > n_term n") (auto simp: hard_le_def)
qed

lemma core_hard_eq:
  "core (n_store n') = core (n_store n) \<Longrightarrow> hard_eq n n'"
  by (simp add: core_def hard_eq_def)

lemma reset_store: "resetElectionTimerLocked ev n = Some n' \<Longrightarrow> n_store n' = n_store n"
  by (drule reset_mem) auto

lemma sendAppend_store: "sendAppendLocked ev n p = Some (n', es) \<Longrightarrow> n_store n' = n_store n"
  by (auto simp: sendAppendLocked_def Let_def split: if_splits bind_splits prod.splits)

lemma send_all_store: "send_all ev n ps = Some (n', es) \<Longrightarrow> n_store n' = n_store n"
proof (induction ps arbitrary: n es)
  case (Cons p ps)
  then show ?case
    by (auto dest!: sendAppend_store split: if_splits bind_splits)
qed simp

lemma broadcast_core:
  "broadcastAppendLocked ev n = Some (n', es) \<Longrightarrow> core (n_store n') = core (n_store n)"
  by (auto simp: broadcastAppendLocked_def with_store_def dest!: send_all_store sync_core
      split: if_splits option.splits prod.splits bind_splits)

lemma advanceCommit_core:
  "advanceCommitLocked n = Some n' \<Longrightarrow> core (n_store n') = core (n_store n)"
  by (auto simp: advanceCommitLocked_def with_store_def Let_def kickRun_def dest!: sync_core
      split: if_splits option.splits prod.splits bind_splits)

lemma with_store_appendEntries_hard:
  "with_store n (appendEntries pb (n_store n) es) = Some (n', e) \<Longrightarrow> hard_eq n n'"
  by (auto simp: with_store_Some hard_eq_def dest!: appendEntries_keeps)

lemma appendEntryLocked_hard: "appendEntryLocked pb n x = Some (n', r) \<Longrightarrow> hard_eq n n'"
  by (auto simp: appendEntryLocked_def kickRun_def hard_eq_def dest!: with_store_appendEntries_hard
      split: option.splits bind_splits)

lemma Propose_hard: "Propose pb n c = Some (n', r) \<Longrightarrow> hard_eq n n'"
  by (auto simp: Propose_def hard_eq_def dest!: appendEntryLocked_hard split: if_splits)

lemma ProposeConfChange_hard: "ProposeConfChange pb n c = Some (n', r) \<Longrightarrow> hard_eq n n'"
  by (auto simp: ProposeConfChange_def hard_eq_def dest!: appendEntryLocked_hard
      split: if_splits sum.splits conf_err.splits)

lemma becomeLeader_hard: "becomeLeaderLocked pb ev n = Some (n', es) \<Longrightarrow> hard_eq n n'"
  by (auto simp: becomeLeaderLocked_def Let_def core_def hard_eq_def with_store_Some
      dest!: appendEntries_keeps broadcast_core split: if_splits bind_splits)

lemma onVoteResponse_hard: "onVoteResponse pb ev n t resp = Some (n', es) \<Longrightarrow> hard_le n n'"
  by (auto simp: onVoteResponse_def Let_def hard_eq_def hard_le_def
      dest!: becomeLeader_hard stepDown_hard_le split: if_splits)

text \<open>An election moves to the next term; at the largest term the counter would wrap around.\<close>

lemma startElection_hard:
  assumes "startElectionLocked ev n = Some (n', es)" "n_term n < - 1"
  shows "hard_le n n'"
proof -
  have "n_term n < n_term n + 1" by (rule u64_less_succ [OF assms(2)])
  then show ?thesis
    using assms(1)
    by (auto simp: startElectionLocked_def Let_def hard_le_def with_store_Some
        dest!: reset_store setHardState_mem split: if_splits bind_splits)
qed

lemma run_body_hard:
  "run_body ev n = Some (n', es) \<Longrightarrow> n_term n < - 1 \<Longrightarrow> hard_le n n'"
  by (auto simp: run_body_def dest: startElection_hard core_hard_eq [THEN hard_eq_le, OF broadcast_core]
      split: role.splits if_splits)

lemma nil_put_Some [simp]: "nil_put m k v = Some m' \<longleftrightarrow> (\<exists>f. m = Some f \<and> m' = Some (f(k \<mapsto> v)))"
  by (auto simp: nil_put_def split: option.splits)

lemma onAppendResponse_hard: "onAppendResponse ev n p req resp = Some n' \<Longrightarrow> hard_le n n'"
  by (auto simp: onAppendResponse_def Let_def kickRun_def core_def hard_le_def
      dest!: advanceCommit_core stepDown_hard_le split: if_splits bind_splits)

lemma onSnapshotResponse_hard: "onSnapshotResponse ev n p req resp = Some n' \<Longrightarrow> hard_le n n'"
  by (auto simp: onSnapshotResponse_def Let_def hard_le_def
      dest!: stepDown_hard_le split: if_splits bind_splits)

lemma HandleRequestVote_hard: "HandleRequestVote ev n req = Some (n', resp) \<Longrightarrow> hard_le n n'"
  by (auto simp: HandleRequestVote_def Let_def hard_le_def with_store_Some
      dest!: stepDown_hard_le setHardState_mem reset_store split: if_splits bind_splits)

lemma HandleAppendEntries_hard:
  "HandleAppendEntries pb ev n req = Some (n', resp) \<Longrightarrow> hard_le n n'"
  by (auto simp: HandleAppendEntries_def storeEntries_def try_then_def core_def Let_def hard_le_def
        with_store_Some
      dest!: stepDown_hard_le reset_store appendEntries_keeps sync_core
      split: if_splits bind_splits option.splits)

lemma HandleInstallSnapshot_hard:
  "HandleInstallSnapshot pb ev n req = Some (n', resp, es) \<Longrightarrow> hard_le n n'"
  by (auto simp: HandleInstallSnapshot_def core_def compacted_def Let_def hard_le_def with_store_Some
      dest!: stepDown_hard_le reset_store saveSnapshot_core split: if_splits bind_splits)

lemma Snapshot_hard: "Snapshot pb n i d = Some (n', e) \<Longrightarrow> hard_eq n n'"
  by (auto simp: Snapshot_def core_def compacted_def hard_eq_def with_store_Some
      dest!: saveSnapshot_core split: if_splits bind_splits)

lemma HandleReadIndex_hard: "HandleReadIndex ev n req = Some (n', resp) \<Longrightarrow> hard_le n n'"
  by (auto simp: HandleReadIndex_def Let_def hard_le_def
      dest!: stepDown_hard_le reset_store split: if_splits bind_splits)

lemma onReadIndexResponse_hard: "onReadIndexResponse ev n op resp = Some (n', op') \<Longrightarrow> hard_le n n'"
  by (auto simp: onReadIndexResponse_def Let_def dest!: stepDown_hard_le split: if_splits)

lemma conf_fields [simp]:
  "n_store (conf_progress n cc) = n_store n" "n_store (conf_addrs n cc) = n_store n"
  "n_conf (conf_progress n cc) = n_conf n" "n_conf (conf_addrs n cc) = n_conf n"
  "n_commitIndex (conf_progress n cc) = n_commitIndex n" "n_commitIndex (conf_addrs n cc) = n_commitIndex n"
  "n_lastApplied (conf_progress n cc) = n_lastApplied n" "n_lastApplied (conf_addrs n cc) = n_lastApplied n"
  "n_cfg (conf_progress n cc) = n_cfg n" "n_cfg (conf_addrs n cc) = n_cfg n"
  by (auto simp: conf_progress_def conf_addrs_def Let_def
      split: role.splits option.splits prod.splits if_splits)

lemma applyConfChange_keeps:
  "applyConfChangeLocked n cc = Some (n', e) \<Longrightarrow> core (n_store n') = core (n_store n) \<and>
     n_commitIndex n' = n_commitIndex n \<and> n_lastApplied n' = n_lastApplied n \<and> n_cfg n' = n_cfg n"
  by (auto simp: applyConfChangeLocked_def Let_def with_store_Some dest!: setConfState_core
      split: sum.splits conf_err.splits)

lemma apply_entry_keeps:
  "apply_entry n e = Some (n', m) \<Longrightarrow> core (n_store n') = core (n_store n) \<and>
     n_commitIndex n' = n_commitIndex n \<and> n_lastApplied n' = n_lastApplied n \<and> n_cfg n' = n_cfg n"
  by (auto simp: apply_entry_def dest!: applyConfChange_keeps split: bool.splits option.splits)

lemma applier_loop_keeps:
  "applier_loop f n = Some (n', ms) \<Longrightarrow> core (n_store n') = core (n_store n) \<and>
     n_commitIndex n' = n_commitIndex n \<and> n_cfg n' = n_cfg n"
proof (induction f arbitrary: n ms)
  case 0
  then show ?case by (subst (asm) applier_loop.simps) (auto split: if_splits)
next
  case (Suc f)
  from Suc.prems show ?case
    by (subst (asm) applier_loop.simps)
      (auto simp: Let_def dest!: Suc.IH apply_entry_keeps split: if_splits bind_splits)
qed

lemma applier_hard: "applier n = Some (n', es) \<Longrightarrow> hard_eq n n'"
  by (auto simp: applier_def core_def hard_eq_def dest!: applier_loop_keeps)

lemma Stop_hard: "Stop n = Some n' \<Longrightarrow> hard_eq n n'"
  by (auto simp: Stop_def core_def hard_eq_def with_store_Some dest!: store_close_core)

section \<open>Runs of a node\<close>

text \<open>
  One step of a node that can take its mutex: any of its methods, with any arguments, or the
  arrival of any response.  Elections need a term that the 64-bit counter can still raise.
\<close>

inductive node_step :: "codec \<Rightarrow> Node \<Rightarrow> Node \<Rightarrow> bool" for pb n where
  propose: "\<not> n_locked n \<Longrightarrow> Propose pb n c = Some (n', r) \<Longrightarrow> node_step pb n n'"
| propose_conf: "\<not> n_locked n \<Longrightarrow> ProposeConfChange pb n cc = Some (n', r) \<Longrightarrow> node_step pb n n'"
| tick: "\<not> n_locked n \<Longrightarrow> n_term n < - 1 \<Longrightarrow> run_tick ev n = Some (n', es) \<Longrightarrow> node_step pb n n'"
| kick: "\<not> n_locked n \<Longrightarrow> n_term n < - 1 \<Longrightarrow> run_kick ev n = Some (n', es) \<Longrightarrow> node_step pb n n'"
| vote_resp: "\<not> n_locked n \<Longrightarrow> onVoteResponse pb ev n t vr = Some (n', es) \<Longrightarrow> node_step pb n n'"
| append_resp: "\<not> n_locked n \<Longrightarrow> onAppendResponse ev n p ar ap = Some n' \<Longrightarrow> node_step pb n n'"
| snap_resp: "\<not> n_locked n \<Longrightarrow> onSnapshotResponse ev n p sr sp = Some n' \<Longrightarrow> node_step pb n n'"
| read_resp: "\<not> n_locked n \<Longrightarrow> onReadIndexResponse ev n op rr = Some (n', op') \<Longrightarrow> node_step pb n n'"
| rpc_done: "\<not> n_locked n \<Longrightarrow> n' = clearInflight n p \<Longrightarrow> node_step pb n n'"
| vote_req: "\<not> n_locked n \<Longrightarrow> HandleRequestVote ev n vq = Some (n', vr) \<Longrightarrow> node_step pb n n'"
| append_req: "\<not> n_locked n \<Longrightarrow> HandleAppendEntries pb ev n aq = Some (n', ap) \<Longrightarrow> node_step pb n n'"
| snap_req: "\<not> n_locked n \<Longrightarrow> HandleInstallSnapshot pb ev n sq = Some (n', sp, es) \<Longrightarrow> node_step pb n n'"
| read_req: "\<not> n_locked n \<Longrightarrow> HandleReadIndex ev n rq = Some (n', rr) \<Longrightarrow> node_step pb n n'"
| snapshot: "\<not> n_locked n \<Longrightarrow> Snapshot pb n i d = Some (n', e) \<Longrightarrow> node_step pb n n'"
| applying: "\<not> n_locked n \<Longrightarrow> applier n = Some (n', es) \<Longrightarrow> node_step pb n n'"
| stop: "\<not> n_locked n \<Longrightarrow> Stop n = Some n' \<Longrightarrow> node_step pb n n'"

lemma run_kick_hard: "run_kick ev n = Some (n', es) \<Longrightarrow> n_term n < - 1 \<Longrightarrow> hard_le n n'"
  by (auto simp: run_kick_def hard_le_def dest!: run_body_hard split: if_splits)

lemmas method_hard =
  run_body_hard run_kick_hard onVoteResponse_hard onAppendResponse_hard onSnapshotResponse_hard
  onReadIndexResponse_hard HandleRequestVote_hard HandleAppendEntries_hard
  HandleInstallSnapshot_hard HandleReadIndex_hard

lemmas method_hard_eq =
  Propose_hard ProposeConfChange_hard Snapshot_hard applier_hard Stop_hard

lemma node_step_hard: "node_step pb n n' \<Longrightarrow> hard_le n n'"
  by (induction rule: node_step.induct)
    (auto simp: run_tick_def clearInflight_def hard_le_def [of _ "_\<lparr>n_inflight := _\<rparr>"]
      dest: method_hard method_hard_eq [THEN hard_eq_le])

lemma node_run_hard: "(node_step pb)\<^sup>*\<^sup>* n n' \<Longrightarrow> hard_le n n'"
  by (induction rule: rtranclp_induct) (auto dest: node_step_hard hard_le_trans)

section \<open>The log\<close>

text \<open>The log as a partial function from indices to entries.\<close>

definition log_at :: "diskStorage \<Rightarrow> nat \<Rightarrow> Entry option" where
  "log_at s i = (if unat (ds_snapIndex s) < i \<and> i \<le> unat (ds_snapIndex s) + length (ds_log s)
     then Some (ds_log s ! (i - Suc (unat (ds_snapIndex s)))) else None)"

lemma log_at_core: "core s' = core s \<Longrightarrow> log_at s' = log_at s"
  by (auto simp: core_def log_at_def)

lemma log_wf_core: "core s' = core s \<Longrightarrow> log_wf s' = log_wf s"
  by (auto simp: core_def log_wf_def)

lemma entries_from_simps:
  "entries_from m [] \<longleftrightarrow> m < 2 ^ 64"
  "entries_from m (x # xs) \<longleftrightarrow> unat (e_Index x) = m \<and> entries_from (Suc m) xs"
  by (auto simp: entries_from_def nth_Cons less_Suc_eq_0_disj split: nat.splits)

text \<open>Appending at index \<open>m\<close>: the log is cut there and continues with the entries.\<close>

lemma appendEntries_log:
  assumes "appendEntries pb s es = Some (s', e)" "log_wf s" "es \<noteq> []" "entries_from m es"
    "unat (ds_snapIndex s) < m" "m \<le> Suc (unat (ds_snapIndex s) + length (ds_log s))"
  shows "log_wf s' \<and> (e = None \<longrightarrow> ds_log s' = take (m - Suc (unat (ds_snapIndex s))) (ds_log s) @ es)"
proof -
  have hd: "unat (e_Index (hd es)) = m"
    using assms(3,4) by (cases es) (auto simp: entries_from_def)
  let ?t = "take (m - Suc (unat (ds_snapIndex s))) (ds_log s)"
  have tr: "truncate_from (e_Index (hd es)) (ds_log s) = ?t"
    using truncate_from_wf [OF assms(2)] hd by simp
  have wf: "entries_from (Suc (unat (ds_snapIndex s))) (?t @ take k es)" for k
    using log_wf_splice [OF assms(2) entries_from_take [OF assms(4)] assms(5,6)] .
  have all: "entries_from (Suc (unat (ds_snapIndex s))) (?t @ es)" using wf [of "length es"] by simp
  show ?thesis
  proof (cases e)
    case None
    then obtain w b where "s' = s\<lparr>ds_wal := w, ds_dirty := b, ds_log := ?t @ es\<rparr>"
      using appendEntries_mem [OF assms(1)] assms(3) tr by auto
    then show ?thesis using all by (simp add: log_wf_entries_from)
  next
    case (Some x)
    then consider (a) w where "s' = s\<lparr>ds_wal := w\<rparr>"
      | (b) w k where "s' = s\<lparr>ds_wal := w, ds_log := ?t @ take k es\<rparr>"
      using appendEntries_mem [OF assms(1)] tr by auto
    then show ?thesis
    proof cases
      case a
      then show ?thesis using assms(2) Some by (simp add: log_wf_def)
    next
      case b
      then show ?thesis using wf [of k] Some by (simp add: log_wf_entries_from)
    qed
  qed
qed

text \<open>The loop of \<open>HandleAppendEntries\<close> skips what the log already has.\<close>

lemma first_new_spec:
  assumes "log_wf s" "entries_from (Suc p) es" "p \<le> unat (ds_snapIndex s) + length (ds_log s)"
  shows "\<exists>k \<le> length es. first_new s es = Some (drop k es) \<and>
    (\<forall>j < k. unat (ds_snapIndex s) < Suc p + j \<longrightarrow>
       map_option e_Term (log_at s (Suc p + j)) = Some (e_Term (es ! j))) \<and>
    (k < length es \<longrightarrow> unat (ds_snapIndex s) < Suc p + k
       \<and> Suc p + k \<le> Suc (unat (ds_snapIndex s) + length (ds_log s))
       \<and> map_option e_Term (log_at s (Suc p + k)) \<noteq> Some (e_Term (es ! k)))"
  using assms(2,3)
proof (induction es arbitrary: p)
  case Nil
  then show ?case by simp
next
  case (Cons x es)
  let ?sn = "unat (ds_snapIndex s)" and ?ln = "unat (ds_snapIndex s) + length (ds_log s)"
  have ix: "unat (e_Index x) = Suc p" using Cons.prems(1) by (auto simp: entries_from_def)
  have es: "entries_from (Suc (Suc p)) es"
    using Cons.prems(1) by (auto simp: entries_from_def)
  have last: "e_Index x \<le> lastIndex s \<longleftrightarrow> Suc p \<le> ?ln"
    using unat_lastIndex [OF assms(1)] ix by (simp add: word_le_nat_alt)
  have snap: "e_Index x \<le> ds_snapIndex s \<longleftrightarrow> Suc p \<le> ?sn" using ix by (simp add: word_le_nat_alt)
  have tm: "termAt s (e_Index x) = Some (e_Term (the (log_at s (Suc p))), True)"
    if "?sn < Suc p" "Suc p \<le> ?ln"
    using that ix by (simp add: termAt_wf [OF assms(1)] log_at_def)
  have skip: ?case if f: "first_new s (x # es) = first_new s es" and l: "Suc p \<le> ?ln"
    and m: "?sn < Suc p \<longrightarrow> map_option e_Term (log_at s (Suc p)) = Some (e_Term x)"
  proof -
    obtain k where k: "k \<le> length es" "first_new s es = Some (drop k es)"
      "\<forall>j<k. ?sn < Suc (Suc p) + j \<longrightarrow>
         map_option e_Term (log_at s (Suc (Suc p) + j)) = Some (e_Term (es ! j))"
      "k < length es \<longrightarrow> ?sn < Suc (Suc p) + k \<and> Suc (Suc p) + k \<le> Suc ?ln \<and>
         map_option e_Term (log_at s (Suc (Suc p) + k)) \<noteq> Some (e_Term (es ! k))"
      using Cons.IH [OF es l] by blast
    show ?thesis
    proof (intro exI [of _ "Suc k"] conjI)
      show "\<forall>j<Suc k. ?sn < Suc p + j \<longrightarrow>
         map_option e_Term (log_at s (Suc p + j)) = Some (e_Term ((x # es) ! j))"
        using k(3) m by (auto simp: less_Suc_eq_0_disj)
    qed (use k f in auto)
  qed
  consider "Suc p \<le> ?sn" | "?sn < Suc p" "Suc p \<le> ?ln" "e_Term (the (log_at s (Suc p))) = e_Term x"
    | "?sn < Suc p" "Suc p \<le> ?ln" "e_Term (the (log_at s (Suc p))) \<noteq> e_Term x" | "?ln < Suc p"
    by linarith
  then show ?case
  proof cases
    case 1
    then show ?thesis by (intro skip) (auto simp: snap)
  next
    case 2
    then show ?thesis by (intro skip) (auto simp: snap last tm, simp_all add: log_at_def)
  next
    case 3
    then show ?thesis by (intro exI [of _ 0]) (auto simp: snap last tm)
  next
    case 4
    then show ?thesis
      using Cons.prems(2) by (intro exI [of _ 0]) (auto simp: snap last log_at_def)
  qed
qed

lemma prevCheck_pass:
  assumes "prevCheck n req = Some None" "log_wf (n_store n)"
  shows "unat (ae_PrevLogIndex req) \<le> unat (ds_snapIndex (n_store n)) + length (ds_log (n_store n)) \<and>
    (ae_PrevLogIndex req = ds_snapIndex (n_store n) \<longrightarrow> ds_snapTerm (n_store n) = ae_PrevLogTerm req) \<and>
    (unat (ds_snapIndex (n_store n)) < unat (ae_PrevLogIndex req) \<longrightarrow>
       map_option e_Term (log_at (n_store n) (unat (ae_PrevLogIndex req))) = Some (ae_PrevLogTerm req))"
proof -
  let ?s = "n_store n" and ?p = "ae_PrevLogIndex req"
  have le: "\<not> ?p > lastIndex ?s" using assms(1) by (auto simp: prevCheck_def Let_def split: if_splits)
  have ge: "?p \<ge> firstIndex ?s \<longleftrightarrow> unat (ds_snapIndex ?s) < unat ?p"
    using unat_firstIndex [OF assms(2)] by (simp add: word_le_nat_alt Suc_le_eq)
  have "termAt ?s ?p = Some (ae_PrevLogTerm req, True)"
    if "unat (ds_snapIndex ?s) < unat ?p \<or> ?p = ds_snapIndex ?s"
    using assms(1) that le ge
    by (auto simp: prevCheck_def Let_def split: if_splits bind_splits)
  then show ?thesis
    using le unat_lastIndex [OF assms(2)]
    by (auto simp: termAt_wf [OF assms(2)] log_at_def word_less_nat_alt not_less split: if_splits)
qed

lemma storeEntries_hard: "storeEntries pb n es = Some (n', e) \<Longrightarrow> hard_eq n n'"
  by (auto simp: storeEntries_def with_store_Some try_then_def core_def hard_eq_def
      dest!: appendEntries_keeps sync_core split: if_splits option.splits)

lemma storeEntries_log:
  assumes "storeEntries pb n es = Some (n', e)" "log_wf (n_store n)" "es \<noteq> [] \<Longrightarrow> entries_from m es"
    "es \<noteq> [] \<Longrightarrow> unat (ds_snapIndex (n_store n)) < m"
    "es \<noteq> [] \<Longrightarrow> m \<le> Suc (unat (ds_snapIndex (n_store n)) + length (ds_log (n_store n)))"
  shows "\<exists>s. n' = n\<lparr>n_store := s\<rparr> \<and> log_wf s \<and> ds_snapIndex s = ds_snapIndex (n_store n) \<and>
    (e = None \<longrightarrow> ds_log s = (if es = [] then ds_log (n_store n)
       else take (m - Suc (unat (ds_snapIndex (n_store n)))) (ds_log (n_store n)) @ es))"
proof (cases "es = []")
  case True
  then have "n' = n" using assms(1) by (simp add: storeEntries_def)
  then have "n' = n\<lparr>n_store := n_store n\<rparr>" by simp
  then show ?thesis using True assms(2) by (intro exI [of _ "n_store n"]) simp
next
  case False
  obtain s where s: "try_then (appendEntries pb (n_store n) es) sync = Some (s, e)"
      and n': "n' = n\<lparr>n_store := s\<rparr>"
    using assms(1) False by (auto simp: storeEntries_def with_store_Some)
  obtain s1 e1 where a: "appendEntries pb (n_store n) es = Some (s1, e1)"
    using s by (auto simp: try_then_def split: option.splits)
  note log = appendEntries_log [OF a assms(2) False assms(3-5) [OF False]]
  note keep = appendEntries_keeps [OF a]
  show ?thesis
  proof (cases e1)
    case None
    then have "sync s1 = Some (s, e)" using s a by (simp add: try_then_def)
    from sync_core [OF this] show ?thesis
      using log keep None False n' log_wf_core [of s s1] by (auto simp: core_def)
  next
    case (Some x)
    then have "s = s1 \<and> e = Some x" using s a by (simp add: try_then_def)
    then show ?thesis using log keep n' False by auto
  qed
qed

lemma stepDown_reach:
  assumes "store_reach pb boot (n_store n)" "stepDownLocked ev n t = Some n'"
  shows "store_reach pb boot (n_store n')"
proof (cases "t > n_term n")
  case True
  then obtain s e where s: "setHardState (n_store n) t 0 = Some (s, e)"
    and r: "resetElectionTimerLocked ev (n\<lparr>n_store := s, n_role := follower\<rparr>) = Some n'"
    using assms(2)
    by (cases "setHardState (n_store n) t 0") (auto simp: stepDownLocked_def with_store_def)
  have "store_reach pb boot s"
    using store_reach.step [OF assms(1), of "StHard t 0" s e] s by simp
  then show ?thesis using reset_store [OF r] by simp
next
  case False
  then show ?thesis using assms reset_store by (fastforce simp: stepDownLocked_def)
qed

text \<open>The start of the two replication handlers: adopt the leader's term, become a follower,
  note the leader, restart the timer.  The log and its bookkeeping are untouched.\<close>

definition adopted :: "Node \<Rightarrow> u64 \<Rightarrow> u64 \<Rightarrow> Node \<Rightarrow> bool" where
  "adopted n t l n1 \<longleftrightarrow> n_term n1 = t \<and> n_role n1 = follower \<and> n_leaderID n1 = l
     \<and> log_at (n_store n1) = log_at (n_store n) \<and> ds_log (n_store n1) = ds_log (n_store n)
     \<and> ds_snapIndex (n_store n1) = ds_snapIndex (n_store n)
     \<and> ds_snapTerm (n_store n1) = ds_snapTerm (n_store n)
     \<and> n_conf n1 = n_conf n \<and> n_cfg n1 = n_cfg n \<and> n_commitIndex n1 = n_commitIndex n
     \<and> n_lastApplied n1 = n_lastApplied n \<and> n_locked n1 = n_locked n
     \<and> (\<forall>pb boot. store_reach pb boot (n_store n) \<longrightarrow> store_reach pb boot (n_store n1))"

lemma adopt:
  assumes "(if t > n_term n \<or> n_role n \<noteq> follower then stepDownLocked ev n t else Some n) = Some n0"
    "\<not> t < n_term n" "resetElectionTimerLocked ev (n0\<lparr>n_leaderID := l\<rparr>) = Some n1"
  shows "adopted n t l n1"
proof -
  obtain d where d: "n1 = n0\<lparr>n_leaderID := l, n_electionDeadline := d\<rparr>"
    using reset_mem [OF assms(3)] by auto
  have reach: "store_reach pb boot (n_store n) \<longrightarrow> store_reach pb boot (n_store n1)" for pb boot
    using assms(1) stepDown_reach [of pb boot n ev t n0] d by (auto split: if_splits)
  show ?thesis
  proof (cases "t > n_term n \<or> n_role n \<noteq> follower")
    case True
    then have "stepDownLocked ev n t = Some n0" using assms(1) by simp
    then obtain s d' where "n0 = n\<lparr>n_store := s, n_role := follower, n_electionDeadline := d'\<rparr>"
      "if t > n_term n then \<exists>w. s = (n_store n)\<lparr>ds_term := t, ds_votedFor := 0, ds_wal := Some w\<rparr>
       else s = n_store n"
      using stepDown_mem by blast
    then show ?thesis
      using assms(2) d reach by (cases "t > n_term n") (auto simp: adopted_def log_at_def fun_eq_iff)
  next
    case False
    then show ?thesis using assms d reach by (auto simp: adopted_def)
  qed
qed

lemma adopted_wf: "adopted n t l n1 \<Longrightarrow> log_wf (n_store n1) = log_wf (n_store n)"
  by (simp add: adopted_def log_wf_def)

lemma HandleAppendEntries_cases:
  assumes "HandleAppendEntries pb ev n req = Some (n', resp)"
  obtains
    (stale) "ae_Term req < n_term n" "n' = n" "resp = appendReject (n_term n) 0 0"
  | (rejected) "adopted n (ae_Term req) (ae_LeaderId req) n'" "prevCheck n' req = Some (Some resp)"
  | (failed) n1 es x where "adopted n (ae_Term req) (ae_LeaderId req) n1" "prevCheck n1 req = Some None"
      "first_new (n_store n1) (ae_Entries req) = Some es" "storeEntries pb n1 es = Some (n', Some x)"
      "resp = appendReject (n_term n') 0 0"
  | (stored) n1 es n2 where "adopted n (ae_Term req) (ae_LeaderId req) n1" "prevCheck n1 req = Some None"
      "first_new (n_store n1) (ae_Entries req) = Some es" "storeEntries pb n1 es = Some (n2, None)"
      "n' = n2\<lparr>n_commitIndex := (if ae_LeaderCommit req > n_commitIndex n2
         then min (ae_LeaderCommit req) (max (ae_PrevLogIndex req + word_of_nat (length (ae_Entries req)))
           (n_commitIndex n2)) else n_commitIndex n2)\<rparr>"
      "resp = \<lparr>aer_Term = n_term n', aer_Success = True, aer_ConflictIndex = 0, aer_ConflictTerm = 0\<rparr>"
proof (cases "ae_Term req < n_term n")
  case True
  show ?thesis by (rule stale) (use True assms in \<open>auto simp: HandleAppendEntries_def\<close>)
next
  case False
  obtain n0 n1 rej where
      n0: "(if ae_Term req > n_term n \<or> n_role n \<noteq> follower then stepDownLocked ev n (ae_Term req)
            else Some n) = Some n0"
    and n1: "resetElectionTimerLocked ev (n0\<lparr>n_leaderID := ae_LeaderId req\<rparr>) = Some n1"
    and rej: "prevCheck n1 req = Some rej"
    and rest: "(case rej of Some resp \<Rightarrow> Some (n1, resp)
        | None \<Rightarrow> do {
            toAppend \<leftarrow> first_new (n_store n1) (ae_Entries req);
            (n, err) \<leftarrow> storeEntries pb n1 toAppend;
            if err \<noteq> None then Some (n, appendReject (n_term n) 0 0)
            else do {
              let n = (if ae_LeaderCommit req > n_commitIndex n
                       then let lastNew = ae_PrevLogIndex req + word_of_nat (length (ae_Entries req))
                            in n\<lparr>n_commitIndex := min (ae_LeaderCommit req) (max lastNew (n_commitIndex n))\<rparr>
                       else n);
              Some (n, \<lparr>aer_Term = n_term n, aer_Success = True, aer_ConflictIndex = 0,
                        aer_ConflictTerm = 0\<rparr>) } }) = Some (n', resp)"
    using assms False unfolding HandleAppendEntries_def
    by (simp only: if_False bind_eq_Some_conv) (elim exE conjE, rule that)
  note ad = adopt [OF n0 False n1]
  show ?thesis
  proof (cases rej)
    case (Some r)
    show ?thesis by (rule rejected) (use rest ad rej Some in simp_all)
  next
    case None
    then obtain es n2 err where st: "first_new (n_store n1) (ae_Entries req) = Some es"
        "storeEntries pb n1 es = Some (n2, err)"
      using rest by (auto split: bind_splits)
    show ?thesis
    proof (cases err)
      case None
      show ?thesis
        by (rule stored [OF ad _ st(1) st(2) [unfolded None]])
          (use rest st None \<open>rej = None\<close> rej in \<open>auto simp: Let_def\<close>)
    next
      case (Some x)
      show ?thesis
        by (rule failed [OF ad _ st(1)]) (use rest st Some \<open>rej = None\<close> rej in \<open>auto\<close>)
    qed
  qed
qed

text \<open>The log after entries that start at \<open>p + 1\<close> were merged into it, cut at \<open>c\<close>.\<close>

definition merged :: "diskStorage \<Rightarrow> nat \<Rightarrow> Entry list \<Rightarrow> nat \<Rightarrow> diskStorage \<Rightarrow> bool" where
  "merged s p es c s' \<longleftrightarrow> unat (ds_snapIndex s) < c \<and>
     (\<forall>i. log_at s' i = (if i < c then log_at s i
        else if p < i \<and> i \<le> p + length es then Some (es ! (i - Suc p)) else None)) \<and>
     (\<forall>i. p < i \<and> i < c \<and> i \<le> p + length es \<and> unat (ds_snapIndex s) < i \<longrightarrow>
        map_option e_Term (log_at s i) = Some (e_Term (es ! (i - Suc p)))) \<and>
     (log_at s c \<noteq> None \<longrightarrow> p < c \<and> c \<le> p + length es \<and>
        map_option e_Term (log_at s c) \<noteq> Some (e_Term (es ! (c - Suc p))))"

lemma merged_store:
  assumes wf: "log_wf s" and es: "entries_from (Suc p) es"
    and p: "p \<le> unat (ds_snapIndex s) + length (ds_log s)"
    and fn: "first_new s es = Some new" and snap: "ds_snapIndex s' = ds_snapIndex s"
    and log: "\<And>k. new = drop k es \<Longrightarrow> k < length es \<Longrightarrow> unat (ds_snapIndex s) < Suc p + k \<Longrightarrow>
       ds_log s' = take (Suc p + k - Suc (unat (ds_snapIndex s))) (ds_log s) @ new"
    and same: "new = [] \<Longrightarrow> ds_log s' = ds_log s"
  shows "\<exists>c. merged s p es c s'"
proof -
  let ?sn = "unat (ds_snapIndex s)" and ?ln = "unat (ds_snapIndex s) + length (ds_log s)"
  obtain k where k: "k \<le> length es" "new = drop k es"
    "\<And>j. j < k \<Longrightarrow> ?sn < Suc p + j \<Longrightarrow> map_option e_Term (log_at s (Suc p + j)) = Some (e_Term (es ! j))"
    "k < length es \<Longrightarrow> ?sn < Suc p + k \<and> Suc p + k \<le> Suc ?ln
       \<and> map_option e_Term (log_at s (Suc p + k)) \<noteq> Some (e_Term (es ! k))"
    using first_new_spec [OF wf es p] fn by auto
  have agree: "map_option e_Term (log_at s i) = Some (e_Term (es ! (i - Suc p)))"
    if "p < i" "i < Suc p + k" "?sn < i" for i
    using k(3) [of "i - Suc p"] that by auto
  show ?thesis
  proof (cases "k < length es")
    case True
    note c = k(4) [OF True]
    have l: "ds_log s' = take (p + k - ?sn) (ds_log s) @ drop k es"
      using log [OF k(2) True] c k(2) by simp
    have len: "length (take (p + k - ?sn) (ds_log s)) = p + k - ?sn" using c by auto
    have "log_at s' i = (if i < Suc p + k then log_at s i
        else if p < i \<and> i \<le> p + length es then Some (es ! (i - Suc p)) else None)" for i
      using c l len True by (auto simp: log_at_def snap nth_append)
    then have "merged s p es (Suc p + k) s'"
      unfolding merged_def using c agree True by auto
    then show ?thesis ..
  next
    case False
    then have kl: "k = length es" using k(1) by simp
    then have "log_at s' = log_at s" using same k(2) snap by (auto simp: log_at_def fun_eq_iff)
    moreover have "p + length es \<le> max ?ln (max p ?sn)"
    proof (cases "es = [] \<or> p + length es \<le> ?sn")
      case False
      then have "map_option e_Term (log_at s (p + length es)) \<noteq> None"
        using agree [of "p + length es"] kl by (cases es) auto
      then show ?thesis by (auto simp: log_at_def split: if_splits)
    qed auto
    ultimately have "merged s p es (Suc ?ln) s'"
      unfolding merged_def using agree kl p by (auto simp: log_at_def)
    then show ?thesis ..
  qed
qed

text \<open>The entries the handler stores start right after the common part.\<close>

lemma storeEntries_new:
  assumes "storeEntries pb n1 new = Some (n2, e)" "log_wf (n_store n1)" "entries_from (Suc p) es"
    "p \<le> unat (ds_snapIndex (n_store n1)) + length (ds_log (n_store n1))"
    "first_new (n_store n1) es = Some new"
  shows "\<exists>s. n2 = n1\<lparr>n_store := s\<rparr> \<and> log_wf s \<and> (e = None \<longrightarrow> (\<exists>c. merged (n_store n1) p es c s))"
proof -
  let ?s = "n_store n1"
  obtain k where k: "k \<le> length es" "new = drop k es"
    "k < length es \<Longrightarrow> unat (ds_snapIndex ?s) < Suc p + k
       \<and> Suc p + k \<le> Suc (unat (ds_snapIndex ?s) + length (ds_log ?s))"
    using first_new_spec [OF assms(2-4)] assms(5) by auto
  have ef: "entries_from (Suc p + k) new"
    using entries_from_drop [OF assms(3), of k] k(1,2) by auto
  have lt: "k < length es" if "new \<noteq> []" using that k(2) by auto
  obtain s where s: "n2 = n1\<lparr>n_store := s\<rparr>" "log_wf s" "ds_snapIndex s = ds_snapIndex ?s"
    "e = None \<Longrightarrow> ds_log s = (if new = [] then ds_log ?s
       else take (Suc p + k - Suc (unat (ds_snapIndex ?s))) (ds_log ?s) @ new)"
    using storeEntries_log [OF assms(1,2) ef] k(3) lt by auto
  have "\<exists>c. merged ?s p es c s" if "e = None"
  proof (rule merged_store [OF assms(2-5) s(3)])
    show "ds_log s = ds_log ?s" if "new = []" using s(4) [OF \<open>e = None\<close>] that by simp
    show "ds_log s = take (Suc p + j - Suc (unat (ds_snapIndex ?s))) (ds_log ?s) @ new"
      if "new = drop j es" "j < length es" for j
    proof -
      have "j = k" "new \<noteq> []" using that k(1,2) by (auto dest: arg_cong [of _ _ length])
      then show ?thesis using s(4) [OF \<open>e = None\<close>] by simp
    qed
  qed
  then show ?thesis using s by auto
qed

text \<open>
  C11: what a successful \<open>AppendEntries\<close> means.  If a follower with a contiguous log answers a
  request with success, it has adopted the leader's term, its log agrees with the leader's at
  the previous index, and the new log is the merge the protocol asks for: entries are cut off
  only from the first index at which the terms conflict, everything below stays as it was, and
  from there on the log is the leader's.  The log stays contiguous and the commit index does
  not move back.
\<close>

theorem append_entries_merges:
  assumes "HandleAppendEntries pb ev n req = Some (n', resp)" "aer_Success resp"
    "log_wf (n_store n)" "entries_from (Suc (unat (ae_PrevLogIndex req))) (ae_Entries req)"
  shows "n_term n' = ae_Term req \<and> log_wf (n_store n') \<and> n_commitIndex n \<le> n_commitIndex n' \<and>
    (unat (ds_snapIndex (n_store n)) < unat (ae_PrevLogIndex req) \<longrightarrow>
       map_option e_Term (log_at (n_store n) (unat (ae_PrevLogIndex req))) = Some (ae_PrevLogTerm req)) \<and>
    (\<exists>c. merged (n_store n) (unat (ae_PrevLogIndex req)) (ae_Entries req) c (n_store n'))"
  using assms(1)
proof (cases rule: HandleAppendEntries_cases)
  case (stored n1 es n2)
  have wf1: "log_wf (n_store n1)" using adopted_wf [OF stored(1)] assms(3) by simp
  have same: "log_at (n_store n1) = log_at (n_store n)"
    "ds_snapIndex (n_store n1) = ds_snapIndex (n_store n)" "n_commitIndex n1 = n_commitIndex n"
    "n_term n1 = ae_Term req"
    using stored(1) by (auto simp: adopted_def)
  note prev = prevCheck_pass [OF stored(2) wf1]
  obtain s c where s: "n2 = n1\<lparr>n_store := s\<rparr>" "log_wf s"
    "merged (n_store n1) (unat (ae_PrevLogIndex req)) (ae_Entries req) c s"
    using storeEntries_new [OF stored(4) wf1 assms(4) _ stored(3)] prev by auto
  have "merged (n_store n) (unat (ae_PrevLogIndex req)) (ae_Entries req) c s"
    using s(3) by (simp add: merged_def same)
  moreover have "ds_term s = ae_Term req"
    using s(1) storeEntries_hard [OF stored(4)] same(4) by (auto simp: hard_eq_def)
  ultimately show ?thesis using stored(5) s(1,2) prev by (auto simp: same max_def min_def)
qed (use assms(2) in \<open>auto simp: appendReject_def prevCheck_def Let_def split: if_splits bind_splits\<close>)

definition conflict_request :: AppendEntriesRequest where
  "conflict_request = \<lparr>ae_Term = 2, ae_LeaderId = 2, ae_PrevLogIndex = 0, ae_PrevLogTerm = 0,
     ae_Entries = [entry 2 1, entry 2 2], ae_LeaderCommit = 1\<rparr>"

lemma conflict_request_accepted:
  "\<exists>n' resp. HandleAppendEntries sample_codec sample_env sample_node conflict_request = Some (n', resp)
     \<and> aer_Success resp"
  by (simp add: sample_defs HandleAppendEntries_def conflict_request_def stepDownLocked_def
      resetElectionTimerLocked_def prevCheck_def storeEntries_def wal_eval store_eval sample_codec_def
      Let_def)

theorem append_entries_merges_witness:
  "\<exists>n' resp. HandleAppendEntries sample_codec sample_env sample_node conflict_request = Some (n', resp)
     \<and> aer_Success resp \<and> n_term n' = 2
     \<and> (\<exists>c. merged sample_store 0 [entry 2 1, entry 2 2] c (n_store n'))"
proof -
  obtain n' resp where h: "HandleAppendEntries sample_codec sample_env sample_node conflict_request
      = Some (n', resp)" "aer_Success resp"
    using conflict_request_accepted by blast
  have wf: "log_wf (n_store sample_node)"
    by (simp add: sample_defs log_wf_def)
  have es: "entries_from (Suc (unat (ae_PrevLogIndex conflict_request))) (ae_Entries conflict_request)"
    by (simp add: conflict_request_def entries_from_simps entry_def)
  show ?thesis
    using append_entries_merges [OF h wf es] h
    by (auto simp: conflict_request_def sample_node_def)
qed

section \<open>Votes\<close>

lemma HandleRequestVote_granted:
  assumes "HandleRequestVote ev n req = Some (n', resp)" "rvr_VoteGranted resp"
  obtains n1 t s2 d where
    "(if rv_Term req > n_term n then stepDownLocked ev n (rv_Term req) else Some n) = Some n1"
    "\<not> rv_Term req < n_term n1" "Contains (n_conf n1) (n_id n1)"
    "\<exists>b. termAt (n_store n1) (lastIndex (n_store n1)) = Some (t, b)"
    "n_votedFor n1 = 0 \<or> n_votedFor n1 = rv_CandidateId req" "upToDate req t (lastIndex (n_store n1))"
    "setHardState (n_store n1) (n_term n1) (rv_CandidateId req) = Some (s2, None)"
    "n' = n1\<lparr>n_store := s2, n_electionDeadline := d\<rparr>"
proof -
  obtain n1 where n1: "(if rv_Term req > n_term n then stepDownLocked ev n (rv_Term req) else Some n) = Some n1"
    and r1: "(let resp = \<lparr>rvr_Term = n_term n1, rvr_VoteGranted = False\<rparr> in
          if rv_Term req < n_term n1 then Some (n1, resp)
          else if \<not> Contains (n_conf n1) (n_id n1) then Some (n1, resp)
          else do {
            let lastIdx = lastIndex (n_store n1);
            (lastTerm, _) \<leftarrow> termAt (n_store n1) lastIdx;
            if (n_votedFor n1 = 0 \<or> n_votedFor n1 = rv_CandidateId req) \<and> upToDate req lastTerm lastIdx
            then do {
              (n, err) \<leftarrow> with_store n1 (setHardState (n_store n1) (n_term n1) (rv_CandidateId req));
              if err \<noteq> None then Some (n, resp)
              else do {
                n \<leftarrow> resetElectionTimerLocked ev n;
                Some (n, resp\<lparr>rvr_VoteGranted := True\<rparr>) } }
            else Some (n1, resp) }) = Some (n', resp)"
    using assms(1) unfolding HandleRequestVote_def
    by (simp only: bind_eq_Some_conv) (elim exE conjE, rule that)
  have g: "\<not> rv_Term req < n_term n1" "Contains (n_conf n1) (n_id n1)"
    using r1 assms(2) by (auto simp: Let_def split: if_splits)
  then obtain t b where t: "termAt (n_store n1) (lastIndex (n_store n1)) = Some (t, b)"
    using r1 by (auto simp: Let_def split: bind_splits)
  have c: "n_votedFor n1 = 0 \<or> n_votedFor n1 = rv_CandidateId req" "upToDate req t (lastIndex (n_store n1))"
    using r1 g t assms(2) by (auto simp: Let_def split: if_splits)
  obtain s2 err where s2: "setHardState (n_store n1) (n_term n1) (rv_CandidateId req) = Some (s2, err)"
    using r1 g t c by (auto simp: Let_def with_store_def split: option.splits)
  have err: "err = None"
    using r1 g t c s2 assms(2) by (auto simp: Let_def with_store_def split: if_splits)
  obtain n2 where n2: "resetElectionTimerLocked ev (n1\<lparr>n_store := s2\<rparr>) = Some n2" "n' = n2"
    using r1 g t c s2 err by (auto simp: Let_def with_store_def split: bind_splits)
  obtain d where "n' = n1\<lparr>n_store := s2, n_electionDeadline := d\<rparr>"
    using reset_mem [OF n2(1)] n2(2) by blast
  then show ?thesis using that n1 g t c s2 err by blast
qed

lemma stepDown_term:
  "(if t > n_term n then stepDownLocked ev n t else Some n) = Some n1 \<Longrightarrow> \<not> t < n_term n1 \<Longrightarrow>
   n_term n1 = t"
  using stepDown_mem [of ev n t n1] by (auto split: if_splits)



text \<open>
  C13: terms never decrease and a vote is never changed.  Over any run of a node - any sequence of
  calls, ticks, requests and responses, with any outcomes of the disk - the term does not go back, and
  as long as it stays the same a vote once given stays.
\<close>

theorem one_vote_per_term:
  assumes "(node_step pb)\<^sup>*\<^sup>* n n'"
  shows "n_term n \<le> n_term n' \<and>
    (n_term n' = n_term n \<and> n_votedFor n \<noteq> 0 \<longrightarrow> n_votedFor n' = n_votedFor n)"
  using node_run_hard [OF assms] by (auto simp: hard_le_def)

theorem one_vote_per_term_witness:
  "\<exists>n1 n2 resp. n_term n1 = 1 \<and> n_votedFor n1 = 2
     \<and> HandleRequestVote sample_env n1 (vote_request 3) = Some (n2, resp)
     \<and> n_term n2 = n_term n1 \<and> n_votedFor n2 = 2"
proof -
  let ?n1 = "sample_node\<lparr>n_store := sample_store\<lparr>ds_votedFor := 2\<rparr>\<rparr>"
  obtain n2 resp where h: "HandleRequestVote sample_env ?n1 (vote_request 3) = Some (n2, resp)"
      "n_term n2 = 1"
    by (simp add: sample_defs HandleRequestVote_def vote_request_def store_eval boot_voters upToDate_def Let_def)
  have "(node_step sample_codec)\<^sup>*\<^sup>* ?n1 n2"
    using node_step.vote_req [OF _ h(1), of sample_codec] by (auto simp: sample_node_def)
  from one_vote_per_term [OF this] h show ?thesis
    by (intro exI [of _ ?n1] exI [of _ n2] exI [of _ resp]) (simp add: sample_node_def sample_store_def)
qed

text \<open>
  C14: who gets a vote.  \<open>HandleRequestVote\<close> grants a vote only in the term of the request, only as a
  voting member, only if it has not voted for another candidate in that term, and only to a
  candidate whose log is at least as up-to-date as its own, comparing last terms first and
  then last indices.
\<close>

theorem vote_granted_only_if:
  assumes "HandleRequestVote ev n req = Some (n', resp)" "rvr_VoteGranted resp" "log_wf (n_store n)"
  shows "n_term n' = rv_Term req \<and> n_votedFor n' = rv_CandidateId req \<and> n_term n \<le> rv_Term req \<and>
    Contains (n_conf n) (n_id n) \<and>
    (n_term n = rv_Term req \<longrightarrow> n_votedFor n = 0 \<or> n_votedFor n = rv_CandidateId req) \<and>
    (\<exists>t. termAt (n_store n) (lastIndex (n_store n)) = Some (t, True) \<and>
       (t < rv_LastLogTerm req \<or> t = rv_LastLogTerm req \<and> lastIndex (n_store n) \<le> rv_LastLogIndex req))"
proof -
  obtain n1 t s2 d where h:
    "(if rv_Term req > n_term n then stepDownLocked ev n (rv_Term req) else Some n) = Some n1"
    "\<not> rv_Term req < n_term n1" "Contains (n_conf n1) (n_id n1)"
    "\<exists>b. termAt (n_store n1) (lastIndex (n_store n1)) = Some (t, b)"
    "n_votedFor n1 = 0 \<or> n_votedFor n1 = rv_CandidateId req" "upToDate req t (lastIndex (n_store n1))"
    "setHardState (n_store n1) (n_term n1) (rv_CandidateId req) = Some (s2, None)"
    "n' = n1\<lparr>n_store := s2, n_electionDeadline := d\<rparr>"
    using HandleRequestVote_granted [OF assms(1,2)] by metis
  have t1: "n_term n1 = rv_Term req" by (rule stepDown_term [OF h(1,2)])
  have same: "n_conf n1 = n_conf n \<and> n_cfg n1 = n_cfg n \<and> lastIndex (n_store n1) = lastIndex (n_store n)
    \<and> termAt (n_store n1) = termAt (n_store n) \<and> n_term n \<le> rv_Term req
    \<and> (n_term n = rv_Term req \<longrightarrow> n_votedFor n1 = n_votedFor n)"
  proof (cases "rv_Term req > n_term n")
    case True
    then have sd: "stepDownLocked ev n (rv_Term req) = Some n1" using h(1) by simp
    obtain s d w where s: "n1 = n\<lparr>n_store := s, n_role := follower, n_electionDeadline := d\<rparr>"
      "s = (n_store n)\<lparr>ds_term := rv_Term req, ds_votedFor := 0, ds_wal := Some w\<rparr>"
      using stepDown_mem [OF sd] True by (simp only: if_True) blast
    show ?thesis
      using True log_view [of s \<open>n_store n\<close>] s by auto
  next
    case False
    then have "n1 = n" using h(1) by simp
    then show ?thesis using t1 by simp
  qed
  have "termAt (n_store n) (lastIndex (n_store n)) = Some (t, True)"
    using h(4) same unat_lastIndex [OF assms(3)]
    by (auto simp: termAt_wf [OF assms(3)] split: if_splits)
  moreover obtain w where "s2 = (n_store n1)\<lparr>ds_term := n_term n1, ds_votedFor := rv_CandidateId req,
      ds_wal := Some w\<rparr>"
    using setHardState_mem [OF h(7)] by blast
  ultimately show ?thesis
    using h(3,5,6) same t1 by (simp add: h(8) upToDate_def) metis
qed

theorem vote_granted_only_if_witness:
  "\<exists>n' resp. HandleRequestVote sample_env boot_node (vote_request 2) = Some (n', resp)
     \<and> rvr_VoteGranted resp \<and> n_term n' = 1 \<and> n_votedFor n' = 2 \<and> lastIndex (n_store boot_node) \<le> 0"
proof -
  obtain n' resp where h: "HandleRequestVote sample_env boot_node (vote_request 2) = Some (n', resp)"
      "rvr_VoteGranted resp"
    using boot_grants by blast
  have "log_wf (n_store boot_node)" by (simp add: boot_node_store sample_store_def log_wf_def)
  from vote_granted_only_if [OF h this] h show ?thesis
    by (auto simp: vote_request_def)
qed

end
