(* ===== verification/RaftReplication.thy ===== *)
theory RaftReplication
  imports RaftNodeFacts
begin

text \<open>
  Replication at one node: that its log stays contiguous, when the leader may commit, what the
  applier delivers, what an acknowledgement promises about the disk, and what the quorum of a
  linearizable read guarantees.
\<close>

section \<open>Committing\<close>

lemma advanceCommit_cases:
  assumes "advanceCommitLocked n = Some n'"
  obtains (same) "n_commitIndex n' = n_commitIndex n"
  | (moved) m s where "m = (case n_matchIndex n of None \<Rightarrow> Map.empty | Some f \<Rightarrow> f)"
      "n_commitIndex n < MaxCommitIndex (n_conf n) m" "sync (n_store n) = Some (s, None)"
      "termAt s (MaxCommitIndex (n_conf n) m) = Some (ds_term s, True)"
      "n' = kickRun (n\<lparr>n_store := s, n_commitIndex := MaxCommitIndex (n_conf n) m\<rparr>)"
proof -
  define m where "m = (case n_matchIndex n of None \<Rightarrow> Map.empty | Some f \<Rightarrow> f)"
  define i where "i = MaxCommitIndex (n_conf n) m"
  show ?thesis
  proof (cases "i \<le> n_commitIndex n")
    case True
    then show ?thesis using assms same by (simp add: advanceCommitLocked_def m_def i_def)
  next
    case False
    then obtain s e where s: "sync (n_store n) = Some (s, e)"
      using assms by (cases "sync (n_store n)") (auto simp: advanceCommitLocked_def with_store_def m_def i_def)
    show ?thesis
    proof (cases e)
      case (Some x)
      then have "n' = n\<lparr>n_store := s\<rparr>"
        using assms False s by (simp add: advanceCommitLocked_def with_store_def m_def i_def)
      then show ?thesis using same by simp
    next
      case None
      then obtain t ok where t: "termAt s i = Some (t, ok)"
        using assms False s
        by (cases "termAt s i") (auto simp: advanceCommitLocked_def with_store_def m_def i_def)
      show ?thesis
      proof (cases "ok \<and> t = ds_term s")
        case True
        then show ?thesis
          using assms False s None t
          by (intro moved [OF m_def]) (auto simp: advanceCommitLocked_def with_store_def m_def i_def)
      next
        case False2: False
        then have "n' = n\<lparr>n_store := s\<rparr>"
          using assms False s None t
          by (auto simp: advanceCommitLocked_def with_store_def m_def i_def Let_def split: if_splits)
        then show ?thesis using same by simp
      qed
    qed
  qed
qed

lemma MaxCommitIndex_quorum:
  "0 < MaxCommitIndex c m \<Longrightarrow> is_quorum c {i. MaxCommitIndex c m \<le> mget m i}"
  using MaxCommitIndex_canCommit [of c m] by (auto simp: canCommit_is_quorum matched_def)


definition sample_leader :: Node where
  "sample_leader = sample_node\<lparr>n_role := leader, n_leaderID := 1,
     n_nextIndex := Some [1 \<mapsto> 2, 2 \<mapsto> 2, 3 \<mapsto> 1], n_matchIndex := Some [1 \<mapsto> 1, 2 \<mapsto> 1, 3 \<mapsto> 0]\<rparr>"

lemma sample_ids [simp]: "sorted_list_of_fset {|1, 2, 3 :: u64|} = [1, 2, 3]"
  by (simp add: sorted_list_of_fset.rep_eq)

lemma sample_advances: "\<exists>n'. advanceCommitLocked sample_leader = Some n' \<and> n_commitIndex n' = 1"
  by (simp add: advanceCommitLocked_def sample_leader_def sample_defs store_eval MaxCommitIndex_def
      AllPeerIDs_def VoterIDs_def sortedKeys_def NewConfState_def canCommit_def majority_def mget_def
      kickRun_def Let_def fcard.rep_eq)


section \<open>Applying\<close>

text \<open>The message the applier sends for an entry.\<close>

definition apply_msg :: "Entry \<Rightarrow> ApplyMsg" where
  "apply_msg e = (case (e_Type e = ENTRY_CONF_CHANGE, e_ConfChange e) of
     (True, Some cc) \<Rightarrow> conf_msg e cc | _ \<Rightarrow> command_msg e)"

text \<open>Open log file, non-empty membership: what applying an entry needs in order not to panic.\<close>

definition can_apply :: "Node \<Rightarrow> bool" where
  "can_apply n \<longleftrightarrow> ds_wal (n_store n) \<noteq> None \<and> Voters (n_conf n) \<noteq> {||}"

lemma setConfState_total:
  "ds_wal s \<noteq> None \<Longrightarrow> \<exists>s' e. setConfState s c = Some (s', e) \<and> ds_wal s' \<noteq> None"
  by (auto simp: setConfState_def try_then_def wal_Append_def wal_Sync_def
      split: option.splits prod.splits)

lemma ApplyConfChange_total:
  assumes "Voters c \<noteq> {||}"
  shows "ApplyConfChange c cc \<noteq> Inl NilMapPanic \<and> (\<forall>c'. ApplyConfChange c cc = Inr c' \<longrightarrow> Voters c' \<noteq> {||})"
proof -
  have "Voters c |-| {|i|} \<noteq> {||}" if "\<not> fcard (Voters c) \<le> 1" for i
  proof
    assume "Voters c |-| {|i|} = {||}"
    then have "Voters c |\<subseteq>| {|i|}" by auto
    then have "fcard (Voters c) \<le> fcard {|i|}" by (rule fcard_mono)
    then show False using that by (simp add: fcard.rep_eq)
  qed
  then show ?thesis using assms by (auto simp: ApplyConfChange_def)
qed

lemma apply_entry_total:
  assumes "can_apply n"
  shows "\<exists>n'. apply_entry n e = Some (n', apply_msg e) \<and> can_apply n'"
proof (cases "e_Type e = ENTRY_CONF_CHANGE \<and> e_ConfChange e \<noteq> None")
  case True
  then obtain cc where cc: "e_ConfChange e = Some cc" by auto
  have "\<exists>n' x. applyConfChangeLocked n cc = Some (n', x) \<and> can_apply n'"
  proof (cases "ApplyConfChange (n_conf n) cc")
    case (Inl err)
    then show ?thesis
      using assms ApplyConfChange_total [of "n_conf n" cc]
      by (cases err) (auto simp: applyConfChangeLocked_def can_apply_def)
  next
    case (Inr c')
    let ?n = "conf_progress (conf_addrs (n\<lparr>n_conf := c'\<rparr>) cc) cc"
    obtain s x where s: "setConfState (n_store n) c' = Some (s, x)" "ds_wal s \<noteq> None"
      using setConfState_total [of "n_store n" c'] assms by (auto simp: can_apply_def)
    have "Voters c' \<noteq> {||}"
      using ApplyConfChange_total [of "n_conf n" cc] Inr assms by (auto simp: can_apply_def)
    then show ?thesis
      using s Inr by (simp add: applyConfChangeLocked_def with_store_def can_apply_def)
  qed
  then show ?thesis using True cc by (auto simp: apply_entry_def apply_msg_def)
next
  case False
  then show ?thesis
    using assms by (auto simp: apply_entry_def apply_msg_def split: bool.splits option.splits)
qed

lemma upt_Suc_Cons: "i < j \<Longrightarrow> [Suc i..<Suc j] = Suc i # [Suc (Suc i)..<Suc j]"
  by (simp add: upt_conv_Cons del: upt_Suc)

lemma applier_loop_spec:
  assumes "log_wf (n_store n)" "can_apply n"
    "unat (n_commitIndex n) \<le> unat (ds_snapIndex (n_store n)) + length (ds_log (n_store n))"
    "unat (ds_snapIndex (n_store n)) \<le> unat (n_commitIndex n)"
    "unat (n_lastApplied n) \<le> unat (n_commitIndex n)"
    "unat (n_commitIndex n) - unat (n_lastApplied n) \<le> f"
  shows "\<exists>n'. applier_loop f n = Some (n', map (\<lambda>i. apply_msg (the (log_at (n_store n) i)))
      [Suc (max (unat (n_lastApplied n)) (unat (ds_snapIndex (n_store n))))..<Suc (unat (n_commitIndex n))])
    \<and> n_lastApplied n' = n_commitIndex n"
  using assms
proof (induction f arbitrary: n)
  case 0
  then have "n_lastApplied n = n_commitIndex n" by (simp add: word_unat_eq_iff)
  then show ?case using 0 by (subst applier_loop.simps) (simp add: max_def)
next
  case (Suc f)
  let ?s = "n_store n" and ?la = "unat (n_lastApplied n)" and ?c = "unat (n_commitIndex n)"
    and ?sn = "unat (ds_snapIndex (n_store n))"
  show ?case
  proof (cases "n_lastApplied n < n_commitIndex n")
    case False
    then have "n_lastApplied n = n_commitIndex n"
      using Suc.prems(5) by (simp add: word_less_nat_alt word_unat_eq_iff)
    then show ?thesis using Suc.prems by (subst applier_loop.simps) (simp add: max_def)
  next
    case True
    have lt: "?la < ?c" using True by (simp add: word_less_nat_alt)
    have c64: "?c < 2 ^ 64" using unsigned_less [of "n_commitIndex n", where 'a = nat] by simp
    have nx: "unat (n_lastApplied n + 1) = Suc ?la"
      using lt c64 by (simp add: unat_word_ariths)
    have fst: "n_lastApplied n + 1 < firstIndex ?s \<longleftrightarrow> ?la < ?sn"
      using nx unat_firstIndex [OF Suc.prems(1)] by (simp add: word_less_nat_alt)
    show ?thesis
    proof (cases "?la < ?sn")
      case True2: True
      let ?n = "n\<lparr>n_lastApplied := ds_snapIndex ?s\<rparr>"
      have "\<exists>n'. applier_loop f ?n = Some (n', map (\<lambda>i. apply_msg (the (log_at ?s i)))
          [Suc (max ?sn ?sn)..<Suc ?c]) \<and> n_lastApplied n' = n_commitIndex n"
        using Suc.IH [of ?n] Suc.prems True2 by (simp add: can_apply_def)
      then show ?thesis
        using True True2 fst by (subst applier_loop.simps) (simp add: Let_def max_def)
    next
      case False
      let ?e = "the (log_at ?s (Suc ?la))"
      have e: "entryAt ?s (n_lastApplied n + 1) = Some ?e"
        using entryAt_wf [OF Suc.prems(1), of "n_lastApplied n + 1"] nx False lt Suc.prems(3)
        by (simp add: log_at_def)
      obtain n1 where n1: "apply_entry n ?e = Some (n1, apply_msg ?e)" "can_apply n1"
        using apply_entry_total [OF Suc.prems(2)] by blast
      note keep = apply_entry_keeps [OF n1(1)]
      have core: "core (n_store n1) = core ?s" using keep by simp
      have v: "log_at (n_store n1) = log_at ?s" "log_wf (n_store n1)"
          "ds_snapIndex (n_store n1) = ds_snapIndex ?s" "ds_log (n_store n1) = ds_log ?s"
        using log_at_core [OF core] log_wf_core [OF core] core Suc.prems(1)
        by (simp_all add: core_def)
      let ?n = "n1\<lparr>n_lastApplied := n_lastApplied n + 1\<rparr>"
      have "\<exists>n'. applier_loop f ?n = Some (n', map (\<lambda>i. apply_msg (the (log_at ?s i)))
          [Suc (max (Suc ?la) ?sn)..<Suc ?c]) \<and> n_lastApplied n' = n_commitIndex n"
        using Suc.IH [of ?n] Suc.prems v n1(2) keep nx lt by (simp add: can_apply_def)
      then obtain n' where n': "applier_loop f ?n = Some (n', map (\<lambda>i. apply_msg (the (log_at ?s i)))
          [Suc (max (Suc ?la) ?sn)..<Suc ?c])" "n_lastApplied n' = n_commitIndex n" by blast
      have "max ?la ?sn = ?la" "max (Suc ?la) ?sn = Suc ?la" using False by auto
      then show ?thesis
        using True fst False e n1(1) n' upt_Suc_Cons [OF lt]
        by (subst applier_loop.simps) (simp add: Let_def del: upt_Suc)
    qed
  qed
qed

text \<open>
  C16: the applier delivers the committed log.  In a node whose log reaches the commit index, one
  round of the applier terminates without a panic, sends one message for every committed
  entry that was not applied before and that no snapshot covers, in log order, and leaves the
  applied index at the commit index.
\<close>

theorem applier_delivers_log:
  assumes "log_wf (n_store n)" "can_apply n" "n_commitIndex n \<le> lastIndex (n_store n)"
    "ds_snapIndex (n_store n) \<le> n_commitIndex n" "n_lastApplied n \<le> n_commitIndex n"
  shows "\<exists>n'. applier n = Some (n', map (\<lambda>i. Deliver (apply_msg (the (log_at (n_store n) i))))
      [Suc (max (unat (n_lastApplied n)) (unat (ds_snapIndex (n_store n))))..<Suc (unat (n_commitIndex n))])
    \<and> n_lastApplied n' = n_commitIndex n"
proof -
  have "unat (n_commitIndex n) \<le> unat (ds_snapIndex (n_store n)) + length (ds_log (n_store n))"
    using assms(3) unat_lastIndex [OF assms(1)] by (simp add: word_le_nat_alt)
  from applier_loop_spec [OF assms(1,2) this _ _ order_refl] assms(4,5) show ?thesis
    by (auto simp: applier_def word_le_nat_alt comp_def simp del: upt_Suc)
qed

theorem applier_delivers_log_witness:
  "\<exists>n'. applier (sample_node\<lparr>n_commitIndex := 1\<rparr>) = Some (n', [Deliver (command_msg (entry 1 1))])
     \<and> n_lastApplied n' = 1"
proof -
  let ?n = "sample_node\<lparr>n_commitIndex := 1\<rparr>"
  have "log_wf (n_store ?n)" "can_apply ?n" "n_commitIndex ?n \<le> lastIndex (n_store ?n)"
    "ds_snapIndex (n_store ?n) \<le> n_commitIndex ?n" "n_lastApplied ?n \<le> n_commitIndex ?n"
    by (simp_all add: sample_defs log_wf_def can_apply_def lastIndex_def NewConfState_def)
  from applier_delivers_log [OF this] show ?thesis
    by (simp add: sample_defs log_at_def apply_msg_def)
qed

section \<open>Acknowledgements and the disk\<close>

lemma appendEntries_dirty:
  "appendEntries pb s es = Some (s', None) \<Longrightarrow> es \<noteq> [] \<Longrightarrow> ds_dirty s'"
  by (auto simp: appendEntries_def try_then_ok split: list.splits)

text \<open>Entries that \<open>storeEntries\<close> reports stored are on disk.\<close>

lemma storeEntries_durable:
  assumes "codec_ok pb" "store_reach pb boot (n_store n)" "storeEntries pb n es = Some (n', None)"
    "es \<noteq> []" "\<forall>x \<in> set es. entry_fits pb x \<and> e_Index x > ds_snapIndex (n_store n)"
  shows "\<exists>r. openDiskStorage pb [] (crash_dir (n_store n') k) boot = Inr r \<and> same_state (n_store n') r"
proof -
  obtain s1 where s1: "appendEntries pb (n_store n) es = Some (s1, None)"
      "sync s1 = Some (n_store n', None)"
    using assms(3,4) by (auto simp: storeEntries_def with_store_Some try_then_ok)
  have "store_reach pb boot s1"
    using store_reach.step [OF assms(2), of "StAppend es" s1 None] assms(5) s1(1) by simp
  then obtain ds ps where "store_inv pb boot s1 ds ps"
    using store_reach_inv [OF _ assms(1)] by blast
  from durable_step_recovers [OF this assms(1), of StSync "n_store n'" k] show ?thesis
    using appendEntries_dirty [OF s1(1) assms(4)] s1(2) by simp
qed


definition first_request :: AppendEntriesRequest where
  "first_request = \<lparr>ae_Term = 1, ae_LeaderId = 2, ae_PrevLogIndex = 0, ae_PrevLogTerm = 0,
     ae_Entries = [entry 1 1], ae_LeaderCommit = 0\<rparr>"

lemma entry_fits_entry: "entry_fits sample_codec (entry 1 1)"
  by (simp add: entry_fits_def encodeEntry_def sample_codec_def fits_def entry_def)

lemma marshal_sample: "\<exists>b. marshal sample_codec e = Some b"
  by (simp add: sample_codec_def)

lemma first_request_accepted:
  "\<exists>n' resp. HandleAppendEntries sample_codec sample_env boot_node first_request = Some (n', resp)
     \<and> aer_Success resp \<and> ds_log (n_store n') = [entry 1 1]"
proof -
  obtain b where b: "marshal sample_codec (entry 1 1) = Some b" using marshal_sample by blast
  show ?thesis
    by (simp add: boot_node_def boot_open sample_defs HandleAppendEntries_def first_request_def
        b [unfolded entry_def] stepDownLocked_def resetElectionTimerLocked_def prevCheck_def
        storeEntries_def wal_eval store_eval Let_def)
qed


text \<open>A follower that already has the entry of the request in memory.\<close>

definition has_first_entry :: "Node \<Rightarrow> bool" where
  "has_first_entry n \<longleftrightarrow> n_term n = 1 \<and> n_role n = follower \<and> ds_log (n_store n) = [entry 1 1]
     \<and> ds_snapIndex (n_store n) = 0 \<and> ds_snapTerm (n_store n) = 0
     \<and> ElectionTimeoutMin (n_cfg n) \<le> ElectionTimeoutMax (n_cfg n)"

lemma retry_accepted:
  assumes "has_first_entry n"
  shows "\<exists>n' r. HandleAppendEntries sample_codec sample_env n first_request = Some (n', r)
    \<and> aer_Success r \<and> n_store n' = n_store n"
  using assms
  by (simp add: has_first_entry_def HandleAppendEntries_def first_request_def Let_def entry_def
      resetElectionTimerLocked_def prevCheck_def storeEntries_def termAt_def lastIndex_def firstIndex_def)

text \<open>A follower with an empty log whose fourth file-system call, the first fsync, fails.\<close>

definition faulty_node :: Node where
  "faulty_node = sample_node\<lparr>n_store := sample_store\<lparr>ds_log := [],
      ds_wal := Some (sample_wal\<lparr>w_io := [True, True, True, False]\<rparr>)\<rparr>\<rparr>"

lemma first_attempt_fails:
  "\<exists>n1 r1. HandleAppendEntries sample_codec sample_env faulty_node first_request = Some (n1, r1)
     \<and> \<not> aer_Success r1 \<and> has_first_entry n1 \<and> d_wal (crash_dir (n_store n1) 0) = File []
     \<and> d_meta (crash_dir (n_store n1) 0) = NoFile"
proof -
  obtain b where b: "marshal sample_codec (entry 1 1) = Some b" using marshal_sample by blast
  show ?thesis
    by (simp add: faulty_node_def sample_defs HandleAppendEntries_def first_request_def
        b [unfolded entry_def] resetElectionTimerLocked_def prevCheck_def storeEntries_def wal_eval
        store_eval appendReject_def Let_def has_first_entry_def crash_dir_def crash_def)
qed

lemma open_empty:
  assumes "d_wal d = File []" "d_meta d = NoFile"
  shows "\<exists>s. openDiskStorage sample_codec [] d [1, 2, 3] = Inr s \<and> ds_log s = []"
  using assms
  by (simp add: openDiskStorage_def load_snapshot_def ReplayWAL_def OpenWAL_def numeral_2_eq_2
      replay.simps next_record_def)


end
