(* ===== verification/Memtable.thy ===== *)
theory Memtable
  imports Prelude
begin

text \<open>
  The memtable of \<open>storage/memtable.go\<close>: a skiplist of nodes linked by pointers.  The nodes live
  in an explicit heap, a list indexed by addresses; address 0 is the head.  The lemmas show that the
  pointer structure implements a sorted map from keys to values and tombstones.
\<close>

section \<open>Definitions\<close>

definition maxHeight :: nat where "maxHeight = 12"

record kvEntry =
  kv_key :: gostring
  kv_value :: bytes
  kv_tombstone :: bool

record skipNode =
  sk_key :: gostring
  sk_value :: bytes
  sk_tombstone :: bool
  sk_next :: "nat option list"

text \<open>\<open>m_rand\<close> scripts the coming outcomes of \<open>rand.Intn(4) == 0\<close>; a script that has ended
  answers no.\<close>

record memtable =
  m_heap :: "skipNode list"
  m_size :: int
  m_count :: nat
  m_rand :: "bool list"

definition newMemtable :: "bool list \<Rightarrow> memtable" where
  "newMemtable r =
     \<lparr>m_heap = [\<lparr>sk_key = [], sk_value = [], sk_tombstone = False,
                 sk_next = replicate maxHeight None\<rparr>],
      m_size = 0, m_count = 0, m_rand = r\<rparr>"

text \<open>The loop of \<open>randomHeight\<close>, from height \<open>h\<close>; the first argument is the number of
  iterations left.\<close>

fun grow :: "nat \<Rightarrow> nat \<Rightarrow> bool list \<Rightarrow> nat \<times> bool list" where
  "grow 0 h r = (h, r)"
| "grow (Suc k) h r =
     (case r of [] \<Rightarrow> (h, []) | b # r' \<Rightarrow> if b then grow k (h + 1) r' else (h, r'))"

definition randomHeight :: "bool list \<Rightarrow> nat \<times> bool list" where
  "randomHeight r = grow (maxHeight - 1) 1 r"

text \<open>\<open>x.next[i]\<close>; \<open>None\<close> is the panic of an index out of range.\<close>

definition node_next :: "skipNode list \<Rightarrow> nat \<Rightarrow> nat \<Rightarrow> nat option option" where
  "node_next H x i =
     (if x < length H \<and> i < length (sk_next (H ! x)) then Some (sk_next (H ! x) ! i) else None)"

text \<open>The inner loop of a search: follow the pointers of level \<open>i\<close> while the next key is
  smaller.  The first argument bounds the steps; \<open>None\<close> is a panic or a walk that has not ended.\<close>

fun walk :: "nat \<Rightarrow> skipNode list \<Rightarrow> gostring \<Rightarrow> nat \<Rightarrow> nat \<Rightarrow> nat option" where
  "walk fuel H key i x =
     (case node_next H x i of
        None \<Rightarrow> None
      | Some None \<Rightarrow> Some x
      | Some (Some y) \<Rightarrow>
          if y < length H then
            if sk_key (H ! y) < key
            then (case fuel of 0 \<Rightarrow> None | Suc f \<Rightarrow> walk f H key i y)
            else Some x
          else None)"

declare walk.simps [simp del]

text \<open>The outer loop, over the levels \<open>k - 1, \<dots>, 0\<close>: the last node reached and the node
  remembered for every level.\<close>

fun descend :: "skipNode list \<Rightarrow> gostring \<Rightarrow> nat \<Rightarrow> nat \<Rightarrow> (nat \<times> nat list) option" where
  "descend H key 0 x = Some (x, [])"
| "descend H key (Suc i) x =
     do { x' \<leftarrow> walk (length H) H key i x;
          (z, update) \<leftarrow> descend H key i x';
          Some (z, update @ [x']) }"

text \<open>The node of \<open>x.next[0]\<close> if it has the key.\<close>

definition hit :: "skipNode list \<Rightarrow> gostring \<Rightarrow> nat \<Rightarrow> nat option option" where
  "hit H key x =
     (case node_next H x 0 of
        None \<Rightarrow> None
      | Some None \<Rightarrow> Some None
      | Some (Some n) \<Rightarrow>
          if n < length H then Some (if sk_key (H ! n) = key then Some n else None) else None)"

text \<open>\<open>n.next[i] = update[i].next[i]; update[i].next[i] = n\<close>\<close>

definition link_level :: "nat \<Rightarrow> nat list \<Rightarrow> skipNode list \<Rightarrow> nat \<Rightarrow> skipNode list option" where
  "link_level n update H i =
     (if i < length update then
        do { nx \<leftarrow> node_next H (update ! i) i;
             _ \<leftarrow> node_next H n i;
             let H1 = H[n := (H ! n)\<lparr>sk_next := (sk_next (H ! n))[i := nx]\<rparr>];
             Some (H1[update ! i := (H1 ! (update ! i))\<lparr>sk_next := (sk_next (H1 ! (update ! i)))[i := Some n]\<rparr>]) }
      else None)"

fun link :: "nat \<Rightarrow> nat list \<Rightarrow> skipNode list \<Rightarrow> nat list \<Rightarrow> skipNode list option" where
  "link n update H [] = Some H"
| "link n update H (i # is) = do { H' \<leftarrow> link_level n update H i; link n update H' is }"

definition mem_put :: "memtable \<Rightarrow> gostring \<Rightarrow> bytes \<Rightarrow> bool \<Rightarrow> memtable option" where
  "mem_put m key val tomb =
     do { (x, update) \<leftarrow> descend (m_heap m) key maxHeight 0;
          old \<leftarrow> hit (m_heap m) key x;
          case old of
            Some n \<Rightarrow>
              Some (m\<lparr>m_heap := (m_heap m)[n := (m_heap m ! n)\<lparr>sk_value := val, sk_tombstone := tomb\<rparr>],
                      m_size := m_size m + (int (length val) - int (length (sk_value (m_heap m ! n))))\<rparr>)
          | None \<Rightarrow>
              do { let (h, r) = randomHeight (m_rand m);
                   let n = length (m_heap m);
                   let H = m_heap m @ [\<lparr>sk_key = key, sk_value = val, sk_tombstone = tomb,
                                        sk_next = replicate h None\<rparr>];
                   H' \<leftarrow> link n update H [0..<h];
                   Some (m\<lparr>m_heap := H', m_size := m_size m + int (length key) + int (length val) + 32,
                           m_count := m_count m + 1, m_rand := r\<rparr>) } }"

text \<open>The value, the tombstone flag and whether the key was found.\<close>

definition mem_get :: "memtable \<Rightarrow> gostring \<Rightarrow> (bytes \<times> bool \<times> bool) option" where
  "mem_get m key =
     do { (x, _) \<leftarrow> descend (m_heap m) key maxHeight 0;
          old \<leftarrow> hit (m_heap m) key x;
          case old of
            Some n \<Rightarrow> Some (sk_value (m_heap m ! n), sk_tombstone (m_heap m ! n), True)
          | None \<Rightarrow> Some ([], False, False) }"

definition node_entry :: "skipNode \<Rightarrow> kvEntry" where
  "node_entry n = \<lparr>kv_key = sk_key n, kv_value = sk_value n, kv_tombstone = sk_tombstone n\<rparr>"

fun chain :: "nat \<Rightarrow> skipNode list \<Rightarrow> nat option \<Rightarrow> kvEntry list option" where
  "chain fuel H None = Some []"
| "chain fuel H (Some n) =
     (case fuel of 0 \<Rightarrow> None
      | Suc f \<Rightarrow> do { nx \<leftarrow> node_next H n 0;
                      es \<leftarrow> chain f H nx;
                      Some (node_entry (H ! n) # es) })"

definition mem_entries :: "memtable \<Rightarrow> kvEntry list option" where
  "mem_entries m = do { first \<leftarrow> node_next (m_heap m) 0 0; chain (length (m_heap m)) (m_heap m) first }"

definition approxSize :: "memtable \<Rightarrow> int" where
  "approxSize m = m_size m"

section \<open>The skiplist invariant\<close>

abbreviation height :: "skipNode list \<Rightarrow> nat \<Rightarrow> nat" where
  "height H a \<equiv> length (sk_next (H ! a))"

text \<open>The node at a position of the bottom level; position 0 is the head.\<close>

definition at :: "nat list \<Rightarrow> nat \<Rightarrow> nat" where
  "at ns k = (0 # ns) ! k"

lemma at_simps [simp]: "at ns 0 = 0" "at ns (Suc k) = ns ! k"
  by (simp_all add: at_def)

text \<open>\<open>ns\<close> lists the nodes in the order of the bottom level: their keys ascend strictly, and the
  pointer of a node at a level leads to the next node that is high enough.\<close>

definition skiplist :: "skipNode list \<Rightarrow> nat list \<Rightarrow> bool" where
  "skiplist H ns \<longleftrightarrow> H \<noteq> [] \<and> height H 0 = maxHeight \<and> distinct ns \<and> set ns = {1..<length H} \<and>
     (\<forall>a \<in> set ns. 1 \<le> height H a \<and> height H a \<le> maxHeight) \<and>
     sorted_wrt (<) (map (\<lambda>a. sk_key (H ! a)) ns) \<and>
     (\<forall>k \<le> length ns. \<forall>i < height H (at ns k).
        sk_next (H ! at ns k) ! i = find (\<lambda>b. i < height H b) (drop k ns))"

definition node_map :: "skipNode list \<Rightarrow> nat list \<Rightarrow> gostring \<rightharpoonup> bytes \<times> bool" where
  "node_map H ns = map_of (map (\<lambda>a. (sk_key (H ! a), (sk_value (H ! a), sk_tombstone (H ! a)))) ns)"

text \<open>The number of nodes with a smaller key.\<close>

definition rank :: "skipNode list \<Rightarrow> nat list \<Rightarrow> gostring \<Rightarrow> nat" where
  "rank H ns key = length (takeWhile (\<lambda>a. sk_key (H ! a) < key) ns)"

lemma rank_le: "rank H ns key \<le> length ns"
  by (simp add: rank_def length_takeWhile_le)

lemma skiplist_at: "skiplist H ns \<Longrightarrow> k \<le> length ns \<Longrightarrow> at ns k < length H"
  by (cases k) (auto simp: skiplist_def dest!: nth_mem [of "k - 1" ns])

lemma skiplist_height: "skiplist H ns \<Longrightarrow> k \<le> length ns \<Longrightarrow> 1 \<le> height H (at ns k)"
  by (cases k) (auto simp: skiplist_def maxHeight_def)

lemma skiplist_height_le: "skiplist H ns \<Longrightarrow> k \<le> length ns \<Longrightarrow> height H (at ns k) \<le> maxHeight"
  by (cases k) (auto simp: skiplist_def)

lemma skiplist_next:
  "skiplist H ns \<Longrightarrow> k \<le> length ns \<Longrightarrow> i < height H (at ns k) \<Longrightarrow>
   node_next H (at ns k) i = Some (find (\<lambda>b. i < height H b) (drop k ns))"
  using skiplist_at [of H ns k] by (auto simp: node_next_def skiplist_def)

lemma skiplist_inj:
  "skiplist H ns \<Longrightarrow> j \<le> length ns \<Longrightarrow> k \<le> length ns \<Longrightarrow> at ns j = at ns k \<longleftrightarrow> j = k"
  unfolding at_def by (subst nth_eq_iff_index_eq) (auto simp: skiplist_def)

lemma skiplist_key_less:
  "skiplist H ns \<Longrightarrow> i < j \<Longrightarrow> j < length ns \<Longrightarrow> sk_key (H ! (ns ! i)) < sk_key (H ! (ns ! j))"
  by (simp add: skiplist_def sorted_wrt_iff_nth_less)

lemma rank_less:
  assumes "skiplist H ns" "j < length ns"
  shows "sk_key (H ! (ns ! j)) < key \<longleftrightarrow> j < rank H ns key"
proof
  assume "j < rank H ns key"
  then show "sk_key (H ! (ns ! j)) < key"
    unfolding rank_def using set_takeWhileD [OF nth_mem, of j _ ns] by (metis takeWhile_nth)
next
  assume a: "sk_key (H ! (ns ! j)) < key"
  show "j < rank H ns key"
  proof (rule ccontr)
    assume "\<not> ?thesis"
    then have r: "rank H ns key \<le> j" by simp
    then have "rank H ns key < length ns" using assms(2) by simp
    then have n: "\<not> sk_key (H ! (ns ! rank H ns key)) < key"
      unfolding rank_def by (rule nth_length_takeWhile)
    have "sk_key (H ! (ns ! rank H ns key)) \<le> sk_key (H ! (ns ! j))"
    proof (cases "rank H ns key = j")
      case False
      then have "sk_key (H ! (ns ! rank H ns key)) < sk_key (H ! (ns ! j))"
        using skiplist_key_less [OF assms(1)] assms(2) r by simp
      then show ?thesis by simp
    qed simp
    then show False using a n by (meson dual_order.strict_trans1 order_le_less_trans)
  qed
qed

section \<open>Searching\<close>

lemma find_drop_Some:
  assumes "find P (drop k ns) = Some y"
  shows "\<exists>j. k < j \<and> j \<le> length ns \<and> y = at ns j \<and> P y \<and> (\<forall>l. k < l \<and> l < j \<longrightarrow> \<not> P (at ns l))"
proof -
  obtain m where m: "m < length (drop k ns)" "P (drop k ns ! m)" "y = drop k ns ! m"
    "\<forall>l<m. \<not> P (drop k ns ! l)"
    using assms by (auto simp: find_Some_iff)
  have "\<not> P (at ns l)" if "k < l" "l < Suc (k + m)" for l
    using m(1,4) that by (cases l) (auto simp: nth_append dest: spec [of _ "l - Suc k"])
  then show ?thesis using m by (intro exI [of _ "Suc (k + m)"]) auto
qed

lemma find_drop_None:
  assumes "find P (drop k ns) = None" "k < l" "l \<le> length ns"
  shows "\<not> P (at ns l)"
proof -
  have "drop k ns ! (l - Suc k) = at ns l" "l - Suc k < length (drop k ns)"
    using assms(2,3) by (cases l; simp)+
  then have "at ns l \<in> set (drop k ns)" by (metis nth_mem)
  then show ?thesis using assms(1) by (auto simp: find_None_iff)
qed

text \<open>A walk on a level ends at the last node of that height with a smaller key.\<close>

lemma walk_spec:
  assumes sl: "skiplist H ns"
  shows "k \<le> rank H ns key \<Longrightarrow> i < height H (at ns k) \<Longrightarrow> rank H ns key - k \<le> fuel \<Longrightarrow>
    \<exists>k'. k \<le> k' \<and> k' \<le> rank H ns key \<and> walk fuel H key i (at ns k) = Some (at ns k') \<and>
      i < height H (at ns k') \<and> (\<forall>l. k' < l \<and> l \<le> rank H ns key \<longrightarrow> height H (at ns l) \<le> i)"
proof (induction fuel arbitrary: k)
  case (0 k)
  then have k: "k = rank H ns key" "k \<le> length ns" using rank_le [of H ns key] by auto
  have nx: "node_next H (at ns k) i = Some (find (\<lambda>b. i < height H b) (drop k ns))"
    using skiplist_next [OF sl k(2) 0(2)] .
  show ?case
  proof (cases "find (\<lambda>b. i < height H b) (drop k ns)")
    case None
    then show ?thesis using nx k 0 by (intro exI [of _ k]) (subst walk.simps, auto)
  next
    case (Some y)
    then obtain j where j: "k < j" "j \<le> length ns" "y = at ns j" using find_drop_Some by blast
    then have "\<not> sk_key (H ! y) < key" "y < length H"
      using rank_less [OF sl, of "j - 1" key] skiplist_at [OF sl j(2)] k(1) by (cases j; simp)+
    then show ?thesis using nx Some k 0 by (intro exI [of _ k]) (subst walk.simps, auto)
  qed
next
  case (Suc f k)
  have k: "k \<le> length ns" using Suc.prems(1) rank_le [of H ns key] by simp
  have nx: "node_next H (at ns k) i = Some (find (\<lambda>b. i < height H b) (drop k ns))"
    using skiplist_next [OF sl k Suc.prems(2)] .
  show ?case
  proof (cases "find (\<lambda>b. i < height H b) (drop k ns)")
    case None
    have "\<forall>l. k < l \<and> l \<le> rank H ns key \<longrightarrow> height H (at ns l) \<le> i"
      using find_drop_None [OF None] rank_le [of H ns key] by force
    then show ?thesis
      using nx None Suc.prems by (intro exI [of _ k]) (subst walk.simps, auto)
  next
    case (Some y)
    then obtain j where j: "k < j" "j \<le> length ns" "y = at ns j" "i < height H y"
      "\<And>l. k < l \<Longrightarrow> l < j \<Longrightarrow> height H (at ns l) \<le> i"
      using find_drop_Some [OF Some] by (auto simp: not_less)
    have yl: "y < length H" using skiplist_at [OF sl j(2)] j(3) by simp
    have key: "sk_key (H ! y) < key \<longleftrightarrow> j \<le> rank H ns key"
      using rank_less [OF sl, of "j - 1" key] j(1-3) by (cases j) auto
    show ?thesis
    proof (cases "j \<le> rank H ns key")
      case True
      have w: "walk (Suc f) H key i (at ns k) = walk f H key i (at ns j)"
        using nx Some yl key True j(3) by (subst walk.simps) simp
      obtain k' where "j \<le> k'" "k' \<le> rank H ns key" "walk f H key i (at ns j) = Some (at ns k')"
        "i < height H (at ns k')" "\<forall>l. k' < l \<and> l \<le> rank H ns key \<longrightarrow> height H (at ns l) \<le> i"
        using Suc.IH [OF True j(4) [unfolded j(3)]] j(1) Suc.prems(3) by (auto simp: le_diff_conv)
      then show ?thesis using w j(1) by (intro exI [of _ k']) auto
    next
      case False
      have "walk (Suc f) H key i (at ns k) = Some (at ns k)"
        using nx Some yl key False by (subst walk.simps) simp
      then show ?thesis
        using False Suc.prems j(5) by (intro exI [of _ k]) auto
    qed
  qed
qed

text \<open>After the search of a level: the last node of that height before the key.\<close>

definition pred_at :: "skipNode list \<Rightarrow> nat list \<Rightarrow> gostring \<Rightarrow> nat \<Rightarrow> nat \<Rightarrow> bool" where
  "pred_at H ns key i j \<longleftrightarrow> j \<le> rank H ns key \<and> i < height H (at ns j) \<and>
     (\<forall>l. j < l \<and> l \<le> rank H ns key \<longrightarrow> height H (at ns l) \<le> i)"

lemma length_skiplist: "skiplist H ns \<Longrightarrow> length H = Suc (length ns)"
  using distinct_card [of ns] by (cases H) (auto simp: skiplist_def)

lemma descend_spec:
  assumes sl: "skiplist H ns"
  shows "k \<le> rank H ns key \<Longrightarrow> m \<le> height H (at ns k) \<Longrightarrow>
    \<exists>k' upd. descend H key m (at ns k) = Some (at ns k', upd) \<and> length upd = m \<and> k \<le> k' \<and>
      k' \<le> rank H ns key \<and> (0 < m \<longrightarrow> k' = rank H ns key) \<and>
      (\<forall>i < m. \<exists>j. upd ! i = at ns j \<and> pred_at H ns key i j)"
proof (induction m arbitrary: k)
  case 0
  then show ?case by (intro exI [of _ k]) simp
next
  case (Suc i)
  have fuel: "rank H ns key - k \<le> length H"
    using rank_le [of H ns key] length_skiplist [OF sl] by simp
  obtain k1 where k1: "k \<le> k1" "k1 \<le> rank H ns key" "walk (length H) H key i (at ns k) = Some (at ns k1)"
    "i < height H (at ns k1)" "\<forall>l. k1 < l \<and> l \<le> rank H ns key \<longrightarrow> height H (at ns l) \<le> i"
    using walk_spec [OF sl Suc.prems(1) _ fuel, of i] Suc.prems(2) by auto
  obtain k2 upd where k2: "descend H key i (at ns k1) = Some (at ns k2, upd)" "length upd = i"
    "k1 \<le> k2" "k2 \<le> rank H ns key" "0 < i \<longrightarrow> k2 = rank H ns key"
    "\<forall>l < i. \<exists>j. upd ! l = at ns j \<and> pred_at H ns key l j"
    using Suc.IH [OF k1(2)] k1(4) by auto
  have "k2 = rank H ns key"
  proof (cases i)
    case 0
    then have "k2 = k1 \<or> at ns k2 = at ns k1" using k2(1) by simp
    moreover have "k1 = rank H ns key"
    proof (rule ccontr)
      assume "k1 \<noteq> rank H ns key"
      then have "height H (at ns (rank H ns key)) \<le> 0" using k1(2,5) 0 by auto
      then show False using skiplist_height [OF sl rank_le [of H ns key]] by simp
    qed
    ultimately show ?thesis using k2(3,4) by simp
  qed (use k2(5) in simp)
  moreover have "pred_at H ns key i k1" using k1 by (simp add: pred_at_def)
  ultimately show ?case
    using k1(1,3) k2 by (intro exI [of _ k2] exI [of _ "upd @ [at ns k1]"])
      (auto simp: nth_append less_Suc_eq)
qed

lemma find_positive:
  assumes "skiplist H ns" "k \<le> length ns"
  shows "find (\<lambda>b. 0 < height H b) (drop k ns) = (if k < length ns then Some (ns ! k) else None)"
proof (cases "k < length ns")
  case True
  then have "drop k ns = ns ! k # drop (Suc k) ns" by (simp add: Cons_nth_drop_Suc)
  moreover have "0 < height H (ns ! k)" using skiplist_height [OF assms(1), of "Suc k"] True by auto
  ultimately show ?thesis using True by simp
qed simp

text \<open>The search lands before the first node whose key is not smaller.\<close>

lemma search_spec:
  assumes "skiplist H ns"
  shows "\<exists>upd. descend H key maxHeight 0 = Some (at ns (rank H ns key), upd) \<and> length upd = maxHeight \<and>
      (\<forall>i < maxHeight. \<exists>j. upd ! i = at ns j \<and> pred_at H ns key i j)"
    "hit H key (at ns (rank H ns key)) =
       Some (if rank H ns key < length ns \<and> sk_key (H ! (ns ! rank H ns key)) = key
             then Some (ns ! rank H ns key) else None)"
proof -
  have "maxHeight \<le> height H (at ns 0)" using assms by (simp add: skiplist_def)
  from descend_spec [OF assms _ this, of key] show
    "\<exists>upd. descend H key maxHeight 0 = Some (at ns (rank H ns key), upd) \<and> length upd = maxHeight \<and>
      (\<forall>i < maxHeight. \<exists>j. upd ! i = at ns j \<and> pred_at H ns key i j)"
    by (auto simp: maxHeight_def)
  have h: "0 < height H (at ns (rank H ns key))"
    using skiplist_height [OF assms rank_le [of H ns key]] by linarith
  have nx: "node_next H (at ns (rank H ns key)) 0 =
      Some (if rank H ns key < length ns then Some (ns ! rank H ns key) else None)"
    using skiplist_next [OF assms rank_le h] find_positive [OF assms rank_le [of H ns key]] by (simp only:)
  have "rank H ns key < length ns \<Longrightarrow> ns ! rank H ns key < length H"
    using skiplist_at [OF assms, of "Suc (rank H ns key)"] by simp
  then show "hit H key (at ns (rank H ns key)) =
       Some (if rank H ns key < length ns \<and> sk_key (H ! (ns ! rank H ns key)) = key
             then Some (ns ! rank H ns key) else None)"
    using nx by (simp add: hit_def)
qed

lemma skiplist_distinct_keys:
  assumes "skiplist H ns"
  shows "distinct (map (\<lambda>a. sk_key (H ! a)) ns)"
  using assms strict_sorted_iff by (auto simp: skiplist_def)

lemma rank_hit_unique:
  assumes "skiplist H ns" "j < length ns" "sk_key (H ! (ns ! j)) = key"
  shows "j = rank H ns key"
proof (rule antisym)
  show "rank H ns key \<le> j" using rank_less [OF assms(1,2), of key] assms(3) by simp
  show "j \<le> rank H ns key"
  proof (rule ccontr)
    assume "\<not> ?thesis"
    then have "rank H ns key < j" by simp
    then have "sk_key (H ! (ns ! rank H ns key)) < key"
      using skiplist_key_less [OF assms(1) _ assms(2)] assms(3) by metis
    then show False
      using rank_less [OF assms(1), of "rank H ns key" key] \<open>rank H ns key < j\<close> assms(2) by simp
  qed
qed

lemma node_map_rank:
  assumes "skiplist H ns"
  shows "node_map H ns key = (if rank H ns key < length ns \<and> sk_key (H ! (ns ! rank H ns key)) = key
    then Some (sk_value (H ! (ns ! rank H ns key)), sk_tombstone (H ! (ns ! rank H ns key))) else None)"
proof -
  let ?f = "\<lambda>a. (sk_key (H ! a), (sk_value (H ! a), sk_tombstone (H ! a)))"
  have d: "distinct (map fst (map ?f ns))" using skiplist_distinct_keys [OF assms] by (simp add: comp_def)
  show ?thesis
  proof (cases "rank H ns key < length ns \<and> sk_key (H ! (ns ! rank H ns key)) = key")
    case True
    then have "ns ! rank H ns key \<in> set ns" by simp
    then have "?f (ns ! rank H ns key) \<in> ?f ` set ns" by (rule imageI [where f = ?f])
    then have mem: "?f (ns ! rank H ns key) \<in> set (map ?f ns)" by (simp only: set_map)
    have "map_of (map ?f ns) (fst (?f (ns ! rank H ns key))) = Some (snd (?f (ns ! rank H ns key)))"
      by (rule map_of_is_SomeI [OF d]) (use mem in \<open>simp only: prod.collapse\<close>)
    then show ?thesis using True by (simp add: node_map_def)
  next
    case False
    have "key \<notin> fst ` set (map ?f ns)"
    proof
      assume "key \<in> fst ` set (map ?f ns)"
      then obtain j where "j < length ns" "sk_key (H ! (ns ! j)) = key"
        by (auto simp: in_set_conv_nth)
      then show False using rank_hit_unique [OF assms] False by metis
    qed
    then have "node_map H ns key = None" by (simp only: node_map_def map_of_eq_None_iff not_False_eq_True)
    then show ?thesis using False by (simp only: if_False)
  qed
qed

lemma mem_get_spec:
  assumes "skiplist (m_heap m) ns"
  shows "mem_get m key = Some (case node_map (m_heap m) ns key of
    None \<Rightarrow> ([], False, False) | Some (v, t) \<Rightarrow> (v, t, True))"
  using search_spec [OF assms, of key] node_map_rank [OF assms, of key]
  by (auto simp: mem_get_def)

section \<open>Insertion\<close>

text \<open>Overwriting the value of a node.\<close>

lemma skiplist_overwrite:
  assumes "skiplist H ns" "n < length H"
  shows "skiplist (H[n := (H ! n)\<lparr>sk_value := v, sk_tombstone := t\<rparr>]) ns"
proof -
  let ?H = "H[n := (H ! n)\<lparr>sk_value := v, sk_tombstone := t\<rparr>]"
  have nx: "sk_next (?H ! a) = sk_next (H ! a)" and key: "sk_key (?H ! a) = sk_key (H ! a)" for a
    using assms(2) by (cases "a = n"; simp)+
  show ?thesis using assms(1) unfolding skiplist_def nx key by simp
qed

lemma node_map_overwrite:
  assumes "skiplist H ns" "j < length ns"
  shows "node_map (H[ns ! j := (H ! (ns ! j))\<lparr>sk_value := v, sk_tombstone := t\<rparr>]) ns =
    (node_map H ns)(sk_key (H ! (ns ! j)) \<mapsto> (v, t))"
proof
  let ?n = "ns ! j"
  let ?H = "H[?n := (H ! ?n)\<lparr>sk_value := v, sk_tombstone := t\<rparr>]"
  have n: "?n < length H" using skiplist_at [OF assms(1), of "Suc j"] assms(2) by simp
  have sl: "skiplist ?H ns" by (rule skiplist_overwrite [OF assms(1) n])
  have key: "sk_key (?H ! a) = sk_key (H ! a)" for a using n by (cases "a = ?n") simp_all
  have rank: "rank ?H ns k = rank H ns k" for k unfolding rank_def key ..
  fix k
  show "node_map ?H ns k = ((node_map H ns)(sk_key (H ! ?n) \<mapsto> (v, t))) k"
  proof (cases "k = sk_key (H ! ?n)")
    case True
    then have "rank H ns k = j" using rank_hit_unique [OF assms] by simp
    then show ?thesis using True assms(2) n by (simp add: node_map_rank [OF sl] rank key)
  next
    case False
    have "?H ! (ns ! rank H ns k) = H ! (ns ! rank H ns k)" if "sk_key (H ! (ns ! rank H ns k)) = k"
      using that False by (cases "ns ! rank H ns k = ?n") auto
    then show ?thesis
      using False by (auto simp: node_map_rank [OF sl] node_map_rank [OF assms(1)] rank key)
  qed
qed

text \<open>The heap after the first \<open>j\<close> levels of the new node \<open>n\<close> were linked.\<close>

definition linked :: "skipNode list \<Rightarrow> nat \<Rightarrow> nat list \<Rightarrow> nat \<Rightarrow> skipNode list \<Rightarrow> bool" where
  "linked H n upd j H' \<longleftrightarrow> length H' = length H \<and>
     (\<forall>a < length H. sk_key (H' ! a) = sk_key (H ! a) \<and> sk_value (H' ! a) = sk_value (H ! a) \<and>
        sk_tombstone (H' ! a) = sk_tombstone (H ! a) \<and> height H' a = height H a \<and>
        (\<forall>i < height H a. sk_next (H' ! a) ! i =
           (if a = n then (if i < j then sk_next (H ! (upd ! i)) ! i else sk_next (H ! n) ! i)
            else if i < j \<and> a = upd ! i then Some n else sk_next (H ! a) ! i)))"

lemma link_level_step:
  assumes "linked H n upd j H'" "j < length upd" "j < height H n" "n < length H"
    "upd ! j < length H" "upd ! j \<noteq> n" "j < height H (upd ! j)"
  shows "\<exists>H''. link_level n upd H' j = Some H'' \<and> linked H n upd (Suc j) H''"
proof -
  let ?u = "upd ! j"
  have L: "length H' = length H" and hn: "height H' n = height H n" and hu: "height H' ?u = height H ?u"
    and nu: "sk_next (H' ! ?u) ! j = sk_next (H ! ?u) ! j"
    using assms by (auto simp: linked_def)
  let ?H1 = "H'[n := (H' ! n)\<lparr>sk_next := (sk_next (H' ! n))[j := sk_next (H ! ?u) ! j]\<rparr>]"
  let ?H2 = "?H1[?u := (?H1 ! ?u)\<lparr>sk_next := (sk_next (?H1 ! ?u))[j := Some n]\<rparr>]"
  have "link_level n upd H' j = Some ?H2"
    using assms L hn hu nu by (simp add: link_level_def node_next_def Let_def)
  moreover have "linked H n upd (Suc j) ?H2"
    unfolding linked_def
  proof (intro conjI allI impI)
    show "length ?H2 = length H" using L by simp
    fix a assume a: "a < length H"
    have old: "sk_key (H' ! a) = sk_key (H ! a)" "sk_value (H' ! a) = sk_value (H ! a)"
        "sk_tombstone (H' ! a) = sk_tombstone (H ! a)" "height H' a = height H a"
      and nx: "\<And>i. i < height H a \<Longrightarrow> sk_next (H' ! a) ! i =
           (if a = n then (if i < j then sk_next (H ! (upd ! i)) ! i else sk_next (H ! n) ! i)
            else if i < j \<and> a = upd ! i then Some n else sk_next (H ! a) ! i)"
      using assms(1) a by (simp_all add: linked_def)
    have c: "?H2 ! a = (if a = ?u then (H' ! a)\<lparr>sk_next := (sk_next (H' ! a))[j := Some n]\<rparr>
        else if a = n then (H' ! a)\<lparr>sk_next := (sk_next (H' ! a))[j := sk_next (H ! ?u) ! j]\<rparr> else H' ! a)"
      using a L assms(4-6) by (simp add: nth_list_update)
    show "sk_key (?H2 ! a) = sk_key (H ! a)" "sk_value (?H2 ! a) = sk_value (H ! a)"
      "sk_tombstone (?H2 ! a) = sk_tombstone (H ! a)" "height ?H2 a = height H a"
      unfolding c using old by (cases "a = ?u"; cases "a = n"; simp)+
    fix i assume i: "i < height H a"
    show "sk_next (?H2 ! a) ! i =
        (if a = n then (if i < Suc j then sk_next (H ! (upd ! i)) ! i else sk_next (H ! n) ! i)
         else if i < Suc j \<and> a = upd ! i then Some n else sk_next (H ! a) ! i)"
    proof (cases "i = j")
      case True
      then show ?thesis unfolding c using i old(4) nx [OF i] assms(6) by (cases "a = ?u"; cases "a = n"; simp)
    next
      case False
      then have "sk_next (?H2 ! a) ! i = sk_next (H' ! a) ! i"
        unfolding c by (cases "a = ?u"; cases "a = n"; simp)
      then show ?thesis using nx [OF i] False by (simp add: less_Suc_eq)
    qed
  qed
  ultimately show ?thesis by blast
qed

lemma link_append: "link n upd H (xs @ ys) = Option.bind (link n upd H xs) (\<lambda>H'. link n upd H' ys)"
  by (induction xs arbitrary: H) (auto split: bind_splits)

lemma link_spec:
  assumes "h \<le> length upd" "h \<le> height H n" "n < length H"
    "\<And>i. i < h \<Longrightarrow> upd ! i < length H \<and> upd ! i \<noteq> n \<and> i < height H (upd ! i)"
  shows "\<exists>H'. link n upd H [0..<h] = Some H' \<and> linked H n upd h H'"
  using assms
proof (induction h)
  case 0
  then show ?case by (simp add: linked_def)
next
  case (Suc h)
  then obtain H1 where H1: "link n upd H [0..<h] = Some H1" "linked H n upd h H1" by auto
  obtain H2 where "link_level n upd H1 h = Some H2" "linked H n upd (Suc h) H2"
    using link_level_step [OF H1(2)] Suc.prems by (metis Suc_le_lessD lessI)
  then show ?case using H1(1) by (simp add: link_append)
qed

lemma find_append: "find P (xs @ ys) = (case find P xs of None \<Rightarrow> find P ys | Some x \<Rightarrow> Some x)"
  by (induction xs) auto

lemma find_none_between:
  assumes "j \<le> p" "p \<le> length ns" "\<And>l. j < l \<Longrightarrow> l \<le> p \<Longrightarrow> \<not> P (at ns l)"
  shows "find P (drop j ns) = find P (drop p ns)"
proof -
  have "drop j ns = drop j (take p ns) @ drop p ns"
    using assms(1,2) by (metis append_take_drop_id drop_append length_take min.absorb2 diff_is_0_eq drop_0)
  moreover have "find P (drop j (take p ns)) = None"
    unfolding find_None_iff
  proof
    assume "\<exists>x. x \<in> set (drop j (take p ns)) \<and> P x"
    then obtain m where "m < length (drop j (take p ns))" "P (drop j (take p ns) ! m)"
      by (metis in_set_conv_nth)
    moreover from this(1) have "Suc (j + m) \<le> p" by simp
    ultimately show False using assms(3) [of "Suc (j + m)"] assms(2) by simp
  qed
  ultimately show ?thesis by (simp add: find_append)
qed

lemma find_some_between:
  assumes "j < l" "l \<le> p" "p \<le> length ns" "P (at ns l)"
  shows "find P (drop j ns) = find P (drop j (take p ns))" "find P (drop j (take p ns)) \<noteq> None"
proof -
  have d: "drop j ns = drop j (take p ns) @ drop p ns"
    using assms(1-3) by (metis append_take_drop_id drop_append length_take min.absorb2 diff_is_0_eq drop_0
        less_imp_le order.trans)
  have "drop j (take p ns) ! (l - Suc j) = at ns l" "l - Suc j < length (drop j (take p ns))"
    using assms by (cases l; simp)+
  then have "at ns l \<in> set (drop j (take p ns))" by (metis nth_mem)
  then show n: "find P (drop j (take p ns)) \<noteq> None" using assms(4) by (auto simp: find_None_iff)
  then show "find P (drop j ns) = find P (drop j (take p ns))" by (auto simp: d find_append)
qed

lemma grow_bounds: "grow k h r = (h', r') \<Longrightarrow> h \<le> h' \<and> h' \<le> h + k"
  by (induction k h r rule: grow.induct) (fastforce split: list.splits if_splits)+

lemma randomHeight_bounds: "randomHeight r = (h, r') \<Longrightarrow> 1 \<le> h \<and> h \<le> maxHeight"
  using grow_bounds [of "maxHeight - 1" 1 r h r'] by (auto simp: randomHeight_def maxHeight_def)

text \<open>The position of a predecessor is determined by its level.\<close>

lemma pred_at_unique:
  assumes "pred_at H ns key i j" "k \<le> rank H ns key" "i < height H (at ns k)"
    "\<And>l. k < l \<Longrightarrow> l \<le> rank H ns key \<Longrightarrow> height H (at ns l) \<le> i"
  shows "k = j"
  using assms by (meson linorder_neqE_nat not_le pred_at_def)

lemma at_insert:
  assumes "p \<le> length ns"
  shows "at (take p ns @ n # drop p ns) k =
    (if k \<le> p then at ns k else if k = Suc p then n else at ns (k - 1))"
proof (cases k)
  case (Suc m)
  have "min (length ns) p = p" using assms by simp
  then show ?thesis
    using Suc assms by (cases "m < p"; cases "m = p") (auto simp: nth_append at_def nth_Cons')
qed simp

lemma drop_insert:
  assumes "p \<le> length ns"
  shows "drop k (take p ns @ n # drop p ns) =
    (if k \<le> p then drop k (take p ns) @ n # drop p ns else drop (k - 1) ns)"
proof (cases "k \<le> p")
  case False
  then obtain m where "k = Suc (p + m)" by (metis add_Suc_right less_imp_Suc_add not_le)
  then show ?thesis using assms by (simp add: add.commute)
qed (use assms in simp)

text \<open>Linking a new node at its predecessors keeps the invariant.\<close>

lemma linked_next:
  assumes sl: "skiplist H ns" and p: "p = rank H ns key" and h: "1 \<le> h" "h \<le> maxHeight"
    and upd: "\<And>i. i < maxHeight \<Longrightarrow> \<exists>j. upd ! i = at ns j \<and> pred_at H ns key i j"
    and L: "linked (H @ [nd]) (length H) upd h H'" and nd: "sk_next nd = replicate h None"
    and k: "k \<le> Suc (length ns)" "i < height H' (at (take p ns @ length H # drop p ns) k)"
  shows "sk_next (H' ! at (take p ns @ length H # drop p ns) k) ! i =
    find (\<lambda>b. i < height H' b) (drop k (take p ns @ length H # drop p ns))"
proof -
  let ?n = "length H" and ?ns = "take p ns @ length H # drop p ns"
  have pl: "p \<le> length ns" unfolding p by (rule rank_le)
  have ht: "height H' a = height H a" if "a < ?n" for a
    using L that by (simp add: linked_def nth_append)
  have hn: "height H' ?n = h" using L nd by (simp add: linked_def nth_append)
  have fc: "find (\<lambda>b. i < height H' b) xs = find (\<lambda>b. i < height H b) xs" if "set xs \<subseteq> set ns" for xs
  proof (rule find_cong)
    fix x assume "x \<in> set xs"
    then have "x < ?n" using that sl by (auto simp: skiplist_def)
    then show "(i < height H' x) = (i < height H x)" using ht by simp
  qed simp
  have sub: "set (drop a (take b ns)) \<subseteq> set ns" "set (drop a ns) \<subseteq> set ns" for a b
    by (meson set_drop_subset set_take_subset subset_trans)+
  have old: "sk_next (H' ! at ns j) ! i = (if i < h \<and> at ns j = upd ! i then Some ?n
      else find (\<lambda>b. i < height H b) (drop j ns))"
    if "j \<le> length ns" "i < height H (at ns j)" for j
    using L that skiplist_at [OF sl that(1)] sl by (auto simp: linked_def nth_append skiplist_def)
  consider (before) "k \<le> p" | (new) "k = Suc p" | (after) "Suc p < k" by linarith
  then show ?thesis
  proof cases
    case before
    have a: "at ?ns k = at ns k" using before by (simp add: at_insert [OF pl])
    have kl: "k \<le> length ns" using before pl by simp
    have ik: "i < height H (at ns k)" using k(2) a ht skiplist_at [OF sl kl] by simp
    have im: "i < maxHeight"
      using ik skiplist_height_le [OF sl kl] by simp
    obtain j where j: "upd ! i = at ns j" "pred_at H ns key i j" using upd [OF im] by blast
    have jl: "j \<le> length ns" using j(2) pl by (simp add: pred_at_def p)
    have d: "drop k ?ns = drop k (take p ns) @ ?n # drop p ns" by (subst drop_insert [OF pl]) (simp add: before)
    show ?thesis
    proof (cases "\<exists>l. k < l \<and> l \<le> p \<and> i < height H (at ns l)")
      case True
      then obtain l where l: "k < l" "l \<le> p" "i < height H (at ns l)" by blast
      have "at ns k \<noteq> upd ! i"
      proof
        assume "at ns k = upd ! i"
        then have "k = j" using j(1) skiplist_inj [OF sl kl jl] by simp
        then show False using j(2) l by (auto simp: pred_at_def p not_le [symmetric])
      qed
      moreover have "find (\<lambda>b. i < height H b) (drop k ns) = find (\<lambda>b. i < height H b) (drop k (take p ns))"
        "find (\<lambda>b. i < height H b) (drop k (take p ns)) \<noteq> None"
        using find_some_between [OF l(1,2) pl, of "\<lambda>b. i < height H b"] l(3) by simp_all
      ultimately show ?thesis
        unfolding a d find_append fc [OF sub(1)] old [OF kl ik] by auto
    next
      case False
      then have kj: "k = j"
        using pred_at_unique [OF j(2) _ ik] before by (force simp: p not_less)
      have none: "find (\<lambda>b. i < height H b) (drop k (take p ns)) = None"
        unfolding find_None_iff
      proof
        assume "\<exists>x. x \<in> set (drop k (take p ns)) \<and> i < height H x"
        then obtain m where "m < length (drop k (take p ns))" "i < height H (drop k (take p ns) ! m)"
          by (metis in_set_conv_nth)
        then show False using False pl by (auto dest: spec [of _ "Suc (k + m)"])
      qed
      have rest: "find (\<lambda>b. i < height H b) (drop k ns) = find (\<lambda>b. i < height H b) (drop p ns)"
        using find_none_between [OF before pl, of "\<lambda>b. i < height H b"] False by blast
      show ?thesis
        unfolding a d find_append fc [OF sub(1)] none old [OF kl ik]
        using j(1) kj rest fc [OF sub(2)] hn by auto
    qed
  next
    case new
    have a1: "at ?ns k = ?n" by (subst at_insert [OF pl]) (simp add: new)
    have a2: "drop k ?ns = drop p ns" by (subst drop_insert [OF pl]) (simp add: new)
    note a = a1 a2
    have ih: "i < h" using k(2) a(1) hn by simp
    then obtain j where j: "upd ! i = at ns j" "pred_at H ns key i j" using upd h(2) by (meson less_le_trans)
    have jl: "j \<le> length ns" "i < height H (at ns j)" using j(2) pl by (simp_all add: pred_at_def p)
    have "sk_next (H' ! ?n) ! i = sk_next (H ! at ns j) ! i"
      using L ih nd j(1) skiplist_at [OF sl jl(1)] by (simp add: linked_def nth_append)
    also have "\<dots> = find (\<lambda>b. i < height H b) (drop j ns)"
      using sl jl by (simp add: skiplist_def)
    also have "\<dots> = find (\<lambda>b. i < height H b) (drop p ns)"
      using j(2) by (intro find_none_between [OF _ pl]) (auto simp: pred_at_def p not_less)
    finally show ?thesis unfolding a fc [OF sub(2)] .
  next
    case after
    have a1: "at ?ns k = at ns (k - 1)" using after by (simp add: at_insert [OF pl])
    have a2: "drop k ?ns = drop (k - 1) ns" using after by (subst drop_insert [OF pl]) simp
    note a = a1 a2
    have kl: "k - 1 \<le> length ns" using k(1) by simp
    have ik: "i < height H (at ns (k - 1))" using k(2) a(1) ht skiplist_at [OF sl kl] by simp
    have "at ns (k - 1) \<noteq> upd ! i" if ih: "i < h"
    proof
      assume e: "at ns (k - 1) = upd ! i"
      obtain j where j: "upd ! i = at ns j" "pred_at H ns key i j"
        using upd ih h(2) by (meson less_le_trans)
      have "j \<le> p" using j(2) by (simp add: pred_at_def p)
      then show False using e j(1) skiplist_inj [OF sl kl, of j] pl after by simp
    qed
    then show ?thesis unfolding a fc [OF sub(2)] old [OF kl ik] by auto
  qed
qed

lemma sorted_insert_key:
  assumes sl: "skiplist H ns" and p: "p = rank H ns key"
    and miss: "\<not> (p < length ns \<and> sk_key (H ! (ns ! p)) = key)"
  shows "sorted_wrt (<) (map (\<lambda>a. sk_key (H ! a)) (take p ns) @ key # map (\<lambda>a. sk_key (H ! a)) (drop p ns))"
proof -
  have ks: "sorted_wrt (<) (map (\<lambda>a. sk_key (H ! a)) ns)" using sl by (simp add: skiplist_def)
  have lo: "sk_key (H ! a) < key" if "a \<in> set (take p ns)" for a
  proof -
    have tk: "take p ns = takeWhile (\<lambda>a. sk_key (H ! a) < key) ns"
      unfolding p rank_def by (rule takeWhile_eq_take [symmetric])
    show ?thesis by (rule set_takeWhileD [OF that [unfolded tk], THEN conjunct2])
  qed
  have hi: "key < sk_key (H ! a)" if a: "a \<in> set (drop p ns)" for a
  proof -
    obtain m where m: "m < length ns - p" "a = ns ! (p + m)"
      using a by (auto simp: in_set_conv_nth)
    then have "\<not> sk_key (H ! a) < key" using rank_less [OF sl, of "p + m" key] p by simp
    moreover have "sk_key (H ! a) \<noteq> key"
    proof
      assume e: "sk_key (H ! a) = key"
      have lt: "p + m < length ns" using m(1) by linarith
      have "p + m = rank H ns key" by (rule rank_hit_unique [OF sl lt]) (use e m(2) in simp)
      then have "m = 0" using p by linarith
      then show False using e m(2) lt miss by simp
    qed
    ultimately show ?thesis by (metis linorder_less_linear)
  qed
  have "sorted_wrt (<) (map (\<lambda>a. sk_key (H ! a)) (take p ns) @ map (\<lambda>a. sk_key (H ! a)) (drop p ns))"
    using ks by (simp flip: map_append)
  then show ?thesis using lo hi by (simp add: sorted_wrt_append)
qed

lemma skiplist_insert:
  assumes sl: "skiplist H ns" and p: "p = rank H ns key" and h: "1 \<le> h" "h \<le> maxHeight"
    and miss: "\<not> (p < length ns \<and> sk_key (H ! (ns ! p)) = key)"
    and upd: "\<And>i. i < maxHeight \<Longrightarrow> \<exists>j. upd ! i = at ns j \<and> pred_at H ns key i j"
    and nd: "nd = \<lparr>sk_key = key, sk_value = v, sk_tombstone = t, sk_next = replicate h None\<rparr>"
    and L: "linked (H @ [nd]) (length H) upd h H'"
  shows "skiplist H' (take p ns @ length H # drop p ns) \<and>
    node_map H' (take p ns @ length H # drop p ns) = (node_map H ns)(key \<mapsto> (v, t))"
proof -
  let ?n = "length H" and ?ns = "take p ns @ length H # drop p ns"
  have pl: "p \<le> length ns" unfolding p by (rule rank_le)
  have len: "length H' = Suc ?n" using L by (simp add: linked_def)
  have old: "sk_key (H' ! a) = sk_key (H ! a)" "sk_value (H' ! a) = sk_value (H ! a)"
      "sk_tombstone (H' ! a) = sk_tombstone (H ! a)" "height H' a = height H a" if "a < ?n" for a
    using L that by (simp_all add: linked_def nth_append)
  have new: "sk_key (H' ! ?n) = key" "sk_value (H' ! ?n) = v" "sk_tombstone (H' ! ?n) = t"
      "height H' ?n = h"
    using L nd by (simp_all add: linked_def nth_append)
  have inH: "a < ?n" if "a \<in> set ns" for a using that sl by (auto simp: skiplist_def)
  have sub: "set (take p ns) \<subseteq> set ns" "set (drop p ns) \<subseteq> set ns"
    by (rule set_take_subset, rule set_drop_subset)
  have mk: "map (\<lambda>a. sk_key (H' ! a)) xs = map (\<lambda>a. sk_key (H ! a)) xs" if "set xs \<subseteq> set ns" for xs
    using that inH old by auto
  have "skiplist H' ?ns"
    unfolding skiplist_def
  proof (intro conjI)
    show "H' \<noteq> []" using len by auto
    have "0 < ?n" using sl by (simp add: skiplist_def)
    then show "height H' 0 = maxHeight" using old(4) [of 0] sl by (simp add: skiplist_def)
    have "distinct ns" "?n \<notin> set ns" using sl by (auto simp: skiplist_def)
    then show "distinct ?ns"
      using set_take_disj_set_drop_if_distinct [of ns p p]
      by (auto dest: in_set_takeD in_set_dropD)
    have "set ?ns = insert ?n (set ns)"
      using set_append [of "take p ns" "drop p ns"] by auto
    then show "set ?ns = {1..<length H'}" using sl len \<open>0 < ?n\<close>
      by (simp add: skiplist_def atLeastLessThanSuc Suc_le_eq del: length_greater_0_conv)
    show "\<forall>a \<in> set ?ns. 1 \<le> height H' a \<and> height H' a \<le> maxHeight"
    proof
      fix a assume "a \<in> set ?ns"
      then consider "a = ?n" | "a \<in> set ns" using sub by auto
      then show "1 \<le> height H' a \<and> height H' a \<le> maxHeight"
        using new(4) h old(4) inH sl by cases (auto simp: skiplist_def)
    qed
    show "sorted_wrt (<) (map (\<lambda>a. sk_key (H' ! a)) ?ns)"
      unfolding map_append list.map mk [OF sub(1)] mk [OF sub(2)] new(1)
      by (rule sorted_insert_key [OF sl p miss])
    have "length ?ns = Suc (length ns)" using pl by simp
    then show "\<forall>k\<le>length ?ns. \<forall>i<height H' (at ?ns k).
        sk_next (H' ! at ?ns k) ! i = find (\<lambda>b. i < height H' b) (drop k ?ns)"
      using linked_next [OF sl p h upd L] nd by simp
  qed
  moreover have "node_map H' ?ns = (node_map H ns)(key \<mapsto> (v, t))"
  proof -
    let ?f = "\<lambda>H a. (sk_key (H ! a), (sk_value (H ! a), sk_tombstone (H ! a)))"
    have f: "map (?f H') xs = map (?f H) xs" if "set xs \<subseteq> set ns" for xs
      using that inH old by auto
    have "key \<notin> fst ` set (map (?f H) ns)"
    proof
      assume "key \<in> fst ` set (map (?f H) ns)"
      then obtain j where "j < length ns" "sk_key (H ! (ns ! j)) = key" by (auto simp: in_set_conv_nth)
      then show False using rank_hit_unique [OF sl] miss p by metis
    qed
    then have tk: "map_of (map (?f H) (take p ns)) key = None"
      using sub(1) by (auto simp: map_of_eq_None_iff)
    have "node_map H' ?ns = (map_of (map (?f H) (drop p ns)))(key \<mapsto> (v, t)) ++ map_of (map (?f H) (take p ns))"
      by (simp add: node_map_def f [OF sub(1)] f [OF sub(2)] new)
    also have "\<dots> = (map_of (map (?f H) (drop p ns)) ++ map_of (map (?f H) (take p ns)))(key \<mapsto> (v, t))"
      using tk by (auto simp: map_add_def fun_eq_iff split: option.splits)
    also have "map_of (map (?f H) (drop p ns)) ++ map_of (map (?f H) (take p ns)) = node_map H ns"
      unfolding node_map_def by (simp flip: map_of_append map_append)
    finally show ?thesis .
  qed
  ultimately show ?thesis by blast
qed

section \<open>The memtable as a sorted map\<close>

definition node_size :: "skipNode \<Rightarrow> int" where
  "node_size n = int (length (sk_key n)) + int (length (sk_value n)) + 32"

text \<open>The invariant of a memtable: the skiplist, and the two counters.\<close>

definition mem_inv :: "memtable \<Rightarrow> nat list \<Rightarrow> bool" where
  "mem_inv m ns \<longleftrightarrow> skiplist (m_heap m) ns \<and> m_count m = length ns \<and>
     m_size m = (\<Sum>a \<in> {1..<length (m_heap m)}. node_size (m_heap m ! a))"

definition mem_ok :: "memtable \<Rightarrow> bool" where
  "mem_ok m \<longleftrightarrow> (\<exists>ns. mem_inv m ns)"

definition entry_map :: "kvEntry list \<Rightarrow> gostring \<rightharpoonup> bytes \<times> bool" where
  "entry_map es = map_of (map (\<lambda>e. (kv_key e, (kv_value e, kv_tombstone e))) es)"

text \<open>The contents of a memtable, whatever the order of the nodes in the heap.\<close>

definition mem_map :: "memtable \<Rightarrow> gostring \<rightharpoonup> bytes \<times> bool" where
  "mem_map m = node_map (m_heap m) [1..<length (m_heap m)]"

lemma node_map_entry_map: "node_map H ns = entry_map (map (\<lambda>a. node_entry (H ! a)) ns)"
  by (simp add: node_map_def entry_map_def node_entry_def comp_def)

lemma mem_map_node_map:
  assumes "skiplist (m_heap m) ns"
  shows "mem_map m = node_map (m_heap m) ns"
proof -
  let ?f = "\<lambda>a. (sk_key (m_heap m ! a), (sk_value (m_heap m ! a), sk_tombstone (m_heap m ! a)))"
  have d: "distinct (map (\<lambda>a. sk_key (m_heap m ! a)) ns)" by (rule skiplist_distinct_keys [OF assms])
  have s: "set [1..<length (m_heap m)] = set ns" using assms by (simp add: skiplist_def)
  then have "distinct (map (\<lambda>a. sk_key (m_heap m ! a)) [1..<length (m_heap m)])"
    using d by (simp add: distinct_map)
  then show ?thesis
    unfolding mem_map_def node_map_def using d s
    by (subst map_of_inject_set) (simp_all add: comp_def)
qed

lemma chain_spec:
  assumes sl: "skiplist H ns"
  shows "length ns - k \<le> fuel \<Longrightarrow> k \<le> length ns \<Longrightarrow>
    chain fuel H (find (\<lambda>b. 0 < height H b) (drop k ns)) = Some (map (\<lambda>a. node_entry (H ! a)) (drop k ns))"
proof (induction fuel arbitrary: k)
  case 0
  then show ?case by simp
next
  case (Suc f)
  show ?case
  proof (cases "k < length ns")
    case True
    then have d: "drop k ns = ns ! k # drop (Suc k) ns" by (simp add: Cons_nth_drop_Suc)
    have "0 < height H (ns ! k)" using skiplist_height [OF sl, of "Suc k"] True unfolding at_simps by linarith
    moreover have "node_next H (ns ! k) 0 = Some (find (\<lambda>b. 0 < height H b) (drop (Suc k) ns))"
      using skiplist_next [OF sl, of "Suc k" 0] True calculation by simp
    moreover have "chain f H (find (\<lambda>b. 0 < height H b) (drop (Suc k) ns)) =
        Some (map (\<lambda>a. node_entry (H ! a)) (drop (Suc k) ns))"
      using Suc.IH [of "Suc k"] Suc.prems True by simp
    ultimately show ?thesis unfolding d by simp
  qed (use Suc.prems in simp)
qed

lemma mem_entries_spec:
  assumes "skiplist (m_heap m) ns"
  shows "mem_entries m = Some (map (\<lambda>a. node_entry (m_heap m ! a)) ns)"
proof -
  have "0 < height (m_heap m) (at ns 0)" using skiplist_height [OF assms, of 0] by linarith
  then have "node_next (m_heap m) 0 0 = Some (find (\<lambda>b. 0 < height (m_heap m) b) ns)"
    using skiplist_next [OF assms, of 0 0] by simp
  then show ?thesis
    using chain_spec [OF assms, of 0 "length (m_heap m)"] length_skiplist [OF assms]
    by (simp add: mem_entries_def)
qed

lemma mem_new_inv: "mem_inv (newMemtable r) []"
  by (simp add: mem_inv_def newMemtable_def skiplist_def)

lemma sum_update:
  fixes f :: "skipNode \<Rightarrow> int"
  assumes "finite A" "n \<in> A" "\<forall>a \<in> A. a < length H"
  shows "(\<Sum>a \<in> A. f (H[n := x] ! a)) = (\<Sum>a \<in> A. f (H ! a)) + (f x - f (H ! n))"
proof -
  have "(\<Sum>a \<in> A. f (H[n := x] ! a)) = f x + (\<Sum>a \<in> A - {n}. f (H[n := x] ! a))"
    using assms by (simp add: sum.remove)
  also have "(\<Sum>a \<in> A - {n}. f (H[n := x] ! a)) = (\<Sum>a \<in> A - {n}. f (H ! a))"
    by (rule sum.cong) auto
  also have "f x + \<dots> = (\<Sum>a \<in> A. f (H ! a)) + (f x - f (H ! n))"
    using assms by (simp add: sum.remove [of A n])
  finally show ?thesis .
qed

lemma mem_put_overwrite:
  assumes inv: "mem_inv m ns" and j: "j = rank (m_heap m) ns key" "j < length ns"
    and key: "sk_key (m_heap m ! (ns ! j)) = key"
  shows "\<exists>m'. mem_put m key v t = Some m' \<and> mem_inv m' ns \<and>
    node_map (m_heap m') ns = (node_map (m_heap m) ns)(key \<mapsto> (v, t))"
proof -
  let ?H = "m_heap m" and ?n = "ns ! j"
  have sl: "skiplist ?H ns" using inv by (simp add: mem_inv_def)
  have n: "?n < length ?H" "?n \<in> {1..<length ?H}"
    using skiplist_at [OF sl, of "Suc j"] j sl nth_mem [of j ns] by (auto simp: skiplist_def)
  obtain upd where d: "descend ?H key maxHeight 0 = Some (at ns j, upd)"
    using search_spec(1) [OF sl, of key] j by blast
  have h: "hit ?H key (at ns j) = Some (Some ?n)"
    using search_spec(2) [OF sl, of key] j key by simp
  have "mem_put m key v t = Some (m\<lparr>m_heap := ?H[?n := (?H ! ?n)\<lparr>sk_value := v, sk_tombstone := t\<rparr>],
      m_size := m_size m + (int (length v) - int (length (sk_value (?H ! ?n))))\<rparr>)"
    by (simp add: mem_put_def d h)
  moreover have "(\<Sum>a \<in> {1..<length ?H}. node_size (?H[?n := (?H ! ?n)\<lparr>sk_value := v, sk_tombstone := t\<rparr>] ! a)) =
      m_size m + (int (length v) - int (length (sk_value (?H ! ?n))))"
    using sum_update [of "{1..<length ?H}" ?n ?H node_size] n(2) inv by (simp add: mem_inv_def node_size_def)
  ultimately show ?thesis
    using skiplist_overwrite [OF sl n(1)] node_map_overwrite [OF sl j(2)] inv key
    by (simp add: mem_inv_def)
qed

lemma mem_put_insert:
  assumes inv: "mem_inv m ns" and p: "p = rank (m_heap m) ns key"
    and miss: "\<not> (p < length ns \<and> sk_key (m_heap m ! (ns ! p)) = key)"
  shows "\<exists>m' ns'. mem_put m key v t = Some m' \<and> mem_inv m' ns' \<and>
    node_map (m_heap m') ns' = (node_map (m_heap m) ns)(key \<mapsto> (v, t))"
proof -
  let ?H = "m_heap m" and ?n = "length (m_heap m)"
  have sl: "skiplist ?H ns" using inv by (simp add: mem_inv_def)
  obtain upd where d: "descend ?H key maxHeight 0 = Some (at ns p, upd)" and lu: "length upd = maxHeight"
    and upd: "\<And>i. i < maxHeight \<Longrightarrow> \<exists>j. upd ! i = at ns j \<and> pred_at ?H ns key i j"
    using search_spec(1) [OF sl, of key] p by blast
  have hi: "hit ?H key (at ns p) = Some None" using search_spec(2) [OF sl, of key] p miss by auto
  obtain h r where r: "randomHeight (m_rand m) = (h, r)" by (cases "randomHeight (m_rand m)")
  have h: "1 \<le> h" "h \<le> maxHeight" using randomHeight_bounds [OF r] by auto
  define nd where nd: "nd = \<lparr>sk_key = key, sk_value = v, sk_tombstone = t, sk_next = replicate h None\<rparr>"
  have up: "upd ! i < length (?H @ [nd]) \<and> upd ! i \<noteq> ?n \<and> i < height (?H @ [nd]) (upd ! i)" if i: "i < h" for i
  proof -
    obtain j where j: "upd ! i = at ns j" "pred_at ?H ns key i j" using upd [of i] h i by auto
    then have "j \<le> length ns" using rank_le [of ?H ns key] by (simp add: pred_at_def)
    from skiplist_at [OF sl this] show ?thesis using j by (simp add: pred_at_def nth_append)
  qed
  obtain H' where H': "link ?n upd (?H @ [nd]) [0..<h] = Some H'" "linked (?H @ [nd]) ?n upd h H'"
    using link_spec [of h upd "?H @ [nd]" ?n] lu h up nd by auto
  from skiplist_insert [OF sl p h miss upd nd H'(2)]
  have new: "skiplist H' (take p ns @ ?n # drop p ns)"
    "node_map H' (take p ns @ ?n # drop p ns) = (node_map ?H ns)(key \<mapsto> (v, t))" by auto
  have len: "length H' = Suc ?n" using H'(2) by (simp add: linked_def)
  have old: "node_size (H' ! a) = node_size ((?H @ [nd]) ! a)" if "a < Suc ?n" for a
    using H'(2) that by (simp add: linked_def node_size_def)
  have "0 < ?n" using sl by (simp add: skiplist_def)
  then have "{1..<length H'} = insert ?n {1..<?n}" using len by (simp add: atLeastLessThanSuc Suc_le_eq)
  then have "(\<Sum>a \<in> {1..<length H'}. node_size (H' ! a)) = node_size nd + (\<Sum>a \<in> {1..<?n}. node_size (?H ! a))"
    using old by (simp add: nth_append)
  then have size: "(\<Sum>a \<in> {1..<length H'}. node_size (H' ! a)) = m_size m + int (length key) + int (length v) + 32"
    using inv by (simp add: mem_inv_def nd node_size_def)
  have "p \<le> length ns" unfolding p by (rule rank_le)
  then have "mem_inv (m\<lparr>m_heap := H', m_size := m_size m + int (length key) + int (length v) + 32,
      m_count := m_count m + 1, m_rand := r\<rparr>) (take p ns @ ?n # drop p ns)"
    using new(1) size inv by (simp add: mem_inv_def)
  moreover have "mem_put m key v t = Some (m\<lparr>m_heap := H',
      m_size := m_size m + int (length key) + int (length v) + 32,
      m_count := m_count m + 1, m_rand := r\<rparr>)"
    using H'(1) nd by (simp add: mem_put_def d hi r)
  ultimately show ?thesis using new(2) by auto
qed

lemma mem_put_spec:
  assumes "mem_ok m"
  shows "\<exists>m'. mem_put m key v t = Some m' \<and> mem_ok m' \<and> mem_map m' = (mem_map m)(key \<mapsto> (v, t))"
proof -
  obtain ns where inv: "mem_inv m ns" using assms by (auto simp: mem_ok_def)
  obtain m' ns' where "mem_put m key v t = Some m'" "mem_inv m' ns'"
      "node_map (m_heap m') ns' = (node_map (m_heap m) ns)(key \<mapsto> (v, t))"
    using mem_put_overwrite [OF inv] mem_put_insert [OF inv] by metis
  then show ?thesis using inv mem_map_node_map by (auto simp: mem_ok_def mem_inv_def)
qed

text \<open>
  What the engine relies on: a table of entries that is written key by key, looked up, and dumped
  in key order.  \<open>contents\<close> is the map a table stands for.
\<close>

definition sorted_entries :: "kvEntry list \<Rightarrow> bool" where
  "sorted_entries es \<longleftrightarrow> sorted_wrt (<) (map kv_key es)"

definition found :: "(bytes \<times> bool) option \<Rightarrow> bytes \<times> bool \<times> bool" where
  "found x = (case x of None \<Rightarrow> ([], False, False) | Some (v, t) \<Rightarrow> (v, t, True))"

primrec run_puts :: "('m \<Rightarrow> gostring \<Rightarrow> bytes \<Rightarrow> bool \<Rightarrow> 'm option) \<Rightarrow> 'm \<Rightarrow>
    (gostring \<times> bytes \<times> bool) list \<Rightarrow> 'm option" where
  "run_puts put m [] = Some m"
| "run_puts put m (op # ops) =
     (case op of (k, v, t) \<Rightarrow> do { m' \<leftarrow> put m k v t; run_puts put m' ops })"

locale entry_table =
  fixes put :: "'m \<Rightarrow> gostring \<Rightarrow> bytes \<Rightarrow> bool \<Rightarrow> 'm option"
    and lookup :: "'m \<Rightarrow> gostring \<Rightarrow> (bytes \<times> bool \<times> bool) option"
    and entries :: "'m \<Rightarrow> kvEntry list option"
    and ok :: "'m \<Rightarrow> bool"
    and contents :: "'m \<Rightarrow> gostring \<rightharpoonup> bytes \<times> bool"
  assumes put_ok: "ok m \<Longrightarrow>
      \<exists>m'. put m k v t = Some m' \<and> ok m' \<and> contents m' = (contents m)(k \<mapsto> (v, t))"
    and lookup_ok: "ok m \<Longrightarrow> lookup m k = Some (found (contents m k))"
    and entries_ok: "ok m \<Longrightarrow>
      \<exists>es. entries m = Some es \<and> sorted_entries es \<and> entry_map es = contents m"
begin

lemma run_puts_ok:
  "ok m \<Longrightarrow> \<exists>m'. run_puts put m ops = Some m' \<and> ok m' \<and> contents m' = contents m ++ map_of (rev ops)"
proof (induction ops arbitrary: m)
  case Nil
  then show ?case by simp
next
  case (Cons op ops)
  obtain k v t where op: "op = (k, v, t)" by (cases op)
  obtain m1 where m1: "put m k v t = Some m1" "ok m1" "contents m1 = (contents m)(k \<mapsto> (v, t))"
    using put_ok [OF Cons.prems] by blast
  have "(contents m)(k \<mapsto> (v, t)) ++ map_of (rev ops) = contents m ++ map_of (rev (op # ops))"
    by (rule ext) (simp add: op map_add_def split: option.split)
  moreover obtain m' where "run_puts put m1 ops = Some m'" "ok m'" "contents m' = contents m1 ++ map_of (rev ops)"
    using Cons.IH [OF m1(2)] by blast
  moreover have "run_puts put m (op # ops) = run_puts put m1 ops" by (simp add: op m1(1))
  ultimately show ?case using m1(3) by metis
qed

lemma lookup_after_puts:
  assumes "ok m" "contents m = Map.empty" "run_puts put m ops = Some m'"
  shows "lookup m' k = Some (found (map_of (rev ops) k))"
  using run_puts_ok [OF assms(1), of ops] assms lookup_ok [of m' k] by auto

end

lemma mem_ok_new: "mem_ok (newMemtable r)"
  using mem_new_inv by (auto simp: mem_ok_def)

lemma mem_map_new [simp]: "mem_map (newMemtable r) = Map.empty"
  by (simp add: mem_map_def newMemtable_def node_map_def)

interpretation mt: entry_table mem_put mem_get mem_entries mem_ok mem_map
proof
  fix m k v t
  assume "mem_ok m"
  then show "\<exists>m'. mem_put m k v t = Some m' \<and> mem_ok m' \<and> mem_map m' = (mem_map m)(k \<mapsto> (v, t))"
    by (rule mem_put_spec)
next
  fix m k
  assume "mem_ok m"
  then show "mem_get m k = Some (found (mem_map m k))"
    using mem_get_spec mem_map_node_map by (auto simp: mem_ok_def mem_inv_def found_def)
next
  fix m
  assume "mem_ok m"
  then obtain ns where ns: "skiplist (m_heap m) ns" by (auto simp: mem_ok_def mem_inv_def)
  then have "sorted_entries (map (\<lambda>a. node_entry (m_heap m ! a)) ns)"
    by (simp add: sorted_entries_def comp_def node_entry_def skiplist_def)
  then show "\<exists>es. mem_entries m = Some es \<and> sorted_entries es \<and> entry_map es = mem_map m"
    using mem_entries_spec [OF ns] mem_map_node_map [OF ns] by (simp add: node_map_entry_map)
qed

definition entry_size :: "kvEntry \<Rightarrow> int" where
  "entry_size e = int (length (kv_key e)) + int (length (kv_value e)) + 32"

lemma mem_counters:
  assumes "mem_ok m" "mem_entries m = Some es"
  shows "m_count m = length es \<and> approxSize m = sum_list (map entry_size es)"
proof -
  obtain ns where ns: "mem_inv m ns" using assms(1) by (auto simp: mem_ok_def)
  then have sl: "skiplist (m_heap m) ns" by (simp add: mem_inv_def)
  have "(\<Sum>a \<in> {1..<length (m_heap m)}. node_size (m_heap m ! a)) = (\<Sum>a \<leftarrow> ns. node_size (m_heap m ! a))"
    using sl by (simp add: skiplist_def sum_list_distinct_conv_sum_set)
  then show ?thesis
    using assms(2) ns mem_entries_spec [OF sl]
    by (auto simp: mem_inv_def approxSize_def comp_def node_entry_def entry_size_def node_size_def)
qed

text \<open>
  C19. The pointer-linked skiplist is a sorted map: after any sequence of puts, whatever heights the
  nodes drew, no put, get or dump panics or fails to end, get returns what the latest put of the key
  wrote (tombstones included), the dump lists the latest entry of every key in ascending key order,
  and the node count and the approximate size are those of the dump.
\<close>

theorem memtable_sorted_map:
  "\<exists>m es. run_puts mem_put (newMemtable r) ops = Some m \<and>
     (\<forall>key. mem_get m key = Some (found (map_of (rev ops) key))) \<and>
     mem_entries m = Some es \<and> sorted_entries es \<and> entry_map es = map_of (rev ops) \<and>
     m_count m = length es \<and> approxSize m = sum_list (map entry_size es)"
proof -
  obtain m where m: "run_puts mem_put (newMemtable r) ops = Some m" "mem_ok m" "mem_map m = map_of (rev ops)"
    using mt.run_puts_ok [OF mem_ok_new, of r ops] by auto
  obtain es where es: "mem_entries m = Some es" "sorted_entries es" "entry_map es = mem_map m"
    using mt.entries_ok [OF m(2)] by blast
  show ?thesis
    using m es mem_counters [OF m(2) es(1)] mt.lookup_ok [OF m(2)] by auto
qed

end
