(* ===== verification/Sstable.thy ===== *)
theory Sstable
  imports Memtable Wal
begin

text \<open>
  The sorted tables of \<open>storage/sstable.go\<close>: the byte layout that \<open>writeSSTable\<close> produces, opening a
  table from its bytes, and the lookups through the sparse index.  The lemmas show that opening
  inverts writing, that a lookup through the binary search and the block scan equals a lookup in the
  list of entries, and that the dump returns exactly the entries written.
\<close>

section \<open>Definitions\<close>

definition sstMagic :: u64 where "sstMagic = 0x5354414B564B5631"

definition indexEvery :: nat where "indexEvery = 16"

record sstIndexEntry =
  ix_key :: gostring
  ix_offset :: u64

text \<open>\<open>t_data\<close> are the bytes of the file behind the handle \<open>t.f\<close>, \<open>t_closed\<close> whether that handle
  was closed.\<close>

record sstable =
  t_path :: gostring
  t_data :: bytes
  t_closed :: bool
  t_index :: "sstIndexEntry list"
  t_minKey :: gostring
  t_maxKey :: gostring

datatype sst_err = SstIO | SstTooSmall | SstBadMagic | SstChecksum

text \<open>
  The outcomes of the coming calls on table files.  \<open>io_ok\<close> scripts calls that succeed or fail as a
  whole.  \<open>io_cut\<close> scripts transfers through a buffered reader or writer: the number of bytes that
  pass before an I/O error; a number past the end is a transfer without error, and so is the end of
  the script.
\<close>

record sst_io =
  io_ok :: "bool list"
  io_cut :: "nat list"

definition ok_next :: "sst_io \<Rightarrow> bool \<times> sst_io" where
  "ok_next io = (let (ok, r) = io_next (io_ok io) in (ok, io\<lparr>io_ok := r\<rparr>))"

definition cut_next :: "sst_io \<Rightarrow> bytes \<Rightarrow> bytes \<times> sst_io" where
  "cut_next io bs =
     (case io_cut io of [] \<Rightarrow> (bs, io) | n # ns \<Rightarrow> (take n bs, io\<lparr>io_cut := ns\<rparr>))"

subsection \<open>Writing\<close>

definition sst_record :: "kvEntry \<Rightarrow> bytes" where
  "sst_record e =
     (if kv_tombstone e then 1 else 0) #
     PutUint32 (word_of_nat (length (kv_key e))) @ PutUint32 (word_of_nat (length (kv_value e))) @
     kv_key e @ kv_value e"

text \<open>The loop over the entries, from position \<open>i\<close> and offset \<open>off\<close>: the data block, the sparse
  index and the final offset.\<close>

fun write_records :: "nat \<Rightarrow> u64 \<Rightarrow> kvEntry list \<Rightarrow> bytes \<times> sstIndexEntry list \<times> u64" where
  "write_records i off [] = ([], [], off)"
| "write_records i off (e # es) =
     (let (bs, ix, off') =
        write_records (i + 1) (off + word_of_nat (9 + length (kv_key e) + length (kv_value e))) es in
      (sst_record e @ bs,
       if i mod indexEvery = 0 then \<lparr>ix_key = kv_key e, ix_offset = off\<rparr> # ix else ix, off'))"

definition index_record :: "sstIndexEntry \<Rightarrow> bytes" where
  "index_record ie =
     PutUint32 (word_of_nat (length (ix_key ie))) @ ix_key ie @ PutUint64 (ix_offset ie)"

definition sst_footer :: "u64 \<Rightarrow> sstIndexEntry list \<Rightarrow> bytes" where
  "sst_footer indexOff ix =
     PutUint64 indexOff @ PutUint32 (word_of_nat (length ix)) @
     PutUint32 (ChecksumIEEE (concat (map index_record ix))) @ PutUint64 sstMagic"

definition sst_content :: "kvEntry list \<Rightarrow> bytes" where
  "sst_content es =
     (let (bs, ix, off) = write_records 0 0 es in
      bs @ concat (map index_record ix) @ sst_footer off ix)"

text \<open>
  The file after the call and the error.  The writes go through one \<open>bufio.Writer\<close>, whose first error
  sticks, so that a write that fails anywhere makes the call return an error at the latest at
  \<open>Flush\<close>; the file then holds the bytes that passed.
\<close>

definition writeSSTable :: "sst_io \<Rightarrow> wfile \<Rightarrow> kvEntry list \<Rightarrow> wfile \<times> sst_io \<times> sst_err option" where
  "writeSSTable io old entries =
     (let (ok, io1) = ok_next io in
      if \<not> ok then (old, io1, Some SstIO)
      else let content = sst_content entries; (written, io2) = cut_next io1 content in
      if written \<noteq> content then (File written, io2, Some SstIO)
      else let (ok, io3) = ok_next io2 in
      if \<not> ok then (File content, io3, Some SstIO)
      else let (ok, io4) = ok_next io3 in
      (File content, io4, if ok then None else Some SstIO))"

subsection \<open>Reading\<close>

text \<open>The bytes that \<open>io.NewSectionReader(f, off, limit - off)\<close> delivers: its upper end saturates
  when the sum of offset and length overflows, and reading at a negative offset fails.\<close>

definition maxInt64 :: u64 where "maxInt64 = 0x7FFFFFFFFFFFFFFF"

definition section_bytes :: "bytes \<Rightarrow> u64 \<Rightarrow> u64 \<Rightarrow> bytes" where
  "section_bytes data off limit =
     (let n = limit - off;
          upper = (if sint off \<le> sint (maxInt64 - n) then n + off else maxInt64) in
      if sint off < 0 \<or> sint upper \<le> sint off then []
      else take (nat (sint upper - sint off)) (drop (nat (sint off)) data))"

text \<open>The loop of \<open>scanBlock\<close> on the bytes the reader delivers: the last key, whether an error is
  returned, and the state of the callback \<open>fn\<close>, which says whether to stop.\<close>

function scan :: "(kvEntry \<Rightarrow> 's \<Rightarrow> bool \<times> 's) \<Rightarrow> bytes \<Rightarrow> gostring \<Rightarrow> 's \<Rightarrow> gostring \<times> bool \<times> 's" where
  "scan fn bs lastKey s =
     (if length bs < 9 then (lastKey, False, s)
      else let klen = unat (get_le (take 4 (drop 1 bs)) :: u32);
               vlen = unat (get_le (take 4 (drop 5 bs)) :: u32);
               rest = drop 9 bs in
        if length rest < klen then (lastKey, True, s)
        else if length rest < klen + vlen then (lastKey, True, s)
        else let key = take klen rest;
                 (stop, s') = fn \<lparr>kv_key = key, kv_value = take vlen (drop klen rest),
                                  kv_tombstone = (hd bs AND 1 = 1)\<rparr> s in
          if stop then (key, False, s') else scan fn (drop (klen + vlen) rest) key s')"
  by pat_completeness auto
termination
  by (relation "measure (\<lambda>(fn, bs, _). length bs)") auto

declare scan.simps [simp del]

definition scanBlock ::
  "sst_io \<Rightarrow> sstable \<Rightarrow> u64 \<Rightarrow> u64 \<Rightarrow> (kvEntry \<Rightarrow> 's \<Rightarrow> bool \<times> 's) \<Rightarrow> 's \<Rightarrow>
   (gostring \<times> bool \<times> 's) \<times> sst_io" where
  "scanBlock io t off limit fn s =
     (let (bs, io') = cut_next io (if t_closed t then [] else section_bytes (t_data t) off limit) in
      (scan fn bs [] s, io'))"

text \<open>The loop that decodes the index; slicing out of range panics.\<close>

fun read_index :: "nat \<Rightarrow> bytes \<Rightarrow> nat \<Rightarrow> sstIndexEntry list option" where
  "read_index 0 bs p = Some []"
| "read_index (Suc n) bs p =
     do { a \<leftarrow> slice bs p (p + 4);
          w \<leftarrow> Uint32 a;
          let klen = unat w;
          key \<leftarrow> slice bs (p + 4) (p + 4 + klen);
          b \<leftarrow> slice bs (p + 4 + klen) (p + 4 + klen + 8);
          off \<leftarrow> Uint64 b;
          ix \<leftarrow> read_index n bs (p + 4 + klen + 8);
          Some (\<lparr>ix_key = key, ix_offset = off\<rparr> # ix) }"

text \<open>The largest allocation of the Go runtime on 64-bit platforms: \<open>make\<close> panics on a length that
  is negative or larger.\<close>

definition maxAlloc :: int where "maxAlloc = 2 ^ 48"

definition openSSTable ::
  "sst_io \<Rightarrow> gostring \<Rightarrow> wfile \<Rightarrow> ((sst_err + sstable) \<times> sst_io) option" where
  "openSSTable io path f =
     (let (ok, io) = ok_next io in
      case f of
        File data \<Rightarrow>
          if \<not> ok then Some (Inl SstIO, io)
          else let (ok, io) = ok_next io in
          if \<not> ok then Some (Inl SstIO, io)
          else if length data < 24 then Some (Inl SstTooSmall, io)
          else let (ok, io) = ok_next io; footer = drop (length data - 24) data in
          if \<not> ok then Some (Inl SstIO, io)
          else if get_le (drop 16 footer) \<noteq> sstMagic then Some (Inl SstBadMagic, io)
          else let indexOff = get_le (take 8 footer) :: u64;
                   count = unat (get_le (take 4 (drop 8 footer)) :: u32);
                   wantCRC = get_le (take 4 (drop 12 footer)) :: u32;
                   n = int (length data) - 24 - sint indexOff in
          if n < 0 \<or> maxAlloc < n then None
          else let (ok, io) = (if n = 0 then (True, io) else ok_next io) in
          if \<not> ok \<or> sint indexOff < 0 then Some (Inl SstIO, io)
          else let indexBytes = take (nat n) (drop (nat (sint indexOff)) data) in
          if ChecksumIEEE indexBytes \<noteq> wantCRC then Some (Inl SstChecksum, io)
          else (case read_index count indexBytes 0 of
                  None \<Rightarrow> None
                | Some index \<Rightarrow>
                    let t = \<lparr>t_path = path, t_data = data, t_closed = False, t_index = index,
                             t_minKey = [], t_maxKey = []\<rparr> in
                    if index = [] then Some (Inr t, io)
                    else let ((lst, err, _), io) =
                           scanBlock io t (ix_offset (last index)) indexOff (\<lambda>e s. (False, s)) () in
                      if err then Some (Inl SstIO, io)
                      else Some (Inr (t\<lparr>t_minKey := ix_key (hd index), t_maxKey := lst\<rparr>), io))
      | _ \<Rightarrow> Some (Inl SstIO, io))"

definition indexLimit :: "sst_io \<Rightarrow> sstable \<Rightarrow> u64 option \<times> sst_io" where
  "indexLimit io t =
     (let (ok, io) = ok_next io in
      if \<not> ok \<or> t_closed t then (None, io)
      else let (ok, io) = ok_next io; data = t_data t in
      if \<not> ok \<or> length data < 24 then (None, io)
      else (Some (get_le (take 8 (drop (length data - 24) data))), io))"

text \<open>\<open>sort.Search(n, f)\<close>\<close>

function search_loop :: "(nat \<Rightarrow> bool) \<Rightarrow> nat \<Rightarrow> nat \<Rightarrow> nat" where
  "search_loop f i j =
     (if i < j then
        let h = (i + j) div 2 in if \<not> f h then search_loop f (h + 1) j else search_loop f i h
      else i)"
  by pat_completeness auto
termination
  by (relation "measure (\<lambda>(f, i, j). j - i)") auto

declare search_loop.simps [simp del]

definition sort_Search :: "nat \<Rightarrow> (nat \<Rightarrow> bool) \<Rightarrow> nat" where
  "sort_Search n f = search_loop f 0 n"

text \<open>The callback of \<open>get\<close>; its state is the entry found so far.\<close>

definition get_callback :: "gostring \<Rightarrow> kvEntry \<Rightarrow> kvEntry option \<Rightarrow> bool \<times> kvEntry option" where
  "get_callback key e s = (if kv_key e = key then (True, Some e) else (kv_key e > key, s))"

text \<open>The value, the tombstone flag and whether the key was found, or an error.\<close>

definition sst_get ::
  "sst_io \<Rightarrow> sstable \<Rightarrow> gostring \<Rightarrow> (sst_err + bytes \<times> bool \<times> bool) \<times> sst_io" where
  "sst_get io t key =
     (if t_index t = [] \<or> key < t_minKey t \<or> key > t_maxKey t then (Inr ([], False, False), io)
      else let s = sort_Search (length (t_index t)) (\<lambda>i. ix_key (t_index t ! i) > key) in
      if s = 0 then (Inr ([], False, False), io)
      else case indexLimit io t of
        (None, io) \<Rightarrow> (Inl SstIO, io)
      | (Some limit, io) \<Rightarrow>
          let ((_, err, fnd), io) =
            scanBlock io t (ix_offset (t_index t ! (s - 1))) limit (get_callback key) None in
          (if err then Inl SstIO
           else case fnd of None \<Rightarrow> Inr ([], False, False)
                | Some e \<Rightarrow> Inr (kv_value e, kv_tombstone e, True), io))"

text \<open>The entries are returned together with an error, as in the code.\<close>

definition sst_all :: "sst_io \<Rightarrow> sstable \<Rightarrow> (kvEntry list \<times> sst_err option) \<times> sst_io" where
  "sst_all io t =
     (case indexLimit io t of
        (None, io) \<Rightarrow> (([], Some SstIO), io)
      | (Some limit, io) \<Rightarrow>
          let ((_, err, out), io) = scanBlock io t 0 limit (\<lambda>e out. (False, out @ [e])) [] in
          ((out, if err then Some SstIO else None), io))"

definition sst_close :: "sstable \<Rightarrow> sstable" where
  "sst_close t = t\<lparr>t_closed := True\<rparr>"

section \<open>Scanning the data block\<close>

definition record_size :: "kvEntry \<Rightarrow> nat" where
  "record_size e = 9 + length (kv_key e) + length (kv_value e)"

definition data_block :: "kvEntry list \<Rightarrow> bytes" where
  "data_block es = concat (map sst_record es)"

text \<open>The lengths of an entry fit the 32-bit fields of its record.\<close>

definition kv_fits :: "kvEntry \<Rightarrow> bool" where
  "kv_fits e \<longleftrightarrow> length (kv_key e) < 2 ^ 32 \<and> length (kv_value e) < 2 ^ 32"

fun scan_list :: "(kvEntry \<Rightarrow> 's \<Rightarrow> bool \<times> 's) \<Rightarrow> kvEntry list \<Rightarrow> gostring \<Rightarrow> 's \<Rightarrow> gostring \<times> bool \<times> 's" where
  "scan_list fn [] lastKey s = (lastKey, False, s)"
| "scan_list fn (e # es) lastKey s =
     (let (stop, s') = fn e s in
      if stop then (kv_key e, False, s') else scan_list fn es (kv_key e) s')"

lemma length_sst_record [simp]: "length (sst_record e) = record_size e"
  by (simp add: sst_record_def record_size_def)

lemma data_block_simps [simp]:
  "data_block [] = []" "data_block (e # es) = sst_record e @ data_block es"
  "data_block (es @ fs) = data_block es @ data_block fs"
  by (simp_all add: data_block_def)

lemma length_data_block: "length (data_block es) = sum_list (map record_size es)"
  by (induction es) simp_all

lemma record_fields:
  assumes "kv_fits e"
  shows "unat (get_le (take 4 (drop 1 (sst_record e @ rest))) :: u32) = length (kv_key e)"
    and "unat (get_le (take 4 (drop 5 (sst_record e @ rest))) :: u32) = length (kv_value e)"
    and "drop 9 (sst_record e @ rest) = kv_key e @ kv_value e @ rest"
    and "hd (sst_record e @ rest) AND 1 = 1 \<longleftrightarrow> kv_tombstone e"
proof -
  have "drop 5 (sst_record e @ rest) = PutUint32 (word_of_nat (length (kv_value e))) @ kv_key e @ kv_value e @ rest"
    by (simp add: sst_record_def drop_Cons')
  then show "unat (get_le (take 4 (drop 5 (sst_record e @ rest))) :: u32) = length (kv_value e)"
    using assms by (simp add: PutUint32_def get_put_le unat_of_nat_u32 kv_fits_def)
  show "unat (get_le (take 4 (drop 1 (sst_record e @ rest))) :: u32) = length (kv_key e)"
    using assms by (simp add: sst_record_def PutUint32_def get_put_le unat_of_nat_u32 kv_fits_def)
  show "drop 9 (sst_record e @ rest) = kv_key e @ kv_value e @ rest"
    by (simp add: sst_record_def drop_Cons')
  show "hd (sst_record e @ rest) AND 1 = 1 \<longleftrightarrow> kv_tombstone e"
    by (simp add: sst_record_def)
qed

lemma scan_record:
  assumes "kv_fits e"
  shows "scan fn (sst_record e @ rest) lastKey s =
    (let (stop, s') = fn e s in if stop then (kv_key e, False, s') else scan fn rest (kv_key e) s')"
proof -
  have l: "\<not> length (sst_record e @ rest) < 9" by (simp add: record_size_def)
  have n: "\<not> length (kv_key e @ kv_value e @ rest) < length (kv_key e)"
    "\<not> length (kv_key e @ kv_value e @ rest) < length (kv_key e) + length (kv_value e)" by simp_all
  have t: "take (length (kv_key e)) (kv_key e @ kv_value e @ rest) = kv_key e"
    "take (length (kv_value e)) (drop (length (kv_key e)) (kv_key e @ kv_value e @ rest)) = kv_value e"
    "drop (length (kv_key e) + length (kv_value e)) (kv_key e @ kv_value e @ rest) = rest" by simp_all
  have e: "\<lparr>kv_key = kv_key e, kv_value = kv_value e, kv_tombstone = kv_tombstone e\<rparr> = e" by simp
  show ?thesis
    by (simp only: scan.simps [of fn "sst_record e @ rest"] record_fields [OF assms] Let_def l n t e if_False)
qed

lemma scan_data_block:
  "\<forall>e \<in> set es. kv_fits e \<Longrightarrow> scan fn (data_block es) lastKey s = scan_list fn es lastKey s"
proof (induction es arbitrary: lastKey s)
  case Nil
  then show ?case by (simp add: scan.simps)
next
  case (Cons e es)
  then show ?case by (simp add: scan_record Let_def split: prod.split)
qed

lemma scan_list_last:
  "es \<noteq> [] \<Longrightarrow> scan_list (\<lambda>e s. (False, s)) es k () = (kv_key (last es), False, ())"
  by (induction es arbitrary: k) auto

lemma scan_list_all: "\<exists>k'. scan_list (\<lambda>e out. (False, out @ [e])) es k out = (k', False, out @ es)"
proof (induction es arbitrary: k out)
  case (Cons e es)
  from Cons.IH [of "kv_key e" "out @ [e]"] show ?case by simp
qed simp

text \<open>The scan for a key in a sorted block stops at the key or behind its place.\<close>

lemma scan_list_get:
  "sorted_entries es \<Longrightarrow>
   \<exists>k'. scan_list (get_callback key) es k None = (k', False, find (\<lambda>e. kv_key e = key) es)"
proof (induction es arbitrary: k)
  case Nil
  then show ?case by simp
next
  case (Cons e es)
  have "find (\<lambda>e. kv_key e = key) es = None" if "key < kv_key e"
    using Cons.prems that by (force simp: sorted_entries_def find_None_iff)
  moreover have "sorted_entries es" using Cons.prems by (simp add: sorted_entries_def)
  ultimately show ?case using Cons.IH by (auto simp: get_callback_def)
qed

lemma find_entry_map:
  "entry_map es key = map_option (\<lambda>e. (kv_value e, kv_tombstone e)) (find (\<lambda>e. kv_key e = key) es)"
  by (induction es) (simp_all add: entry_map_def)

section \<open>The sparse index\<close>

definition index_at :: "u64 \<Rightarrow> kvEntry list \<Rightarrow> nat \<Rightarrow> sstIndexEntry" where
  "index_at off es j =
     \<lparr>ix_key = kv_key (es ! j), ix_offset = off + word_of_nat (length (data_block (take j es)))\<rparr>"

lemma write_records_spec:
  "write_records i off es =
     (data_block es, map (index_at off es) (filter (\<lambda>j. (i + j) mod indexEvery = 0) [0..<length es]),
      off + word_of_nat (length (data_block es)))"
proof (induction es arbitrary: i off)
  case Nil
  then show ?case by simp
next
  case (Cons e es)
  have "[0..<length (e # es)] = 0 # map Suc [0..<length es]" by (simp add: upt_conv_Cons map_Suc_upt del: upt_Suc)
  moreover have "index_at off (e # es) (Suc j) = index_at (off + word_of_nat (record_size e)) es j" for j
    by (simp add: index_at_def)
  moreover have "index_at off (e # es) 0 = \<lparr>ix_key = kv_key e, ix_offset = off\<rparr>"
    by (simp add: index_at_def)
  ultimately show ?case
    by (simp add: Cons.IH record_size_def [symmetric] filter_map comp_def add.assoc [symmetric])
qed

text \<open>The positions of the entries that the index names.\<close>

definition index_pos :: "kvEntry list \<Rightarrow> nat list" where
  "index_pos es = filter (\<lambda>j. j mod indexEvery = 0) [0..<length es]"

definition sst_index :: "kvEntry list \<Rightarrow> sstIndexEntry list" where
  "sst_index es = map (index_at 0 es) (index_pos es)"

lemma sst_content_eq:
  "sst_content es = data_block es @ concat (map index_record (sst_index es)) @
     sst_footer (word_of_nat (length (data_block es))) (sst_index es)"
  by (simp add: sst_content_def write_records_spec sst_index_def index_pos_def)

lemma index_pos_sorted: "sorted_wrt (<) (index_pos es)"
  unfolding index_pos_def by (intro sorted_wrt_filter) simp

lemma index_pos_less: "j \<in> set (index_pos es) \<Longrightarrow> j < length es"
  by (simp add: index_pos_def)

lemma index_pos_Nil [simp]: "index_pos es = [] \<longleftrightarrow> es = []"
  by (cases es) (simp_all add: index_pos_def upt_conv_Cons del: upt_Suc)

lemma index_pos_hd: "es \<noteq> [] \<Longrightarrow> hd (index_pos es) = 0"
  by (cases es) (simp_all add: index_pos_def upt_conv_Cons del: upt_Suc)

lemma length_index_record [simp]: "length (index_record ie) = 12 + length (ix_key ie)"
  by (simp add: index_record_def)

lemma read_index_spec:
  "\<forall>ie \<in> set ix. length (ix_key ie) < 2 ^ 32 \<Longrightarrow>
   read_index (length ix) (pre @ concat (map index_record ix) @ post) (length pre) = Some ix"
proof (induction ix arbitrary: pre)
  case Nil
  then show ?case by simp
next
  case (Cons ie ix)
  let ?k = "word_of_nat (length (ix_key ie)) :: u32"
  let ?rest = "concat (map index_record ix) @ post"
  let ?bs = "pre @ concat (map index_record (ie # ix)) @ post"
  have bs: "?bs = pre @ PutUint32 ?k @ ix_key ie @ PutUint64 (ix_offset ie) @ ?rest"
    by (simp add: index_record_def)
  have k: "unat ?k = length (ix_key ie)" using Cons.prems by (simp add: unat_of_nat_u32)
  have a: "slice ?bs (length pre) (length pre + 4) = Some (PutUint32 ?k)"
    unfolding bs by (rule slice_append_mid) simp_all
  have b: "slice ?bs (length pre + 4) (length pre + 4 + length (ix_key ie)) = Some (ix_key ie)"
    using slice_append_mid [of "length pre + 4" "pre @ PutUint32 ?k" _ "ix_key ie"] unfolding bs by simp
  have c: "slice ?bs (length pre + 4 + length (ix_key ie)) (length pre + 4 + length (ix_key ie) + 8) =
      Some (PutUint64 (ix_offset ie))"
    using slice_append_mid [of "length pre + 4 + length (ix_key ie)" "pre @ PutUint32 ?k @ ix_key ie" _
        "PutUint64 (ix_offset ie)"] unfolding bs by simp
  have prems: "\<forall>ie \<in> set ix. length (ix_key ie) < 2 ^ 32" using Cons.prems by simp
  have "length (pre @ index_record ie) = length pre + 4 + length (ix_key ie) + 8" by simp
  then have d: "read_index (length ix) ?bs (length pre + 4 + length (ix_key ie) + 8) = Some ix"
    using Cons.IH [OF prems, of "pre @ index_record ie"] by (simp only: append_assoc list.map concat.simps)
  have "read_index (Suc (length ix)) ?bs (length pre) = Some (ie # ix)"
    by (simp only: read_index.simps a b c d k Uint32_PutUint32_only Uint64_PutUint64_only Let_def
        Option.bind.simps(2)) simp
  then show ?case by simp
qed

section \<open>Binary search\<close>

lemma search_loop_spec:
  assumes "\<And>a b. a \<le> b \<Longrightarrow> b < n \<Longrightarrow> f a \<Longrightarrow> f b"
  shows "i \<le> j \<Longrightarrow> j \<le> n \<Longrightarrow> (\<forall>k < i. \<not> f k) \<Longrightarrow>
    i \<le> search_loop f i j \<and> search_loop f i j \<le> j \<and> (\<forall>k < search_loop f i j. \<not> f k) \<and>
    (search_loop f i j < j \<longrightarrow> f (search_loop f i j))"
proof (induction "j - i" arbitrary: i j rule: less_induct)
  case less
  show ?case
  proof (cases "i < j")
    case True
    let ?h = "(i + j) div 2"
    have h: "i \<le> ?h" "?h < j" using True by auto
    show ?thesis
    proof (cases "f ?h")
      case f: True
      have "search_loop f i j = search_loop f i ?h" using True f by (subst search_loop.simps) simp
      moreover have "\<not> search_loop f i ?h < ?h \<Longrightarrow> search_loop f i ?h \<le> ?h \<Longrightarrow> search_loop f i ?h = ?h"
        by linarith
      ultimately show ?thesis using less.hyps [of ?h i] less.prems h f by fastforce
    next
      case nf: False
      have "search_loop f i j = search_loop f (Suc ?h) j" using True nf by (subst search_loop.simps) simp
      moreover have "?h < n" using h less.prems by simp
      then have "\<forall>k < Suc ?h. \<not> f k" using assms nf less_Suc_eq_le by blast
      ultimately show ?thesis using less.hyps [of j "Suc ?h"] less.prems h by fastforce
    qed
  next
    case False
    then have "search_loop f i j = i" by (subst search_loop.simps) simp
    then show ?thesis using less.prems False by simp
  qed
qed

lemma sort_Search_spec:
  assumes "\<And>a b. a \<le> b \<Longrightarrow> b < n \<Longrightarrow> f a \<Longrightarrow> f b"
  shows "sort_Search n f \<le> n" "\<And>k. k < sort_Search n f \<Longrightarrow> \<not> f k"
    "sort_Search n f < n \<Longrightarrow> f (sort_Search n f)"
  using search_loop_spec [of n f 0 n] assms by (auto simp: sort_Search_def)

section \<open>Opening a table\<close>

lemma sint_of_nat_u64: "n < 2 ^ 63 \<Longrightarrow> sint (word_of_nat n :: u64) = int n"
  by (simp add: signed_of_nat signed_take_bit_int_eq_self)

lemma section_bytes_spec:
  assumes "a \<le> b" "b < 2 ^ 63"
  shows "section_bytes data (word_of_nat a) (word_of_nat b) = take (b - a) (drop a data)"
proof -
  have d: "(word_of_nat b - word_of_nat a :: u64) = word_of_nat (b - a)"
    using assms by (simp add: of_nat_diff)
  have m: "(maxInt64 - word_of_nat (b - a) :: u64) = word_of_nat (2 ^ 63 - 1 - (b - a))"
    using assms by (simp add: maxInt64_def of_nat_diff)
  have A: "sint (word_of_nat (2 ^ 63 - 1 - (b - a)) :: u64) = 2 ^ 63 - 1 - (int b - int a)"
    using assms by (subst sint_of_nat_u64) auto
  have B: "sint (word_of_nat a :: u64) = int a" "sint (word_of_nat b :: u64) = int b"
    using assms by (simp_all add: sint_of_nat_u64)
  have C: "word_of_nat (b - a) + word_of_nat a = (word_of_nat b :: u64)"
    using assms by (simp flip: of_nat_add)
  have "int a \<le> 2 ^ 63 - 1 - (int b - int a)" using assms by simp
  then have "section_bytes data (word_of_nat a) (word_of_nat b) =
      (if int a < 0 \<or> int b \<le> int a then [] else take (nat (int b - int a)) (drop (nat (int a)) data))"
    by (simp only: section_bytes_def Let_def d m A B C if_True)
  then show ?thesis using assms by (auto simp: nat_diff_distrib)
qed

text \<open>A list of entries that a table file can hold.\<close>

definition sst_fits :: "kvEntry list \<Rightarrow> bool" where
  "sst_fits es \<longleftrightarrow> (\<forall>e \<in> set es. kv_fits e) \<and> length (sst_content es) < 2 ^ 48 \<and> length es < 2 ^ 32"

definition table_of :: "gostring \<Rightarrow> kvEntry list \<Rightarrow> sstable" where
  "table_of path es =
     \<lparr>t_path = path, t_data = sst_content es, t_closed = False, t_index = sst_index es,
      t_minKey = (if es = [] then [] else kv_key (hd es)),
      t_maxKey = (if es = [] then [] else kv_key (last es))\<rparr>"

lemma ok_next_spec:
  "\<exists>ok n. ok_next io = (ok, io\<lparr>io_ok := drop n (io_ok io)\<rparr>) \<and> (\<not> ok \<longrightarrow> False \<in> set (io_ok io))"
  by (cases "io_ok io") (auto simp: ok_next_def intro: exI [of _ 0] exI [of _ 1])

lemma sst_index_Nil [simp]: "sst_index es = [] \<longleftrightarrow> es = []"
  by (simp add: sst_index_def)

lemma length_sst_index: "length (sst_index es) \<le> length es"
  by (simp add: sst_index_def index_pos_def le_trans [OF length_filter_le])

lemma sst_index_keys: "ie \<in> set (sst_index es) \<Longrightarrow> ix_key ie \<in> kv_key ` set es"
  by (auto simp: sst_index_def index_at_def dest: index_pos_less)

text \<open>The layout of a table file and the fields of its footer.\<close>

lemma sst_layout:
  assumes "sst_fits es"
  defines "footer \<equiv> drop (length (sst_content es) - 24) (sst_content es)"
  shows "24 \<le> length (sst_content es)"
    "get_le (drop 16 footer) = sstMagic"
    "(get_le (take 8 footer) :: u64) = word_of_nat (length (data_block es))"
    "unat (get_le (take 4 (drop 8 footer)) :: u32) = length (sst_index es)"
    "(get_le (take 4 (drop 12 footer)) :: u32) = ChecksumIEEE (concat (map index_record (sst_index es)))"
    "length (sst_content es) = length (data_block es) + length (concat (map index_record (sst_index es))) + 24"
    "length (data_block es) < 2 ^ 48"
proof -
  have f: "length (sst_footer o' ix) = 24" for o' ix by (simp add: sst_footer_def)
  show l: "length (sst_content es) = length (data_block es) + length (concat (map index_record (sst_index es))) + 24"
    by (simp add: sst_content_eq f)
  then show "24 \<le> length (sst_content es)" by simp
  show "length (data_block es) < 2 ^ 48" using assms(1) l by (simp add: sst_fits_def)
  have ft: "footer = sst_footer (word_of_nat (length (data_block es))) (sst_index es)"
    unfolding footer_def l by (simp add: sst_content_eq)
  have n: "length (sst_index es) < 2 ^ 32"
    using length_sst_index [of es] assms(1) by (simp add: sst_fits_def)
  have d8: "drop 8 footer = PutUint32 (word_of_nat (length (sst_index es))) @
      PutUint32 (ChecksumIEEE (concat (map index_record (sst_index es)))) @ PutUint64 sstMagic"
    by (simp add: ft sst_footer_def)
  have d12: "drop 12 footer = PutUint32 (ChecksumIEEE (concat (map index_record (sst_index es)))) @ PutUint64 sstMagic"
    by (simp add: ft sst_footer_def)
  have d16: "drop 16 footer = PutUint64 sstMagic" by (simp add: ft sst_footer_def)
  show "get_le (drop 16 footer) = sstMagic" unfolding d16 by (simp add: PutUint64_def get_put_le)
  show "(get_le (take 8 footer) :: u64) = word_of_nat (length (data_block es))"
    by (simp add: ft sst_footer_def PutUint64_def get_put_le)
  show "unat (get_le (take 4 (drop 8 footer)) :: u32) = length (sst_index es)"
    unfolding d8 using n by (simp add: PutUint32_def get_put_le unat_of_nat_u32)
  show "(get_le (take 4 (drop 12 footer)) :: u32) = ChecksumIEEE (concat (map index_record (sst_index es)))"
    unfolding d12 by (simp add: PutUint32_def get_put_le)
qed

text \<open>Scanning a table from a position of its entries.\<close>

lemma scanBlock_from:
  assumes "sst_fits es" "t_data t = sst_content es" "\<not> t_closed t" "j \<le> length es" "io_cut io = []"
  shows "scanBlock io t (word_of_nat (length (data_block (take j es)))) (word_of_nat (length (data_block es))) fn s =
    (scan_list fn (drop j es) [] s, io)"
proof -
  let ?a = "length (data_block (take j es))" and ?b = "length (data_block es)"
  have split: "data_block es = data_block (take j es) @ data_block (drop j es)"
    by (simp flip: data_block_simps(3))
  then have "?a \<le> ?b" by simp
  moreover have "?b < 2 ^ 63" using sst_layout(7) [OF assms(1)] by simp
  ultimately have "section_bytes (t_data t) (word_of_nat ?a) (word_of_nat ?b) = take (?b - ?a) (drop ?a (t_data t))"
    by (rule section_bytes_spec)
  also have "\<dots> = data_block (drop j es)" unfolding assms(2) sst_content_eq split by simp
  finally have "section_bytes (t_data t) (word_of_nat ?a) (word_of_nat ?b) = data_block (drop j es)" .
  moreover have "\<forall>e \<in> set (drop j es). kv_fits e"
    using assms(1) by (auto simp: sst_fits_def dest: in_set_dropD)
  ultimately show ?thesis
    using assms(3,5) by (simp add: scanBlock_def cut_next_def scan_data_block)
qed

text \<open>How a call uses the script when no transfer is cut short: it consumes some outcomes, and it
  fails only if one of them is a failure.\<close>

definition io_after :: "sst_io \<Rightarrow> sst_io \<Rightarrow> bool" where
  "io_after io io' \<longleftrightarrow> (\<exists>n. io' = io\<lparr>io_ok := drop n (io_ok io)\<rparr>)"

lemma io_after_refl [simp]: "io_after io io"
  by (auto simp: io_after_def intro: exI [of _ 0])

lemma io_after_trans: "io_after io io1 \<Longrightarrow> io_after io1 io2 \<Longrightarrow> io_after io io2"
  by (auto simp: io_after_def drop_drop intro: exI [of _ "_ + _"])

lemma io_after_cut: "io_after io io' \<Longrightarrow> io_cut io' = io_cut io"
  by (auto simp: io_after_def)

lemma io_after_fail: "io_after io io' \<Longrightarrow> False \<in> set (io_ok io') \<Longrightarrow> False \<in> set (io_ok io)"
  by (auto simp: io_after_def dest: in_set_dropD)

lemma ok_next_after:
  assumes "ok_next io = (ok, io')"
  shows "io_after io io'" "\<not> ok \<Longrightarrow> False \<in> set (io_ok io)"
  using ok_next_spec [of io] assms by (auto simp: io_after_def)

lemma table_index: "t_index (table_of path es) = sst_index es"
  by (simp add: table_of_def)

lemma indexLimit_spec:
  assumes "sst_fits es" "t_data t = sst_content es" "\<not> t_closed t"
  shows "\<exists>r io'. indexLimit io t = (r, io') \<and> io_after io io' \<and>
    (r = Some (word_of_nat (length (data_block es))) \<or> r = None \<and> False \<in> set (io_ok io))"
proof -
  obtain ok1 io1 where 1: "ok_next io = (ok1, io1)" by (cases "ok_next io")
  obtain ok2 io2 where 2: "ok_next io1 = (ok2, io2)" by (cases "ok_next io1")
  note a = ok_next_after [OF 1] ok_next_after [OF 2]
  show ?thesis
    using a io_after_trans [OF a(1) a(3)] io_after_fail [OF a(1)] sst_layout(1,3) [OF assms(1)] assms(2,3)
    by (auto simp: indexLimit_def 1 2 Let_def)
qed

lemma openSSTable_spec:
  assumes "sst_fits es" "io_cut io = []"
  shows "\<exists>r io'. openSSTable io path (File (sst_content es)) = Some (r, io') \<and> io_after io io' \<and>
    (r = Inr (table_of path es) \<or> r = Inl SstIO \<and> False \<in> set (io_ok io))"
proof -
  let ?data = "sst_content es" and ?d = "length (data_block es)" and ?ix = "concat (map index_record (sst_index es))"
  note lay = sst_layout [OF assms(1)]
  obtain ok1 io1 where 1: "ok_next io = (ok1, io1)" by (cases "ok_next io")
  obtain ok2 io2 where 2: "ok_next io1 = (ok2, io2)" by (cases "ok_next io1")
  obtain ok3 io3 where 3: "ok_next io2 = (ok3, io3)" by (cases "ok_next io2")
  obtain ok4 io4 where 4: "(if int (length ?ix) = 0 then (True, io3) else ok_next io3) = (ok4, io4)"
    by (cases "if int (length ?ix) = 0 then (True, io3) else ok_next io3")
  note a1 = ok_next_after [OF 1]
  note a2 = io_after_trans [OF a1(1) ok_next_after(1) [OF 2]]
  note a3 = io_after_trans [OF a2 ok_next_after(1) [OF 3]]
  have a4: "io_after io io4"
    using 4 a3 io_after_trans [OF a3 ok_next_after(1), of ok4 io4] by (auto split: if_splits)
  have f2: "\<not> ok2 \<Longrightarrow> False \<in> set (io_ok io)" using ok_next_after(2) [OF 2] io_after_fail [OF a1(1)] by blast
  have f3: "\<not> ok3 \<Longrightarrow> False \<in> set (io_ok io)" using ok_next_after(2) [OF 3] io_after_fail [OF a2] by blast
  have f4: "\<not> ok4 \<Longrightarrow> False \<in> set (io_ok io)"
    using 4 ok_next_after(2) [of io3 ok4 io4] io_after_fail [OF a3] by (auto split: if_splits)
  have cut: "io_cut io4 = []" using io_after_cut [OF a4] assms(2) by simp
  have s: "sint (word_of_nat ?d :: u64) = int ?d" using lay(7) by (simp add: sint_of_nat_u64)
  have n: "int (length ?data) - 24 - int ?d = int (length ?ix)" using lay(6) by simp
  have big: "\<not> (int (length ?ix) < 0 \<or> maxAlloc < int (length ?ix))"
    using assms(1) lay(6) by (simp add: maxAlloc_def sst_fits_def)
  have idx: "take (nat (int (length ?ix))) (drop (nat (int ?d)) ?data) = ?ix" by (simp add: sst_content_eq)
  have "\<forall>ie \<in> set (sst_index es). length (ix_key ie) < 2 ^ 32"
    using sst_index_keys assms(1) by (fastforce simp: sst_fits_def kv_fits_def)
  then have rd: "read_index (length (sst_index es)) ?ix 0 = Some (sst_index es)"
    using read_index_spec [of "sst_index es" "[]" "[]"] by simp
  let ?t = "\<lparr>t_path = path, t_data = ?data, t_closed = False, t_index = sst_index es, t_minKey = [], t_maxKey = []\<rparr>"
  have sc: "scanBlock io4 ?t (ix_offset (last (sst_index es))) (word_of_nat ?d) (\<lambda>e s. (False, s)) () =
      ((kv_key (last es), False, ()), io4)" and mn: "ix_key (hd (sst_index es)) = kv_key (hd es)" if "es \<noteq> []"
  proof -
    let ?j = "last (index_pos es)"
    have j: "?j < length es" using index_pos_less [of ?j es] that by simp
    have o: "ix_offset (last (sst_index es)) = word_of_nat (length (data_block (take ?j es)))"
      using that by (simp add: sst_index_def last_map index_at_def)
    have "scanBlock io4 ?t (word_of_nat (length (data_block (take ?j es)))) (word_of_nat ?d)
        (\<lambda>e s. (False, s)) () = (scan_list (\<lambda>e s. (False, s)) (drop ?j es) [] (), io4)"
      by (rule scanBlock_from [OF assms(1)]) (use j cut in simp_all)
    then show "scanBlock io4 ?t (ix_offset (last (sst_index es))) (word_of_nat ?d) (\<lambda>e s. (False, s)) () =
      ((kv_key (last es), False, ()), io4)"
      unfolding o using j scan_list_last [of "drop ?j es"] by simp
    show "ix_key (hd (sst_index es)) = kv_key (hd es)"
      using that index_pos_hd [OF that] by (simp add: sst_index_def hd_map index_at_def hd_conv_nth)
  qed
  have "openSSTable io path (File ?data) =
      (if \<not> ok1 then Some (Inl SstIO, io1) else if \<not> ok2 then Some (Inl SstIO, io2)
       else if \<not> ok3 then Some (Inl SstIO, io3) else if \<not> ok4 then Some (Inl SstIO, io4)
       else Some (Inr (table_of path es), io4))"
  proof -
    have nl: "(length ?data < 24) = False" and ng: "(int ?d < 0) = False" using lay(1) by simp_all
    have bg: "(int (length ?ix) < 0 \<or> maxAlloc < int (length ?ix)) = False" using big by simp
    show ?thesis
      by (simp only: openSSTable_def wfile.case 1 2 3 Let_def prod.case nl if_False lay(2,3,4,5) s n bg 4
          idx rd option.case simp_thms ng) (use sc mn in \<open>auto simp: table_of_def\<close>)
  qed
  then show ?thesis using a1 a2 a3 a4 f2 f3 f4 by auto
qed

section \<open>Lookups\<close>

lemma sorted_nth_less:
  "sorted_entries es \<Longrightarrow> i < j \<Longrightarrow> j < length es \<Longrightarrow> kv_key (es ! i) < kv_key (es ! j)"
  by (simp add: sorted_entries_def sorted_wrt_iff_nth_less)

lemma sorted_nth_le:
  "sorted_entries es \<Longrightarrow> i \<le> j \<Longrightarrow> j < length es \<Longrightarrow> kv_key (es ! i) \<le> kv_key (es ! j)"
  using sorted_nth_less [of es i j] by (cases "i = j") auto

lemma find_from:
  assumes "sorted_entries es" "j < length es" "kv_key (es ! j) \<le> key"
  shows "find (\<lambda>e. kv_key e = key) es = find (\<lambda>e. kv_key e = key) (drop j es)"
proof -
  have "kv_key e \<noteq> key" if m: "e \<in> set (take j es)" for e
  proof -
    obtain i where "i < j" "e = es ! i" using m assms(2) by (auto simp: in_set_conv_nth)
    then have "kv_key e < key" using sorted_nth_less [OF assms(1), of i j] assms(2,3) by auto
    then show ?thesis by simp
  qed
  then have "find (\<lambda>e. kv_key e = key) (take j es) = None" by (simp add: find_None_iff)
  then show ?thesis using find_append [of _ "take j es" "drop j es"] by simp
qed

lemma entry_map_out_of_range:
  assumes "sorted_entries es" "es \<noteq> []" "key < kv_key (hd es) \<or> kv_key (last es) < key"
  shows "entry_map es key = None"
proof -
  have "kv_key e \<noteq> key" if m: "e \<in> set es" for e
  proof -
    obtain i where i: "i < length es" "e = es ! i" using m by (auto simp: in_set_conv_nth)
    have "kv_key (hd es) \<le> kv_key e" "kv_key e \<le> kv_key (last es)"
      using sorted_nth_le [OF assms(1), of 0 i] sorted_nth_le [OF assms(1), of i "length es - 1"] i assms(2)
      by (simp_all add: hd_conv_nth last_conv_nth)
    then show ?thesis using assms(3) by auto
  qed
  then show ?thesis by (simp add: find_entry_map find_None_iff)
qed

text \<open>The block that the binary search selects: it starts at or before the key.\<close>

lemma search_block:
  fixes es key
  defines "s \<equiv> sort_Search (length (sst_index es)) (\<lambda>i. ix_key (sst_index es ! i) > key)"
  assumes "sorted_entries es" "es \<noteq> []" "kv_key (hd es) \<le> key"
  shows "0 < s" "\<exists>j < length es. kv_key (es ! j) \<le> key \<and>
    ix_offset (sst_index es ! (s - 1)) = word_of_nat (length (data_block (take j es)))"
proof -
  let ?f = "\<lambda>i. ix_key (sst_index es ! i) > key"
  have len: "length (sst_index es) = length (index_pos es)" by (simp add: sst_index_def)
  have ix: "ix_key (sst_index es ! i) = kv_key (es ! (index_pos es ! i))" if "i < length (index_pos es)" for i
    using that by (simp add: sst_index_def index_at_def)
  have mono: "?f b" if "a \<le> b" "b < length (sst_index es)" "?f a" for a b
  proof -
    have "index_pos es ! a \<le> index_pos es ! b"
      using that len index_pos_sorted [of es] by (cases "a = b") (auto simp: sorted_wrt_iff_nth_less less_imp_le)
    then have "kv_key (es ! (index_pos es ! a)) \<le> kv_key (es ! (index_pos es ! b))"
      using sorted_nth_le [OF assms(2)] index_pos_less [of "index_pos es ! b" es] that len by simp
    then show ?thesis using that len ix by auto
  qed
  have spec: "s \<le> length (sst_index es)" "\<And>k. k < s \<Longrightarrow> \<not> ?f k" "s < length (sst_index es) \<Longrightarrow> ?f s"
    unfolding s_def using sort_Search_spec [of "length (sst_index es)" ?f] mono by blast+
  have n: "0 < length (index_pos es)" using assms(3) by simp
  have "index_pos es ! 0 = 0" using index_pos_hd [OF assms(3)] assms(3) by (simp add: hd_conv_nth)
  then have "\<not> ?f 0" using ix [OF n] assms(3,4) by (simp add: hd_conv_nth)
  then show s0: "0 < s" using spec(3) n len by (cases s) auto
  then have s1: "s - 1 < length (index_pos es)" using spec(1) len by simp
  have "\<not> ?f (s - 1)" using spec(2) s0 by simp
  then have "kv_key (es ! (index_pos es ! (s - 1))) \<le> key" using ix [OF s1] by simp
  then show "\<exists>j < length es. kv_key (es ! j) \<le> key \<and>
      ix_offset (sst_index es ! (s - 1)) = word_of_nat (length (data_block (take j es)))"
    using s1 index_pos_less [of "index_pos es ! (s - 1)" es]
    by (intro exI [of _ "index_pos es ! (s - 1)"]) (simp add: sst_index_def index_at_def)
qed

lemma sst_get_spec:
  assumes "sorted_entries es" "sst_fits es" "io_cut io = []"
  shows "\<exists>r io'. sst_get io (table_of path es) key = (r, io') \<and> io_after io io' \<and>
    (r = Inr (found (entry_map es key)) \<or> r = Inl SstIO \<and> False \<in> set (io_ok io))"
proof (cases "es = [] \<or> key < kv_key (hd es) \<or> kv_key (last es) < key")
  case True
  then have "entry_map es key = None"
    using entry_map_out_of_range [OF assms(1)] by (cases "es = []") (simp add: entry_map_def, blast)
  moreover have "sst_get io (table_of path es) key = (Inr ([], False, False), io)"
    using True by (auto simp: sst_get_def table_of_def)
  ultimately show ?thesis by (simp add: found_def)
next
  case False
  let ?t = "table_of path es"
  have t: "t_data ?t = sst_content es" "\<not> t_closed ?t" by (simp_all add: table_of_def)
  have ne: "es \<noteq> []" "kv_key (hd es) \<le> key" using False by auto
  obtain j where j: "j < length es" "kv_key (es ! j) \<le> key"
      "ix_offset (sst_index es ! (sort_Search (length (sst_index es)) (\<lambda>i. ix_key (sst_index es ! i) > key) - 1)) =
        word_of_nat (length (data_block (take j es)))"
    using search_block(2) [OF assms(1) ne] by blast
  have s: "0 < sort_Search (length (sst_index es)) (\<lambda>i. ix_key (sst_index es ! i) > key)"
    by (rule search_block(1) [OF assms(1) ne])
  obtain lim io1 where l: "indexLimit io ?t = (lim, io1)" "io_after io io1"
      "lim = Some (word_of_nat (length (data_block es))) \<or> lim = None \<and> False \<in> set (io_ok io)"
    using indexLimit_spec [OF assms(2) t, of io] by blast
  have "sorted_entries (drop j es)"
    using assms(1) by (simp add: sorted_entries_def sorted_wrt_drop flip: drop_map)
  then obtain k' where k': "scan_list (get_callback key) (drop j es) [] None =
      (k', False, find (\<lambda>e. kv_key e = key) es)"
    using scan_list_get find_from [OF assms(1) j(1,2)] by metis
  have b: "scanBlock io1 ?t (word_of_nat (length (data_block (take j es)))) (word_of_nat (length (data_block es)))
      (get_callback key) None = (scan_list (get_callback key) (drop j es) [] None, io1)"
    by (rule scanBlock_from [OF assms(2) t]) (use j io_after_cut [OF l(2)] assms(3) in auto)
  have "sst_get io ?t key = (case lim of None \<Rightarrow> (Inl SstIO, io1)
      | Some _ \<Rightarrow> (Inr (found (entry_map es key)), io1))"
    using False s j(3) l(1,3) b k'
    by (auto simp: sst_get_def table_index table_of_def Let_def find_entry_map found_def split: option.splits)
  then show ?thesis using l by auto
qed

lemma sst_all_spec:
  assumes "sst_fits es" "io_cut io = []"
  shows "\<exists>r io'. sst_all io (table_of path es) = (r, io') \<and> io_after io io' \<and>
    (r = (es, None) \<or> r = ([], Some SstIO) \<and> False \<in> set (io_ok io))"
proof -
  let ?t = "table_of path es"
  have t: "t_data ?t = sst_content es" "\<not> t_closed ?t" by (simp_all add: table_of_def)
  obtain lim io1 where l: "indexLimit io ?t = (lim, io1)" "io_after io io1"
      "lim = Some (word_of_nat (length (data_block es))) \<or> lim = None \<and> False \<in> set (io_ok io)"
    using indexLimit_spec [OF assms(1) t, of io] by blast
  have "scanBlock io1 ?t (word_of_nat (length (data_block (take 0 es)))) (word_of_nat (length (data_block es)))
      (\<lambda>e out. (False, out @ [e])) [] = (scan_list (\<lambda>e out. (False, out @ [e])) (drop 0 es) [] [], io1)"
    by (rule scanBlock_from [OF assms(1) t]) (use io_after_cut [OF l(2)] assms(2) in auto)
  then show ?thesis
    using l scan_list_all [of es "[]" "[]"] by (auto simp: sst_all_def)
qed

section \<open>Properties\<close>

lemma writeSSTable_ok:
  assumes "writeSSTable io old es = (f, io', None)"
  shows "f = File (sst_content es)"
  using assms by (auto simp: writeSSTable_def Let_def split: prod.splits if_splits)

lemma writeSSTable_all_ok:
  assumes "io_ok io = []" "io_cut io = []"
  shows "writeSSTable io old es = (File (sst_content es), io, None)"
  using assms by (simp add: writeSSTable_def ok_next_def cut_next_def Let_def)


definition all_ok :: sst_io where "all_ok = \<lparr>io_ok = [], io_cut = []\<rparr>"

definition sample_entries :: "kvEntry list" where
  "sample_entries =
     [\<lparr>kv_key = str ''a'', kv_value = str ''1'', kv_tombstone = False\<rparr>,
      \<lparr>kv_key = str ''b'', kv_value = [], kv_tombstone = True\<rparr>]"

lemma sample_entries_ok: "sorted_entries sample_entries" "sst_fits sample_entries"
  by (simp_all add: sample_entries_def sorted_entries_def str_def sst_fits_def kv_fits_def
      sst_content_eq sst_index_def index_pos_def indexEvery_def upt_rec index_at_def sst_footer_def
      record_size_def of_char_of)


text \<open>
  C22. A read error at a record boundary goes unnoticed: \<open>scanBlock\<close> takes every failure to read a
  record header for the end of the block, so \<open>all\<close> then returns the entries read so far and no error.
\<close>

theorem read_error_truncates_dump:
  assumes "sst_fits es" "j \<le> length es"
  shows "fst (sst_all \<lparr>io_ok = [], io_cut = [length (data_block (take j es))]\<rparr> (table_of path es)) =
    (take j es, None)"
proof -
  let ?io = "\<lparr>io_ok = [], io_cut = [length (data_block (take j es))]\<rparr>" and ?t = "table_of path es"
  let ?b = "length (data_block es)"
  have t: "t_data ?t = sst_content es" "\<not> t_closed ?t" by (simp_all add: table_of_def)
  obtain io1 where l: "indexLimit ?io ?t = (Some (word_of_nat ?b), io1)" "io_cut io1 = io_cut ?io"
    using indexLimit_spec [OF assms(1) t, of ?io] io_after_cut [of ?io] by auto
  have "?b < 2 ^ 63" using sst_layout(7) [OF assms(1)] by simp
  then have "section_bytes (t_data ?t) 0 (word_of_nat ?b) = data_block es"
    using section_bytes_spec [of 0 ?b "t_data ?t"] t(1) by (simp add: sst_content_eq)
  moreover have "data_block es = data_block (take j es) @ data_block (drop j es)"
    by (simp flip: data_block_simps(3))
  ultimately obtain io2 where
    c: "cut_next io1 (section_bytes (t_data ?t) 0 (word_of_nat ?b)) = (data_block (take j es), io2)"
    using l(2) by (simp add: cut_next_def)
  have "\<forall>e \<in> set (take j es). kv_fits e" using assms(1) by (auto simp: sst_fits_def dest: in_set_takeD)
  then obtain k' where
    "scan (\<lambda>e out. (False, out @ [e])) (data_block (take j es)) [] [] = (k', False, take j es)"
    using scan_list_all [of "take j es" "[]" "[]"] by (auto simp: scan_data_block)
  then show ?thesis
    using c t(2) by (simp add: sst_all_def l(1) scanBlock_def)
qed

theorem read_error_truncates_dump_witness:
  "fst (sst_all \<lparr>io_ok = [], io_cut = [11]\<rparr> (table_of (str ''t'') sample_entries)) =
    (take 1 sample_entries, None)"
  using read_error_truncates_dump [OF sample_entries_ok(2), of 1 "str ''t''"]
  by (simp add: sample_entries_def str_def record_size_def)

end
