(* ===== verification/Engine.thy ===== *)
theory Engine
  imports Sstable "HOL-Library.AList"
begin

text \<open>
  The storage engine of \<open>storage/engine.go\<close>: writes go to the write-ahead log and the memtable, a
  full memtable is flushed to a table file, and too many tables are merged into one.  The lemmas show
  that the engine is a map from keys to values, that flushing and compaction keep it, and what a
  restart recovers.
\<close>

section \<open>Definitions\<close>

subsection \<open>State\<close>

text \<open>
  The directory holds the table files; a file is listed with its contents and with whether they
  are known to be durable.
\<close>

type_synonym sst_dir = "(gostring \<times> bytes \<times> bool) list"

text \<open>
  The struct \<open>Engine\<close> and the directory behind it.  \<open>e_wal\<close> is \<open>None\<close> when the pointer is \<open>nil\<close>, and
  then \<open>engine.wal\<close> is absent or empty; otherwise the handle carries the contents of that file.
  \<open>e_io\<close> scripts the outcomes of the coming file-system calls.
\<close>

record Engine =
  e_wal :: "WAL option"
  e_mem :: memtable
  e_tables :: "sstable list"
  e_nextSST :: u64
  e_flushSize :: int
  e_syncWAL :: bool
  e_dir :: sst_dir
  e_io :: sst_io

record EngineOptions =
  FlushSize :: int
  SyncWAL :: bool

definition DefaultEngineOptions :: EngineOptions where
  "DefaultEngineOptions = \<lparr>FlushSize = 4 * 2 ^ 20, SyncWAL = True\<rparr>"

definition maxTablesBeforeCompact :: nat where "maxTablesBeforeCompact = 6"

datatype eng_err = EngIO | EngSst sst_err | EngOpenSst gostring sst_err | ShortWalRecord | BadWalRecord

text \<open>What a process finds in the directory when it starts.\<close>

record engine_disk =
  ed_wal :: wfile
  ed_files :: "(gostring \<times> wfile) list"

subsection \<open>Table names\<close>

definition dot_sst :: gostring where "dot_sst = str ''.sst''"

fun decimal :: "nat \<Rightarrow> gostring" where
  "decimal n = (if n < 10 then [word_of_nat (48 + n)] else decimal (n div 10) @ [word_of_nat (48 + n mod 10)])"

declare decimal.simps [simp del]

text \<open>\<open>fmt.Sprintf("%012d.sst", n)\<close>\<close>

definition sst_name :: "u64 \<Rightarrow> gostring" where
  "sst_name n = (let d = decimal (unat n) in replicate (12 - length d) 48 @ d @ dot_sst)"

text \<open>The digits loop of \<open>strconv.ParseUint(s, 10, 64)\<close> with the error ignored: 0 on a character that
  is no digit, the largest number on overflow.\<close>

fun parse_digits :: "nat \<Rightarrow> gostring \<Rightarrow> u64" where
  "parse_digits n [] = word_of_nat n"
| "parse_digits n (c # cs) =
     (if c < 48 \<or> 57 < c then 0
      else let n' = n * 10 + (unat c - 48) in if 2 ^ 64 \<le> n' then - 1 else parse_digits n' cs)"

definition TrimSuffix :: "gostring \<Rightarrow> gostring \<Rightarrow> gostring" where
  "TrimSuffix s suf =
     (if length suf \<le> length s \<and> drop (length s - length suf) s = suf
      then take (length s - length suf) s else s)"

definition sstSeq :: "gostring \<Rightarrow> u64" where
  "sstSeq name = parse_digits 0 (TrimSuffix name dot_sst)"

definition has_sst_suffix :: "gostring \<Rightarrow> bool" where
  "has_sst_suffix s \<longleftrightarrow> 4 \<le> length s \<and> drop (length s - 4) s = dot_sst"

subsection \<open>Log records\<close>

definition encodeWALRecord :: "gostring \<Rightarrow> bytes \<Rightarrow> bool \<Rightarrow> bytes" where
  "encodeWALRecord key val tomb =
     (if tomb then 1 else 0) # PutUint32 (word_of_nat (length key)) @ key @ val"

definition decodeWALRecord :: "bytes \<Rightarrow> eng_err + gostring \<times> bytes \<times> bool" where
  "decodeWALRecord p =
     (if length p < 5 then Inl ShortWalRecord
      else let tomb = (hd p AND 1 = 1); klen = unat (get_le (take 4 (drop 1 p)) :: u32) in
        if length p < 5 + klen then Inl BadWalRecord
        else Inr (take klen (drop 5 p), drop (5 + klen) p, tomb))"

subsection \<open>Opening\<close>

text \<open>The loop over the table names, newest first.\<close>

fun open_tables :: "sst_io \<Rightarrow> (gostring \<times> wfile) list \<Rightarrow> gostring list \<Rightarrow> u64 \<Rightarrow>
    ((eng_err + sstable list \<times> u64) \<times> sst_io) option" where
  "open_tables io files [] next = Some (Inr ([], next), io)"
| "open_tables io files (n # ns) next =
     (case openSSTable io n (case map_of files n of None \<Rightarrow> NoFile | Some f \<Rightarrow> f) of
        None \<Rightarrow> None
      | Some (Inl err, io) \<Rightarrow> Some (Inl (EngOpenSst n err), io)
      | Some (Inr t, io) \<Rightarrow>
          (case open_tables io files ns (if next \<le> sstSeq n then sstSeq n + 1 else next) of
             None \<Rightarrow> None
           | Some (Inl e, io) \<Rightarrow> Some (Inl e, io)
           | Some (Inr (ts, next'), io) \<Rightarrow> Some (Inr (t # ts, next'), io)))"

text \<open>The callback of the replay; \<open>None\<close> is a panic of \<open>mem.put\<close>.\<close>

definition replay_put :: "memtable option \<Rightarrow> bytes \<Rightarrow> eng_err + memtable option" where
  "replay_put s p =
     (case s of None \<Rightarrow> Inr None
      | Some m \<Rightarrow> (case decodeWALRecord p of
            Inl e \<Rightarrow> Inl e
          | Inr (key, val, tomb) \<Rightarrow> Inr (mem_put m key val tomb)))"

text \<open>\<open>filepath.Glob\<close> ignores an error of listing the directory and then finds nothing.  The names are
  sorted by descending sequence number; Go leaves the order of equal numbers open, which the names
  that the engine creates never have.\<close>

definition table_names :: "bool \<Rightarrow> (gostring \<times> wfile) list \<Rightarrow> gostring list" where
  "table_names ok files =
     (if ok then rev (sort_key sstSeq (rev (sort (filter has_sst_suffix (map fst files))))) else [])"

definition file_bytes :: "wfile \<Rightarrow> bytes" where
  "file_bytes f = (case f of File bs \<Rightarrow> bs | _ \<Rightarrow> [])"

definition OpenEngine :: "sst_io \<Rightarrow> bool list \<Rightarrow> engine_disk \<Rightarrow> EngineOptions \<Rightarrow> (eng_err + Engine) option" where
  "OpenEngine io rand d opts =
     (let (ok, io) = ok_next io in
      if \<not> ok then Some (Inl EngIO)
      else let flushSize = (if FlushSize opts = 0 then 4 * 2 ^ 20 else FlushSize opts);
               (ok, io) = ok_next io in
        case open_tables io (ed_files d) (table_names ok (ed_files d)) 0 of
          None \<Rightarrow> None
        | Some (Inl e, _) \<Rightarrow> Some (Inl e)
        | Some (Inr (tables, next), io) \<Rightarrow>
            (case ReplayWAL replay_put (Some (newMemtable rand)) (ed_wal d) of
               Inl OpenErr \<Rightarrow> Some (Inl EngIO)
             | Inl (ReplayErr e) \<Rightarrow> Some (Inl e)
             | Inr None \<Rightarrow> None
             | Inr (Some mem) \<Rightarrow>
                 (case OpenWAL (io_ok io) (ed_wal d) of
                    Inl _ \<Rightarrow> Some (Inl EngIO)
                  | Inr w \<Rightarrow>
                      Some (Inr \<lparr>e_wal = Some w, e_mem = mem, e_tables = tables, e_nextSST = next,
                        e_flushSize = flushSize, e_syncWAL = SyncWAL opts,
                        e_dir = map (\<lambda>(n, f). (n, file_bytes f, True)) (ed_files d),
                        e_io = io\<lparr>io_ok := w_io w\<rparr>\<rparr>))))"

subsection \<open>Compaction\<close>

text \<open>A call on the log, which shares the script of outcomes; a \<open>nil\<close> log panics.\<close>

definition wal_do :: "Engine \<Rightarrow> (WAL \<Rightarrow> WAL \<times> ioerr option) \<Rightarrow> (Engine \<times> eng_err option) option" where
  "wal_do e f =
     (case e_wal e of None \<Rightarrow> None
      | Some w \<Rightarrow> let (w', err) = f (w\<lparr>w_io := io_ok (e_io e)\<rparr>) in
          Some (e\<lparr>e_wal := Some w', e_io := (e_io e)\<lparr>io_ok := w_io w'\<rparr>\<rparr>,
                map_option (\<lambda>_. EngIO) err))"

text \<open>Writing a table and opening it: the new table, or the error.\<close>

definition new_table :: "Engine \<Rightarrow> kvEntry list \<Rightarrow> (Engine \<times> (eng_err + sstable)) option" where
  "new_table e entries =
     (let path = sst_name (e_nextSST e);
          old = (case map_of (e_dir e) path of None \<Rightarrow> NoFile | Some (bs, _) \<Rightarrow> File bs);
          (f, io, err) = writeSSTable (e_io e) old entries;
          e = e\<lparr>e_io := io,
                e_dir := (if f = old \<and> err \<noteq> None then e_dir e
                          else AList.update path (file_bytes f, err = None) (e_dir e))\<rparr> in
      case err of
        Some x \<Rightarrow> Some (e, Inl (EngSst x))
      | None \<Rightarrow>
          (case openSSTable (e_io e) path f of
             None \<Rightarrow> None
           | Some (Inl x, io) \<Rightarrow> Some (e\<lparr>e_io := io\<rparr>, Inl (EngSst x))
           | Some (Inr t, io) \<Rightarrow> Some (e\<lparr>e_io := io, e_nextSST := e_nextSST e + 1\<rparr>, Inr t)))"

text \<open>Adding entries to the map \<open>merged\<close>, later ones overwriting earlier ones.\<close>

definition merge_entries :: "kvEntry list \<Rightarrow> (gostring \<times> kvEntry) list \<Rightarrow> (gostring \<times> kvEntry) list" where
  "merge_entries es merged = fold (\<lambda>en. AList.update (kv_key en) en) es merged"

text \<open>The loop over the tables, which the caller passes oldest first.\<close>

fun merge_tables :: "sst_io \<Rightarrow> sstable list \<Rightarrow> (gostring \<times> kvEntry) list \<Rightarrow>
    (eng_err + (gostring \<times> kvEntry) list) \<times> sst_io" where
  "merge_tables io [] merged = (Inr merged, io)"
| "merge_tables io (t # ts) merged =
     (case sst_all io t of
        ((_, Some err), io) \<Rightarrow> (Inl (EngSst err), io)
      | ((entries, None), io) \<Rightarrow> merge_tables io ts (merge_entries entries merged))"

definition live_keys :: "(gostring \<times> kvEntry) list \<Rightarrow> gostring list" where
  "live_keys merged = sort (map fst (filter (\<lambda>(k, en). \<not> kv_tombstone en) merged))"

text \<open>Removing the old table files; an error is ignored.\<close>

fun remove_tables :: "sst_io \<Rightarrow> sst_dir \<Rightarrow> sstable list \<Rightarrow> sst_dir \<times> sst_io" where
  "remove_tables io dir [] = (dir, io)"
| "remove_tables io dir (t # ts) =
     (let (ok, io) = ok_next io in
      remove_tables io (if ok then AList.delete (t_path t) dir else dir) ts)"

definition compactLocked :: "Engine \<Rightarrow> (Engine \<times> eng_err option) option" where
  "compactLocked e =
     (case merge_tables (e_io e) (rev (e_tables e)) [] of
        (Inl err, io) \<Rightarrow> Some (e\<lparr>e_io := io\<rparr>, Some err)
      | (Inr merged, io) \<Rightarrow>
          (case new_table (e\<lparr>e_io := io\<rparr>) (map (\<lambda>k. the (map_of merged k)) (live_keys merged)) of
             None \<Rightarrow> None
           | Some (e1, Inl err) \<Rightarrow> Some (e1, Some err)
           | Some (e1, Inr t) \<Rightarrow>
               let (dir, io) = remove_tables (e_io e1) (e_dir e1) (e_tables e1) in
               Some (e1\<lparr>e_tables := [t], e_dir := dir, e_io := io\<rparr>, None)))"

subsection \<open>Flushing\<close>

text \<open>\<open>os.Remove(e.walPath)\<close> and \<open>e.wal, err = OpenWAL(e.walPath)\<close>.\<close>

definition reopen_wal :: "Engine \<Rightarrow> (Engine \<times> eng_err option) option" where
  "reopen_wal e =
     (let (ok, io) = ok_next (e_io e) in
      if \<not> ok then Some (e\<lparr>e_io := io\<rparr>, Some EngIO)
      else case OpenWAL (io_ok io) NoFile of
        Inl _ \<Rightarrow> Some (e\<lparr>e_wal := None, e_io := io\<lparr>io_ok := snd (io_seq 2 (io_ok io))\<rparr>\<rparr>, Some EngIO)
      | Inr w \<Rightarrow> Some (e\<lparr>e_wal := Some w, e_io := io\<lparr>io_ok := w_io w\<rparr>\<rparr>, None))"

definition flushLocked :: "Engine \<Rightarrow> (Engine \<times> eng_err option) option" where
  "flushLocked e =
     (case mem_entries (e_mem e) of
        None \<Rightarrow> None
      | Some entries \<Rightarrow>
          if entries = [] then Some (e, None)
          else (case new_table e entries of
                  None \<Rightarrow> None
                | Some (e1, Inl err) \<Rightarrow> Some (e1, Some err)
                | Some (e1, Inr t) \<Rightarrow>
                    try_then (wal_do (e1\<lparr>e_tables := t # e_tables e1\<rparr>) Close) (\<lambda>e2.
                    try_then (reopen_wal e2) (\<lambda>e3.
                      let e4 = e3\<lparr>e_mem := newMemtable (m_rand (e_mem e3))\<rparr> in
                      if length (e_tables e4) > maxTablesBeforeCompact then compactLocked e4
                      else Some (e4, None)))))"

definition Flush :: "Engine \<Rightarrow> (Engine \<times> eng_err option) option" where
  "Flush e = flushLocked e"

subsection \<open>Reading and writing\<close>

definition eng_write :: "Engine \<Rightarrow> gostring \<Rightarrow> bytes \<Rightarrow> bool \<Rightarrow> (Engine \<times> eng_err option) option" where
  "eng_write e key val tomb =
     try_then (wal_do e (\<lambda>w. Append w (encodeWALRecord key val tomb))) (\<lambda>e.
     try_then (if e_syncWAL e then wal_do e Sync else Some (e, None)) (\<lambda>e.
       case mem_put (e_mem e) key val tomb of
         None \<Rightarrow> None
       | Some m \<Rightarrow>
           let e = e\<lparr>e_mem := m\<rparr> in
           if approxSize m \<ge> e_flushSize e then flushLocked e else Some (e, None)))"

definition Put :: "Engine \<Rightarrow> gostring \<Rightarrow> bytes \<Rightarrow> (Engine \<times> eng_err option) option" where
  "Put e key val = eng_write e key val False"

definition Delete :: "Engine \<Rightarrow> gostring \<Rightarrow> (Engine \<times> eng_err option) option" where
  "Delete e key = eng_write e key [] True"

text \<open>The loop of \<open>Get\<close> over the tables, newest first; \<open>Some v\<close> is a found value.\<close>

fun get_tables :: "sst_io \<Rightarrow> sstable list \<Rightarrow> gostring \<Rightarrow> (eng_err + bytes option) \<times> sst_io" where
  "get_tables io [] key = (Inr None, io)"
| "get_tables io (t # ts) key =
     (case sst_get io t key of
        (Inl err, io) \<Rightarrow> (Inl (EngSst err), io)
      | (Inr (v, tomb, ok), io) \<Rightarrow>
          if ok then (Inr (if tomb then None else Some v), io) else get_tables io ts key)"

definition Get :: "Engine \<Rightarrow> gostring \<Rightarrow> (Engine \<times> (eng_err + bytes option)) option" where
  "Get e key =
     (case mem_get (e_mem e) key of
        None \<Rightarrow> None
      | Some (v, tomb, ok) \<Rightarrow>
          if ok then Some (e, Inr (if tomb then None else Some v))
          else let (r, io) = get_tables (e_io e) (e_tables e) key in Some (e\<lparr>e_io := io\<rparr>, r))"

subsection \<open>Snapshots\<close>

definition SnapshotEntries :: "Engine \<Rightarrow> (Engine \<times> (eng_err + (gostring \<times> bytes) list)) option" where
  "SnapshotEntries e =
     (case merge_tables (e_io e) (rev (e_tables e)) [] of
        (Inl err, io) \<Rightarrow> Some (e\<lparr>e_io := io\<rparr>, Inl err)
      | (Inr merged, io) \<Rightarrow>
          (case mem_entries (e_mem e) of
             None \<Rightarrow> None
           | Some es \<Rightarrow>
               Some (e\<lparr>e_io := io\<rparr>,
                 Inr (map (\<lambda>(k, en). (k, kv_value en))
                   (filter (\<lambda>(k, en). \<not> kv_tombstone en) (merge_entries es merged))))))"

text \<open>The loop over the entries of a snapshot, in the order in which the map iterates.\<close>

fun load_entries :: "Engine \<Rightarrow> (gostring \<times> bytes) list \<Rightarrow> (Engine \<times> eng_err option) option" where
  "load_entries e [] = Some (e, None)"
| "load_entries e ((k, v) # kvs) =
     try_then (wal_do e (\<lambda>w. Append w (encodeWALRecord k v False))) (\<lambda>e.
       case mem_put (e_mem e) k v False of
         None \<Rightarrow> None
       | Some m \<Rightarrow> load_entries (e\<lparr>e_mem := m\<rparr>) kvs)"

definition Reset :: "Engine \<Rightarrow> (gostring \<times> bytes) list \<Rightarrow> (Engine \<times> eng_err option) option" where
  "Reset e entries =
     (let (dir, io) = remove_tables (e_io e) (e_dir e) (e_tables e);
          e = e\<lparr>e_dir := dir, e_io := io, e_tables := [], e_mem := newMemtable (m_rand (e_mem e))\<rparr> in
      try_then (wal_do e Close) (\<lambda>e.
      try_then (reopen_wal e) (\<lambda>e.
      try_then (load_entries e entries) (\<lambda>e. wal_do e Sync))))"

definition eng_Close :: "Engine \<Rightarrow> (Engine \<times> eng_err option) option" where
  "eng_Close e = wal_do (e\<lparr>e_tables := map sst_close (e_tables e)\<rparr>) Close"

section \<open>The contents of an engine\<close>

definition table_entries :: "sstable \<Rightarrow> kvEntry list" where
  "table_entries t = fst (fst (sst_all all_ok t))"

definition table_ok :: "sstable \<Rightarrow> bool" where
  "table_ok t \<longleftrightarrow> (\<exists>path es. t = table_of path es \<and> sorted_entries es \<and> sst_fits es)"

text \<open>The tables, newest first, as one map from keys to values and tombstones.\<close>

fun tables_map :: "sstable list \<Rightarrow> gostring \<rightharpoonup> bytes \<times> bool" where
  "tables_map [] = Map.empty"
| "tables_map (t # ts) = tables_map ts ++ entry_map (table_entries t)"

definition live :: "(gostring \<rightharpoonup> bytes \<times> bool) \<Rightarrow> gostring \<rightharpoonup> bytes" where
  "live m k = (case m k of Some (v, False) \<Rightarrow> Some v | _ \<Rightarrow> None)"

text \<open>What the engine stands for: the map from keys to values that its users see.\<close>

definition e_map :: "Engine \<Rightarrow> gostring \<rightharpoonup> bytes" where
  "e_map e = live (tables_map (e_tables e) ++ mem_map (e_mem e))"

definition esize :: "kvEntry list \<Rightarrow> nat" where
  "esize es = sum_list (map record_size es)"

definition mem_dump :: "memtable \<Rightarrow> kvEntry list" where
  "mem_dump m = (case mem_entries m of None \<Rightarrow> [] | Some es \<Rightarrow> es)"

text \<open>The bytes of the records of all tables and of the memtable.\<close>

definition eng_size :: "Engine \<Rightarrow> nat" where
  "eng_size e = esize (concat (map table_entries (e_tables e))) + esize (mem_dump (e_mem e))"

text \<open>The invariant, while no read of a table breaks off inside a block: the memtable and the tables
  are well formed and the entries fit the fields of the record formats.\<close>

definition eng_ok :: "Engine \<Rightarrow> bool" where
  "eng_ok e \<longleftrightarrow> mem_ok (e_mem e) \<and> (\<forall>en \<in> set (mem_dump (e_mem e)). kv_fits en) \<and>
     (\<forall>t \<in> set (e_tables e). table_ok t) \<and> io_cut (e_io e) = []"

text \<open>The engine holds less than 32 GiB, so that every table it can write fits the format.\<close>

definition eng_small :: "Engine \<Rightarrow> bool" where
  "eng_small e \<longleftrightarrow> eng_size e < 2 ^ 35"

lemma table_entries_table_of [simp]: "sst_fits es \<Longrightarrow> table_entries (table_of path es) = es"
  using sst_all_spec [of es all_ok path] by (auto simp: table_entries_def all_ok_def)

lemma table_okE:
  assumes "table_ok t"
  obtains path where "t = table_of path (table_entries t)" "sorted_entries (table_entries t)"
    "sst_fits (table_entries t)"
  using assms by (auto simp: table_ok_def)

lemma table_ok_table_of: "sorted_entries es \<Longrightarrow> sst_fits es \<Longrightarrow> table_ok (table_of path es)"
  by (auto simp: table_ok_def)

lemma mem_dump_spec:
  assumes "mem_ok m"
  shows "mem_entries m = Some (mem_dump m)" "sorted_entries (mem_dump m)" "entry_map (mem_dump m) = mem_map m"
  using mt.entries_ok [OF assms] by (auto simp: mem_dump_def)

lemma live_add: "live (a ++ b) k = (case b k of Some (v, t) \<Rightarrow> if t then None else Some v | None \<Rightarrow> live a k)"
  by (auto simp: live_def map_add_def split: option.splits)

lemma live_cong: "live a = live b \<Longrightarrow> live (a ++ c) = live (b ++ c)"
  by (rule ext) (simp add: live_add split: option.split)

subsection \<open>Sizes\<close>

lemma esize_Nil [simp]: "esize [] = 0"
  by (simp add: esize_def)

lemma esize_append [simp]: "esize (xs @ ys) = esize xs + esize ys"
  by (simp add: esize_def)

lemma index_bytes_le: "length (concat (map index_record (sst_index es))) \<le> 2 * esize es"
proof -
  have "length (concat (map index_record (sst_index es))) =
      (\<Sum>j \<leftarrow> index_pos es. 12 + length (kv_key (es ! j)))"
    by (simp add: length_concat sst_index_def comp_def index_at_def)
  also have "\<dots> \<le> (\<Sum>j \<leftarrow> [0..<length es]. 12 + length (kv_key (es ! j)))"
    unfolding index_pos_def by (induction "[0..<length es]") (rule sum_list_filter_le_nat)+
  also have "\<dots> \<le> (\<Sum>j \<leftarrow> [0..<length es]. 2 * record_size (es ! j))"
    by (rule sum_list_mono) (simp add: record_size_def)
  also have "\<dots> = 2 * (\<Sum>j \<leftarrow> [0..<length es]. record_size (es ! j))" by (simp add: sum_list_const_mult)
  also have "(\<Sum>j \<leftarrow> [0..<length es]. record_size (es ! j)) = esize es"
    unfolding esize_def by (simp add: map_nth flip: map_map [unfolded comp_def, of record_size "(!) es"])
  finally show ?thesis .
qed

lemma length_le_esize: "9 * length es \<le> esize es"
  by (induction es) (simp_all add: esize_def record_size_def)

lemma sst_fits_small:
  assumes "\<forall>e \<in> set es. kv_fits e" "esize es < 2 ^ 35"
  shows "sst_fits es"
proof -
  have "length (sst_content es) = esize es + length (concat (map index_record (sst_index es))) + 24"
    by (simp add: sst_content_eq sst_footer_def length_data_block esize_def)
  then have "length (sst_content es) < 2 ^ 48" using index_bytes_le [of es] assms(2) by simp
  moreover have "length es < 2 ^ 32" using length_le_esize [of es] assms(2) by simp
  ultimately show ?thesis using assms(1) by (simp add: sst_fits_def)
qed

lemma esize_subset:
  assumes "distinct xs" "set xs \<subseteq> set ys"
  shows "esize xs \<le> esize ys"
proof -
  have "esize xs = sum record_size (set xs)"
    using assms(1) by (simp add: esize_def sum_list_distinct_conv_sum_set)
  also have "\<dots> \<le> sum record_size (set ys)" by (rule sum_mono2) (use assms in auto)
  also have "\<dots> = esize (remdups ys)" by (simp add: esize_def flip: sum.set_conv_list)
  also have "\<dots> \<le> esize ys" by (induction ys) (auto simp: esize_def)
  finally show ?thesis .
qed

section \<open>Merging\<close>

lemma entry_map_None: "k \<notin> kv_key ` set es \<Longrightarrow> entry_map es k = None"
  by (auto simp: entry_map_def map_of_eq_None_iff)

definition proj :: "kvEntry \<Rightarrow> bytes \<times> bool" where
  "proj en = (kv_value en, kv_tombstone en)"

text \<open>A merged map lists every key once, with an entry of that key.\<close>

definition merged_ok :: "(gostring \<times> kvEntry) list \<Rightarrow> bool" where
  "merged_ok m \<longleftrightarrow> distinct (map fst m) \<and> (\<forall>(k, en) \<in> set m. kv_key en = k)"

definition merged_map :: "(gostring \<times> kvEntry) list \<Rightarrow> gostring \<rightharpoonup> bytes \<times> bool" where
  "merged_map m k = map_option proj (map_of m k)"

lemma merged_ok_Nil [simp]: "merged_ok []"
  by (simp add: merged_ok_def)

lemma merged_map_Nil [simp]: "merged_map [] = Map.empty"
  by (simp add: merged_map_def fun_eq_iff)

lemma merge_one:
  assumes "merged_ok m"
  shows "merged_ok (AList.update (kv_key en) en m)"
    "merged_map (AList.update (kv_key en) en m) = (merged_map m)(kv_key en \<mapsto> proj en)"
    "snd ` set (AList.update (kv_key en) en m) \<subseteq> insert en (snd ` set m)"
proof -
  have s: "set (AList.update (kv_key en) en m) \<subseteq> insert (kv_key en, en) (set m)"
    by (induction m) auto
  then show "snd ` set (AList.update (kv_key en) en m) \<subseteq> insert en (snd ` set m)" by auto
  show "merged_ok (AList.update (kv_key en) en m)"
    using assms s by (auto simp: merged_ok_def distinct_update)
  show "merged_map (AList.update (kv_key en) en m) = (merged_map m)(kv_key en \<mapsto> proj en)"
    by (simp add: merged_map_def fun_eq_iff update_conv')
qed

lemma merge_entries_spec:
  assumes "merged_ok m" "distinct (map kv_key es)"
  shows "merged_ok (merge_entries es m) \<and> merged_map (merge_entries es m) = merged_map m ++ entry_map es \<and>
    snd ` set (merge_entries es m) \<subseteq> set es \<union> snd ` set m"
  using assms
proof (induction es arbitrary: m)
  case Nil
  then show ?case by (simp add: merge_entries_def entry_map_def)
next
  case (Cons en es)
  let ?m = "AList.update (kv_key en) en m"
  have step: "merge_entries (en # es) m = merge_entries es ?m" by (simp add: merge_entries_def)
  have "kv_key en \<notin> kv_key ` set es" using Cons.prems(2) by simp
  then have "entry_map es (kv_key en) = None" by (rule entry_map_None)
  then have upd: "(merged_map m)(kv_key en \<mapsto> proj en) ++ entry_map es = merged_map m ++ entry_map (en # es)"
    by (auto simp: fun_eq_iff map_add_def entry_map_def proj_def split: option.splits)
  note one = merge_one [OF Cons.prems(1), of en]
  have ih: "merged_ok (merge_entries es ?m)" "merged_map (merge_entries es ?m) = merged_map ?m ++ entry_map es"
      "snd ` set (merge_entries es ?m) \<subseteq> set es \<union> snd ` set ?m"
    using Cons.IH [OF one(1)] Cons.prems(2) by simp_all
  show ?case
    unfolding step ih(2) one(2) upd using ih(1,3) one(3) by (simp, blast)
qed

lemma sorted_entries_distinct: "sorted_entries es \<Longrightarrow> distinct (map kv_key es)"
  by (simp add: sorted_entries_def strict_sorted_iff)

lemma merge_tables_spec:
  assumes "\<forall>t \<in> set ts. table_ok t" "io_cut io = []" "merged_ok m"
  shows "\<exists>r io'. merge_tables io ts m = (r, io') \<and> io_after io io' \<and>
    (case r of Inl err \<Rightarrow> False \<in> set (io_ok io)
     | Inr m' \<Rightarrow> merged_ok m' \<and> merged_map m' = merged_map m ++ tables_map (rev ts) \<and>
         snd ` set m' \<subseteq> set (concat (map table_entries ts)) \<union> snd ` set m)"
  using assms
proof (induction ts arbitrary: io m)
  case Nil
  then show ?case by simp
next
  case (Cons t ts)
  let ?es = "table_entries t"
  obtain path where t: "t = table_of path ?es" "sorted_entries ?es" "sst_fits ?es"
    using Cons.prems(1) table_okE by (metis list.set_intros(1))
  obtain r io1 where a: "sst_all io t = (r, io1)" "io_after io io1"
      "r = (?es, None) \<or> r = ([], Some SstIO) \<and> False \<in> set (io_ok io)"
    using sst_all_spec [OF t(3) Cons.prems(2), of path] t(1) by auto
  show ?case
  proof (cases "r = (?es, None)")
    case False
    then show ?thesis using a by auto
  next
    case True
    have m: "merged_ok (merge_entries ?es m)" "merged_map (merge_entries ?es m) = merged_map m ++ entry_map ?es"
      "snd ` set (merge_entries ?es m) \<subseteq> set ?es \<union> snd ` set m"
      using merge_entries_spec [OF Cons.prems(3) sorted_entries_distinct [OF t(2)]] by auto
    have tm: "tables_map (rev ts @ [t]) = entry_map ?es ++ tables_map (rev ts)"
    proof -
      have "tables_map (xs @ [t]) = entry_map ?es ++ tables_map xs" for xs by (induction xs) simp_all
      then show ?thesis .
    qed
    have "io_cut io1 = []" using io_after_cut [OF a(2)] Cons.prems(2) by simp
    then obtain r' io2 where i: "merge_tables io1 ts (merge_entries ?es m) = (r', io2)" "io_after io1 io2"
      "case r' of Inl err \<Rightarrow> False \<in> set (io_ok io1)
       | Inr m' \<Rightarrow> merged_ok m' \<and> merged_map m' = merged_map (merge_entries ?es m) ++ tables_map (rev ts) \<and>
         snd ` set m' \<subseteq> set (concat (map table_entries ts)) \<union> snd ` set (merge_entries ?es m)"
      using Cons.IH [of io1 "merge_entries ?es m"] Cons.prems(1) m(1) by auto
    have "merge_tables io (t # ts) m = (r', io2)" using a True i(1) by simp
    moreover have "io_after io io2" using io_after_trans a(2) i(2) by blast
    moreover have "case r' of Inl err \<Rightarrow> False \<in> set (io_ok io)
       | Inr m' \<Rightarrow> merged_ok m' \<and> merged_map m' = merged_map m ++ tables_map (rev (t # ts)) \<and>
         snd ` set m' \<subseteq> set (concat (map table_entries (t # ts))) \<union> snd ` set m"
    proof (cases r')
      case (Inr m')
      then have "snd ` set m' \<subseteq> set (concat (map table_entries (t # ts))) \<union> snd ` set m"
        using i(3) m(3) by (simp, blast)
      then show ?thesis using Inr i(3) m(2) tm by simp
    qed (use i(3) io_after_fail [OF a(2)] in auto)
    ultimately show ?thesis by blast
  qed
qed

lemma merge_all_tables:
  assumes "\<forall>t \<in> set ts. table_ok t" "io_cut io = []"
  shows "\<exists>r io'. merge_tables io (rev ts) [] = (r, io') \<and> io_after io io' \<and>
    (case r of Inl err \<Rightarrow> False \<in> set (io_ok io)
     | Inr m \<Rightarrow> merged_ok m \<and> merged_map m = tables_map ts \<and> snd ` set m \<subseteq> set (concat (map table_entries ts)))"
proof -
  have "\<forall>t \<in> set (rev ts). table_ok t" using assms(1) by simp
  from merge_tables_spec [OF this assms(2) merged_ok_Nil] show ?thesis
    by (elim exE conjE, rename_tac r io', case_tac r) auto
qed

text \<open>The table that compaction writes.\<close>

definition compacted :: "(gostring \<times> kvEntry) list \<Rightarrow> kvEntry list" where
  "compacted m = map (\<lambda>k. the (map_of m k)) (live_keys m)"

lemma live_keys_spec:
  assumes "merged_ok m"
  shows "sorted_wrt (<) (live_keys m)"
    "k \<in> set (live_keys m) \<longleftrightarrow> (\<exists>en. map_of m k = Some en \<and> \<not> kv_tombstone en)"
proof -
  have d: "distinct (map fst m)" using assms by (simp add: merged_ok_def)
  then have "distinct (map fst (filter (\<lambda>(k, en). \<not> kv_tombstone en) m))" by (induction m) auto
  then show "sorted_wrt (<) (live_keys m)" by (simp add: live_keys_def strict_sorted_iff)
  show "k \<in> set (live_keys m) \<longleftrightarrow> (\<exists>en. map_of m k = Some en \<and> \<not> kv_tombstone en)"
    using d by (force simp: live_keys_def)
qed

lemma compacted_keys:
  assumes "merged_ok m"
  shows "map kv_key (compacted m) = live_keys m"
proof -
  have "kv_key (the (map_of m k)) = k" if "k \<in> set (live_keys m)" for k
    using that live_keys_spec(2) [OF assms] assms by (auto simp: merged_ok_def dest!: map_of_SomeD)
  then show ?thesis by (simp add: compacted_def comp_def cong: map_cong)
qed

lemma compacted_spec:
  assumes "merged_ok m"
  shows "sorted_entries (compacted m)" "live (entry_map (compacted m)) = live (merged_map m)"
    "set (compacted m) \<subseteq> snd ` set m" "distinct (compacted m)"
proof -
  note keys = compacted_keys [OF assms] live_keys_spec [OF assms]
  show so: "sorted_entries (compacted m)" using keys by (simp add: sorted_entries_def)
  show "distinct (compacted m)" using sorted_entries_distinct [OF so] by (simp add: distinct_map)
  show "set (compacted m) \<subseteq> snd ` set m"
    using keys(3) by (force simp: compacted_def dest: map_of_SomeD)
  have "entry_map (compacted m) k = (if k \<in> set (live_keys m) then merged_map m k else None)" for k
  proof (cases "k \<in> set (live_keys m)")
    case True
    then obtain en where en: "map_of m k = Some en" using keys(3) by auto
    then have "en \<in> set (compacted m)" "kv_key en = k"
      using True assms by (force simp: compacted_def image_iff, auto simp: merged_ok_def dest: map_of_SomeD)
    then have "(k, proj en) \<in> set (map (\<lambda>e. (kv_key e, (kv_value e, kv_tombstone e))) (compacted m))"
      by (auto simp: proj_def)
    then have "entry_map (compacted m) k = Some (proj en)"
      unfolding entry_map_def using sorted_entries_distinct [OF so]
      by (intro map_of_is_SomeI) (simp_all add: comp_def)
    then show ?thesis using True en by (simp add: merged_map_def)
  next
    case False
    then have "k \<notin> kv_key ` set (compacted m)" using keys(1) by (metis list.set_map)
    then show ?thesis using False by (simp add: entry_map_None)
  qed
  then show "live (entry_map (compacted m)) = live (merged_map m)"
    using keys(3) by (auto simp: live_def fun_eq_iff merged_map_def proj_def split: option.splits bool.splits)
qed

section \<open>Reading\<close>

lemma get_tables_spec:
  assumes "\<forall>t \<in> set ts. table_ok t" "io_cut io = []"
  shows "\<exists>r io'. get_tables io ts key = (r, io') \<and> io_after io io' \<and>
    (r = Inr (live (tables_map ts) key) \<or> (\<exists>err. r = Inl err) \<and> False \<in> set (io_ok io))"
  using assms
proof (induction ts arbitrary: io)
  case Nil
  then show ?case by (simp add: live_def)
next
  case (Cons t ts)
  let ?es = "table_entries t"
  obtain path where t: "t = table_of path ?es" "sorted_entries ?es" "sst_fits ?es"
    using Cons.prems(1) table_okE by (metis list.set_intros(1))
  obtain r io1 where g: "sst_get io t key = (r, io1)" "io_after io io1"
      "r = Inr (found (entry_map ?es key)) \<or> r = Inl SstIO \<and> False \<in> set (io_ok io)"
    using sst_get_spec [OF t(2,3) Cons.prems(2), of path key] t(1) by auto
  have "io_cut io1 = []" using io_after_cut [OF g(2)] Cons.prems(2) by simp
  then obtain r' io2 where i: "get_tables io1 ts key = (r', io2)" "io_after io1 io2"
      "r' = Inr (live (tables_map ts) key) \<or> (\<exists>err. r' = Inl err) \<and> False \<in> set (io_ok io1)"
    using Cons.IH Cons.prems(1) by (metis list.set_intros(2))
  note after = io_after_trans [OF g(2) i(2)]
  show ?case
  proof (cases "r = Inl SstIO")
    case True
    then show ?thesis using g by auto
  next
    case False
    then have r: "r = Inr (found (entry_map ?es key))" using g(3) by auto
    show ?thesis
    proof (cases "entry_map ?es key")
      case None
      then show ?thesis
        using g(1) i(1,3) r after io_after_fail [OF g(2)] by (auto simp: found_def live_add)
    next
      case (Some x)
      then show ?thesis using g(1,2) r by (cases x) (auto simp: found_def live_add)
    qed
  qed
qed

lemma Get_spec:
  assumes "eng_ok e"
  shows "\<exists>r io'. Get e key = Some (e\<lparr>e_io := io'\<rparr>, r) \<and> io_after (e_io e) io' \<and>
    (r = Inr (e_map e key) \<or> (\<exists>err. r = Inl err) \<and> False \<in> set (io_ok (e_io e)))"
proof -
  have m: "mem_get (e_mem e) key = Some (found (mem_map (e_mem e) key))"
    using mt.lookup_ok assms by (simp add: eng_ok_def)
  obtain r io' where g: "get_tables (e_io e) (e_tables e) key = (r, io')" "io_after (e_io e) io'"
      "r = Inr (live (tables_map (e_tables e)) key) \<or> (\<exists>err. r = Inl err) \<and> False \<in> set (io_ok (e_io e))"
    using get_tables_spec [of "e_tables e" "e_io e" key] assms by (auto simp: eng_ok_def)
  show ?thesis
  proof (cases "mem_map (e_mem e) key")
    case None
    then have "Get e key = Some (e\<lparr>e_io := io'\<rparr>, r)" "e_map e key = live (tables_map (e_tables e)) key"
      using m g by (simp_all add: Get_def found_def e_map_def live_add)
    then show ?thesis using g(2,3) by auto
  next
    case (Some x)
    then have "Get e key = Some (e\<lparr>e_io := e_io e\<rparr>, Inr (e_map e key))"
      using m by (cases x) (simp add: Get_def found_def e_map_def live_add)
    then show ?thesis using io_after_refl by blast
  qed
qed

section \<open>Flushing and compaction\<close>

lemma writeSSTable_io:
  assumes "writeSSTable io old es = (f, io', err)" "io_cut io = []"
  shows "io_after io io'" "err = None \<or> False \<in> set (io_ok io)"
proof -
  obtain ok1 io1 where 1: "ok_next io = (ok1, io1)" by (cases "ok_next io")
  obtain ok2 io2 where 2: "ok_next io1 = (ok2, io2)" by (cases "ok_next io1")
  obtain ok3 io3 where 3: "ok_next io2 = (ok3, io3)" by (cases "ok_next io2")
  note a1 = ok_next_after [OF 1] and a2 = ok_next_after [OF 2] and a3 = ok_next_after [OF 3]
  note b2 = io_after_trans [OF a1(1) a2(1)] 
  note b3 = io_after_trans [OF b2 a3(1)]
  have "cut_next io1 bs = (bs, io1)" for bs
    using io_after_cut [OF a1(1)] assms(2) by (simp add: cut_next_def)
  then have "(io' = io1 \<and> \<not> ok1) \<or> (io' = io2 \<and> \<not> ok2) \<or> (io' = io3 \<and> (err = None \<longleftrightarrow> ok3))"
    using assms(1) by (auto simp: writeSSTable_def 1 2 3 Let_def split: if_splits)
  then show "io_after io io'" "err = None \<or> False \<in> set (io_ok io)"
    using a1 a2(2) a3(2) b2 b3 io_after_fail by blast+
qed

text \<open>Only the directory and the numbering changed.\<close>

definition eng_frame :: "Engine \<Rightarrow> Engine \<Rightarrow> bool" where
  "eng_frame e e' \<longleftrightarrow> e_wal e' = e_wal e \<and> e_mem e' = e_mem e \<and> e_tables e' = e_tables e \<and>
     e_flushSize e' = e_flushSize e \<and> e_syncWAL e' = e_syncWAL e"

lemma new_table_spec:
  assumes "sorted_entries es" "sst_fits es" "io_cut (e_io e) = []"
  shows "\<exists>e' r. new_table e es = Some (e', r) \<and> eng_frame e e' \<and> io_after (e_io e) (e_io e') \<and>
    (r = Inr (table_of (sst_name (e_nextSST e)) es) \<or> (\<exists>err. r = Inl err) \<and> False \<in> set (io_ok (e_io e)))"
proof -
  let ?path = "sst_name (e_nextSST e)"
  let ?old = "case map_of (e_dir e) ?path of None \<Rightarrow> NoFile | Some (bs, _) \<Rightarrow> File bs"
  obtain f io1 err where w: "writeSSTable (e_io e) ?old es = (f, io1, err)"
    by (cases "writeSSTable (e_io e) ?old es") auto
  note io1 = writeSSTable_io [OF w assms(3)]
  show ?thesis
  proof (cases err)
    case (Some x)
    then show ?thesis using w io1 by (simp add: new_table_def Let_def eng_frame_def)
  next
    case None
    have f: "f = File (sst_content es)" using writeSSTable_ok w None by blast
    have "io_cut io1 = []" using io_after_cut [OF io1(1)] assms(3) by simp
    then obtain r io2 where o: "openSSTable io1 ?path f = Some (r, io2)" "io_after io1 io2"
        "r = Inr (table_of ?path es) \<or> r = Inl SstIO \<and> False \<in> set (io_ok io1)"
      using openSSTable_spec [OF assms(2), of io1 ?path] f by auto
    have "io_after (e_io e) io2" using io_after_trans io1(1) o(2) by blast
    then show ?thesis
      using w None o io_after_fail [OF io1(1)] by (auto simp: new_table_def Let_def eng_frame_def)
  qed
qed

text \<open>Compaction keeps the contents.\<close>

lemma eng_size_compacted:
  assumes "merged_ok m" "snd ` set m \<subseteq> set (concat (map table_entries ts))"
    "\<forall>t \<in> set ts. table_ok t" "esize (concat (map table_entries ts)) < 2 ^ 35"
  shows "sst_fits (compacted m)" "esize (compacted m) \<le> esize (concat (map table_entries ts))"
proof -
  note c = compacted_spec [OF assms(1)]
  show "esize (compacted m) \<le> esize (concat (map table_entries ts))"
    using esize_subset [OF c(4)] c(3) assms(2) by blast
  moreover have "kv_fits en" if "en \<in> set (compacted m)" for en
    using that c(3) assms(2,3) by (force simp: sst_fits_def elim!: table_okE)
  ultimately show "sst_fits (compacted m)" using sst_fits_small assms(4) by simp
qed

lemma esize_concat_rev: "esize (concat (map f (rev xs))) = esize (concat (map f xs))"
  by (induction xs) simp_all

lemma remove_tables_io: "remove_tables io dir ts = (dir', io') \<Longrightarrow> io_after io io'"
proof (induction ts arbitrary: io dir)
  case (Cons t ts)
  obtain ok io1 where o: "ok_next io = (ok, io1)" by (cases "ok_next io")
  then show ?case using Cons io_after_trans [OF ok_next_after(1) [OF o]] by simp
qed simp

lemma compactLocked_spec:
  assumes "eng_ok e" "eng_small e"
  shows "\<exists>e' err. compactLocked e = Some (e', err) \<and> eng_ok e' \<and> e_map e' = e_map e \<and>
    eng_size e' \<le> eng_size e \<and> e_wal e' = e_wal e \<and> e_mem e' = e_mem e \<and>
    io_after (e_io e) (e_io e') \<and> (err = None \<or> False \<in> set (io_ok (e_io e)))"
proof -
  let ?ts = "e_tables e"
  have ok: "mem_ok (e_mem e)" "\<forall>en \<in> set (mem_dump (e_mem e)). kv_fits en" "\<forall>t \<in> set ?ts. table_ok t"
      "io_cut (e_io e) = []"
    using assms(1) by (auto simp: eng_ok_def)
  obtain r io1 where m: "merge_tables (e_io e) (rev ?ts) [] = (r, io1)" "io_after (e_io e) io1"
      "case r of Inl err \<Rightarrow> False \<in> set (io_ok (e_io e))
       | Inr m \<Rightarrow> merged_ok m \<and> merged_map m = tables_map ?ts \<and>
           snd ` set m \<subseteq> set (concat (map table_entries ?ts))"
    using merge_all_tables [OF ok(3,4)] by blast
  have cut1: "io_cut io1 = []" using io_after_cut [OF m(2)] ok(4) by simp
  show ?thesis
  proof (cases r)
    case (Inl err)
    have "eng_ok (e\<lparr>e_io := io1\<rparr>)" using ok cut1 by (simp add: eng_ok_def)
    then show ?thesis using m Inl by (simp add: compactLocked_def e_map_def eng_size_def)
  next
    case (Inr mg)
    then have mg: "merged_ok mg" "merged_map mg = tables_map ?ts"
        "snd ` set mg \<subseteq> set (concat (map table_entries ?ts))" using m(3) by auto
    have small: "esize (concat (map table_entries ?ts)) < 2 ^ 35"
      using assms(2) by (simp add: eng_small_def eng_size_def)
    note sz = eng_size_compacted [OF mg(1,3) ok(3) small]
    obtain e1 r' where n: "new_table (e\<lparr>e_io := io1\<rparr>) (compacted mg) = Some (e1, r')"
        "eng_frame (e\<lparr>e_io := io1\<rparr>) e1" "io_after io1 (e_io e1)"
        "r' = Inr (table_of (sst_name (e_nextSST e)) (compacted mg)) \<or>
         (\<exists>err. r' = Inl err) \<and> False \<in> set (io_ok io1)"
      using new_table_spec [OF compacted_spec(1) [OF mg(1)] sz(1), of "e\<lparr>e_io := io1\<rparr>"] cut1 by auto
    note io2 = io_after_trans [OF m(2) n(3)]
    have cut2: "io_cut (e_io e1) = []" using io_after_cut [OF io2] ok(4) by simp
    have fr: "e_mem e1 = e_mem e" "e_tables e1 = ?ts" "e_wal e1 = e_wal e" using n(2) by (auto simp: eng_frame_def)
    show ?thesis
    proof (cases r')
      case (Inl err)
      have "eng_ok e1" using ok cut2 fr by (simp add: eng_ok_def)
      then show ?thesis
        using m(1) Inr n(1,4) Inl io2 io_after_fail [OF m(2)] fr
        by (auto simp: compactLocked_def compacted_def e_map_def eng_size_def)
    next
      case t: (Inr t)
      then have tt: "t = table_of (sst_name (e_nextSST e)) (compacted mg)" using n(4) by auto
      obtain dir io3 where rm: "remove_tables (e_io e1) (e_dir e1) ?ts = (dir, io3)"
        by (cases "remove_tables (e_io e1) (e_dir e1) ?ts")
      have io3: "io_after (e_io e) io3" using io_after_trans [OF io2 remove_tables_io [OF rm]] .
      let ?e = "e1\<lparr>e_tables := [t], e_dir := dir, e_io := io3\<rparr>"
      have c: "compactLocked e = Some (?e, None)"
        using m(1) Inr n(1) t rm fr by (simp add: compactLocked_def compacted_def)
      have "table_ok t" unfolding tt by (rule table_ok_table_of [OF compacted_spec(1) [OF mg(1)] sz(1)])
      then have "eng_ok ?e" using ok fr io_after_cut [OF io3] by (simp add: eng_ok_def)
      moreover have "live (entry_map (compacted mg)) = live (tables_map ?ts)"
        using compacted_spec(2) [OF mg(1)] mg(2) by simp
      then have "live (entry_map (compacted mg) ++ mem_map (e_mem e)) = live (tables_map ?ts ++ mem_map (e_mem e))"
        by (rule live_cong)
      then have "e_map ?e = e_map e" using fr sz(1) by (simp add: e_map_def tt)
      moreover have "eng_size ?e \<le> eng_size e" using sz fr by (simp add: eng_size_def tt)
      ultimately show ?thesis using c io3 fr by auto
    qed
  qed
qed

text \<open>Only the log and the outcomes to come changed.\<close>

definition wal_frame :: "Engine \<Rightarrow> Engine \<Rightarrow> bool" where
  "wal_frame e e' \<longleftrightarrow> e_mem e' = e_mem e \<and> e_tables e' = e_tables e \<and> e_flushSize e' = e_flushSize e \<and>
     e_syncWAL e' = e_syncWAL e \<and> e_dir e' = e_dir e \<and> e_nextSST e' = e_nextSST e \<and>
     io_cut (e_io e') = io_cut (e_io e)"

lemma wal_frame_keeps:
  assumes "wal_frame e e'"
  shows "eng_ok e' = eng_ok e" "e_map e' = e_map e" "eng_size e' = eng_size e" "eng_small e' = eng_small e"
  using assms by (simp_all add: wal_frame_def eng_ok_def e_map_def eng_size_def eng_small_def)

text \<open>No call fails any more, and the log is healthy.\<close>

definition clean :: "Engine \<Rightarrow> bool" where
  "clean e \<longleftrightarrow> False \<notin> set (io_ok (e_io e)) \<and> (\<exists>w. e_wal e = Some w \<and> \<not> w_err w \<and> \<not> w_closed w)"

definition healthy :: "WAL \<Rightarrow> bool" where
  "healthy w \<longleftrightarrow> \<not> w_err w \<and> \<not> w_closed w \<and> False \<notin> set (w_io w)"

lemma io_after_clean: "io_after io io' \<Longrightarrow> False \<notin> set (io_ok io) \<Longrightarrow> False \<notin> set (io_ok io')"
  using io_after_fail by blast

lemma io_next_clean:
  assumes "False \<notin> set io"
  obtains io' where "io_next io = (True, io')" "False \<notin> set io'"
  using assms by (cases io) auto

lemma healthy_steps:
  assumes "healthy w"
  shows "\<exists>w'. buf_Write w p = (w', None) \<and> healthy w'" "\<exists>w'. buf_Flush w = (w', None) \<and> healthy w'"
    "\<exists>w'. file_Sync w = (w', None) \<and> healthy w'"
    "\<exists>w'. file_Close w = (w', None) \<and> False \<notin> set (w_io w')"
proof -
  obtain io' where "io_next (w_io w) = (True, io')" "False \<notin> set io'"
    using io_next_clean assms by (auto simp: healthy_def)
  then show "\<exists>w'. buf_Write w p = (w', None) \<and> healthy w'" "\<exists>w'. buf_Flush w = (w', None) \<and> healthy w'"
    "\<exists>w'. file_Sync w = (w', None) \<and> healthy w'" "\<exists>w'. file_Close w = (w', None) \<and> False \<notin> set (w_io w')"
    using assms by (auto simp: healthy_def buf_Write_def buf_Flush_def file_Sync_def file_Close_def)
qed

lemma healthy_Sync: "healthy w \<Longrightarrow> \<exists>w'. Sync w = (w', None) \<and> healthy w'"
  using healthy_steps(2,3) by (fastforce simp: Sync_def)

lemma healthy_Close: "healthy w \<Longrightarrow> \<exists>w'. Close w = (w', None) \<and> False \<notin> set (w_io w')"
  using healthy_Sync healthy_steps(4) by (fastforce simp: Close_def)

lemma healthy_Append: "healthy w \<Longrightarrow> \<exists>w'. Append w p = (w', None) \<and> healthy w'"
proof -
  assume h: "healthy w"
  obtain w1 where 1: "buf_Write w (PutUint32 (ChecksumIEEE p) @ PutUint32 (word_of_nat (length p))) = (w1, None)" "healthy w1"
    using healthy_steps(1) [OF h] by blast
  obtain w2 where 2: "buf_Write w1 p = (w2, None)" "healthy w2" using healthy_steps(1) [OF 1(2)] by blast
  then show ?thesis by (simp add: Append_def 1 healthy_def)
qed

lemma wal_do_spec:
  assumes "e_wal e \<noteq> None"
  shows "\<exists>e' err. wal_do e f = Some (e', err) \<and> wal_frame e e' \<and> e_wal e' \<noteq> None"
  using assms by (auto simp: wal_do_def wal_frame_def split: prod.splits)

lemma wal_do_clean:
  assumes "clean e"
  shows "\<exists>e'. wal_do e Close = Some (e', None) \<and> False \<notin> set (io_ok (e_io e'))"
    "\<exists>e'. wal_do e Sync = Some (e', None) \<and> clean e'"
    "\<exists>e'. wal_do e (\<lambda>w. Append w p) = Some (e', None) \<and> clean e'"
proof -
  obtain w where w: "e_wal e = Some w" "healthy (w\<lparr>w_io := io_ok (e_io e)\<rparr>)"
    using assms by (auto simp: clean_def healthy_def)
  show "\<exists>e'. wal_do e Close = Some (e', None) \<and> False \<notin> set (io_ok (e_io e'))"
    "\<exists>e'. wal_do e Sync = Some (e', None) \<and> clean e'"
    "\<exists>e'. wal_do e (\<lambda>w. Append w p) = Some (e', None) \<and> clean e'"
    using healthy_Close [OF w(2)] healthy_Sync [OF w(2)] healthy_Append [OF w(2), of p]
    by (auto simp: wal_do_def w(1) clean_def healthy_def)
qed

lemma OpenWAL_clean:
  assumes "False \<notin> set io" "f \<noteq> Unreadable"
  shows "\<exists>w. OpenWAL io f = Inr w \<and> healthy w"
proof -
  obtain io1 where 1: "io_next io = (True, io1)" "False \<notin> set io1" using io_next_clean assms by blast
  obtain io2 where 2: "io_next io1 = (True, io2)" "False \<notin> set io2" using io_next_clean 1 by blast
  then show ?thesis using assms(2) by (simp add: OpenWAL_def healthy_def numeral_2_eq_2 1 Let_def)
qed

lemma reopen_wal_spec:
  "\<exists>e' err. reopen_wal e = Some (e', err) \<and> wal_frame e e' \<and> (err = None \<longrightarrow> e_wal e' \<noteq> None) \<and>
     (False \<notin> set (io_ok (e_io e)) \<longrightarrow> err = None \<and> clean e')"
proof -
  obtain ok io1 where o: "ok_next (e_io e) = (ok, io1)" by (cases "ok_next (e_io e)")
  note c = io_after_cut [OF ok_next_after(1) [OF o]]
  show ?thesis
    using o c ok_next_after(2) [OF o] io_after_clean [OF ok_next_after(1) [OF o]]
      OpenWAL_clean [of "io_ok io1" NoFile]
    by (cases "OpenWAL (io_ok io1) NoFile") (auto simp: reopen_wal_def wal_frame_def clean_def healthy_def)
qed

lemma mem_new [simp]: "mem_dump (newMemtable r) = []"
  using mem_entries_spec [of "newMemtable r" "[]"] mem_new_inv [of r] by (simp add: mem_dump_def mem_inv_def)

lemma map_add_self: "m ++ a ++ a = m ++ a"
  by (auto simp: fun_eq_iff map_add_def split: option.splits)

lemma flushLocked_spec:
  assumes "eng_ok e" "eng_small e" "e_wal e \<noteq> None"
  shows "\<exists>e' err. flushLocked e = Some (e', err) \<and> eng_ok e' \<and> e_map e' = e_map e \<and>
    (err = None \<longrightarrow> eng_size e' \<le> eng_size e \<and> e_wal e' \<noteq> None) \<and> (clean e \<longrightarrow> err = None \<and> clean e')"
proof -
  let ?es = "mem_dump (e_mem e)"
  have ok: "mem_ok (e_mem e)" "\<forall>en \<in> set ?es. kv_fits en" "\<forall>t \<in> set (e_tables e). table_ok t"
      "io_cut (e_io e) = []"
    using assms(1) by (auto simp: eng_ok_def)
  note d = mem_dump_spec [OF ok(1)]
  show ?thesis
  proof (cases "?es = []")
    case True
    then show ?thesis using d(1) assms by (simp add: flushLocked_def)
  next
    case False
    have fits: "sst_fits ?es"
      using sst_fits_small ok(2) assms(2) by (simp add: eng_small_def eng_size_def)
    obtain e1 r where n: "new_table e ?es = Some (e1, r)" "eng_frame e e1" "io_after (e_io e) (e_io e1)"
        "r = Inr (table_of (sst_name (e_nextSST e)) ?es) \<or> (\<exists>err. r = Inl err) \<and> False \<in> set (io_ok (e_io e))"
      using new_table_spec [OF d(2) fits ok(4)] by blast
    have fr: "e_mem e1 = e_mem e" "e_tables e1 = e_tables e" "e_wal e1 = e_wal e" "io_cut (e_io e1) = []"
      using n(2) io_after_cut [OF n(3)] ok(4) by (auto simp: eng_frame_def)
    show ?thesis
    proof (cases r)
      case (Inl err)
      have "eng_ok e1" using ok fr by (simp add: eng_ok_def)
      then show ?thesis using d(1) False n(1,4) Inl fr by (auto simp: flushLocked_def e_map_def clean_def)
    next
      case (Inr t)
      then have t: "t = table_of (sst_name (e_nextSST e)) ?es" "table_entries t = ?es" "table_ok t"
        using n(4) fits table_ok_table_of [OF d(2) fits] by auto
      let ?e1 = "e1\<lparr>e_tables := t # e_tables e1\<rparr>"
      have ok1: "eng_ok ?e1" using ok t(3) fr by (simp add: eng_ok_def)
      have map1: "e_map ?e1 = e_map e" using fr t(2) d(3) by (simp add: e_map_def map_add_self)
      obtain e2 err2 where c: "wal_do ?e1 Close = Some (e2, err2)" "wal_frame ?e1 e2"
        using wal_do_spec [of ?e1 Close] assms(3) fr by auto
      obtain e3 err3 where o: "reopen_wal e2 = Some (e3, err3)" "wal_frame e2 e3" "err3 = None \<longrightarrow> e_wal e3 \<noteq> None"
          "False \<notin> set (io_ok (e_io e2)) \<longrightarrow> err3 = None \<and> clean e3"
        using reopen_wal_spec [of e2] by blast
      note k2 = wal_frame_keeps [OF c(2)] and k3 = wal_frame_keeps [OF o(2)]
      let ?e4 = "e3\<lparr>e_mem := newMemtable (m_rand (e_mem e3))\<rparr>"
      have tabs: "e_tables e3 = t # e_tables e" using c(2) o(2) fr by (simp add: wal_frame_def)
      have ok4: "eng_ok ?e4" using k2(1) k3(1) ok1 by (simp add: eng_ok_def mem_ok_new)
      have map4: "e_map ?e4 = e_map e" using tabs t(2) d(3) by (simp add: e_map_def)
      have sz4: "eng_size ?e4 = eng_size e" using tabs t(2) by (simp add: eng_size_def)
      then have "eng_small ?e4" using assms(2) by (simp add: eng_small_def)
      then obtain e5 err5 where k: "compactLocked ?e4 = Some (e5, err5)" "eng_ok e5" "e_map e5 = e_map e"
          "eng_size e5 \<le> eng_size e" "e_wal e5 = e_wal e3" "io_after (e_io e3) (e_io e5)"
          "err5 = None \<or> False \<in> set (io_ok (e_io e3))"
        using compactLocked_spec [OF ok4] map4 sz4 by auto
      have cl: "err2 = None \<and> err3 = None \<and> clean e3 \<and> err5 = None \<and> clean e5" if ce: "clean e"
      proof -
        have "clean ?e1" using ce fr io_after_clean [OF n(3)] by (simp add: clean_def)
        then have "err2 = None" "False \<notin> set (io_ok (e_io e2))" using wal_do_clean(1) [of ?e1] c(1) by auto
        then have "err2 = None \<and> err3 = None \<and> clean e3" using o(4) by simp
        moreover from this have "False \<notin> set (io_ok (e_io e3))" by (simp add: clean_def)
        ultimately show ?thesis using k(5,6,7) io_after_clean by (auto simp: clean_def)
      qed
      have "flushLocked e = (if err2 \<noteq> None then Some (e2, err2) else if err3 \<noteq> None then Some (e3, err3)
          else if length (e_tables ?e4) > maxTablesBeforeCompact then compactLocked ?e4 else Some (?e4, None))"
        using False
        by (cases err2; cases err3) (simp_all add: flushLocked_def Let_def d(1) n(1) Inr c(1) o(1))
      then show ?thesis
        using ok1 map1 k2 k3 ok4 map4 k o(3) sz4 cl by (auto simp: clean_def)
    qed
  qed
qed

section \<open>Writing\<close>

lemma sorted_entry_map:
  assumes "sorted_entries es"
  shows "en \<in> set es \<longleftrightarrow> entry_map es (kv_key en) = Some (proj en)"
proof
  assume "en \<in> set es"
  then show "entry_map es (kv_key en) = Some (proj en)"
    unfolding entry_map_def using sorted_entries_distinct [OF assms]
    by (intro map_of_is_SomeI) (auto simp: comp_def proj_def)
next
  assume "entry_map es (kv_key en) = Some (proj en)"
  then obtain e' where "e' \<in> set es" "kv_key e' = kv_key en" "proj e' = proj en"
    unfolding entry_map_def by (auto simp: proj_def dest!: map_of_SomeD)
  then show "en \<in> set es" by (metis kvEntry.equality old.unit.exhaust prod.inject proj_def)
qed

lemma mem_dump_put:
  assumes "mem_ok m" "mem_put m k v t = Some m'"
  shows "set (mem_dump m') \<subseteq> insert \<lparr>kv_key = k, kv_value = v, kv_tombstone = t\<rparr> (set (mem_dump m))"
    "esize (mem_dump m') \<le> esize (mem_dump m) + (9 + length k + length v)"
    "mem_ok m'" "mem_map m' = (mem_map m)(k \<mapsto> (v, t))"
proof -
  let ?en = "\<lparr>kv_key = k, kv_value = v, kv_tombstone = t\<rparr>"
  show ok: "mem_ok m'" and mp: "mem_map m' = (mem_map m)(k \<mapsto> (v, t))"
    using mem_put_spec [OF assms(1), of k v t] assms(2) by auto
  note d = mem_dump_spec [OF assms(1)] and d' = mem_dump_spec [OF ok]
  show sub: "set (mem_dump m') \<subseteq> insert ?en (set (mem_dump m))"
  proof
    fix en assume "en \<in> set (mem_dump m')"
    then have e: "((mem_map m)(k \<mapsto> (v, t))) (kv_key en) = Some (proj en)"
      using sorted_entry_map [OF d'(2)] d'(3) mp by simp
    show "en \<in> insert ?en (set (mem_dump m))"
    proof (cases "kv_key en = k")
      case True
      then have "en = ?en" using e by (simp add: proj_def)
      then show ?thesis by simp
    next
      case False
      then show ?thesis using e sorted_entry_map [OF d(2)] d(3) by simp
    qed
  qed
  have "distinct (mem_dump m')" using sorted_entries_distinct [OF d'(2)] by (simp add: distinct_map)
  from esize_subset [OF this, of "?en # mem_dump m"] sub
  show "esize (mem_dump m') \<le> esize (mem_dump m) + (9 + length k + length v)"
    by (simp add: esize_def record_size_def)
qed

definition upd :: "(gostring \<rightharpoonup> bytes) \<Rightarrow> gostring \<Rightarrow> bytes \<Rightarrow> bool \<Rightarrow> gostring \<rightharpoonup> bytes" where
  "upd m key val tomb = m(key := if tomb then None else Some val)"

lemma live_upd: "live (a ++ b(k \<mapsto> (v, t))) = upd (live (a ++ b)) k v t"
  by (rule ext) (simp add: live_def upd_def map_add_def split: option.splits bool.splits)

lemma eng_write_spec:
  assumes ok: "eng_ok e" and wal: "e_wal e \<noteq> None" and fits: "length key < 2 ^ 32" "length val < 2 ^ 32"
    and small: "eng_size e + (9 + length key + length val) < 2 ^ 35"
  shows "\<exists>e' err. eng_write e key val tomb = Some (e', err) \<and> eng_ok e' \<and>
    (e_map e' = upd (e_map e) key val tomb \<or> err \<noteq> None \<and> e_map e' = e_map e) \<and>
    (err = None \<longrightarrow> eng_size e' \<le> eng_size e + (9 + length key + length val) \<and> e_wal e' \<noteq> None) \<and>
    (clean e \<longrightarrow> err = None \<and> clean e')"
proof -
  obtain e1 err1 where a: "wal_do e (\<lambda>w. Append w (encodeWALRecord key val tomb)) = Some (e1, err1)"
      "wal_frame e e1" "e_wal e1 \<noteq> None"
    using wal_do_spec [OF wal] by blast
  obtain e2 err2 where b: "(if e_syncWAL e1 then wal_do e1 Sync else Some (e1, None)) = Some (e2, err2)"
      "wal_frame e1 e2" "e_wal e2 \<noteq> None"
    using wal_do_spec [OF a(3), of Sync] a(3) by (cases "e_syncWAL e1") (auto simp: wal_frame_def)
  have c12: "err1 = None \<and> err2 = None \<and> clean e2" if "clean e"
    using that a(1) b(1) wal_do_clean(3) [OF that, of "encodeWALRecord key val tomb"] wal_do_clean(2) [of e1] by (auto split: if_splits)
  note k1 = wal_frame_keeps [OF a(2)] and k2 = wal_frame_keeps [OF b(2)]
  have mok: "mem_ok (e_mem e2)" using ok k1(1) k2(1) by (simp add: eng_ok_def)
  obtain m where m: "mem_put (e_mem e2) key val tomb = Some m"
    using mem_put_spec [OF mok] by blast
  note d = mem_dump_put [OF mok m]
  let ?e3 = "e2\<lparr>e_mem := m\<rparr>"
  have "kv_fits \<lparr>kv_key = key, kv_value = val, kv_tombstone = tomb\<rparr>" using fits by (simp add: kv_fits_def)
  then have ok3: "eng_ok ?e3" using ok k1(1) k2(1) d(1,3) by (auto simp: eng_ok_def)
  have map3: "e_map ?e3 = upd (e_map e) key val tomb"
    unfolding k1(2) [symmetric] k2(2) [symmetric] using d(4) live_upd by (simp add: e_map_def del: map_add_upd)
  have sz3: "eng_size ?e3 \<le> eng_size e + (9 + length key + length val)"
    using k1(3) k2(3) d(2) by (simp add: eng_size_def)
  have wal3: "e_wal ?e3 \<noteq> None" and cl3: "clean ?e3 \<longleftrightarrow> clean e2" using b(3) by (simp_all add: clean_def)
  have "eng_small ?e3" using sz3 small by (simp add: eng_small_def)
  then obtain e4 err4 where f: "flushLocked ?e3 = Some (e4, err4)" "eng_ok e4" "e_map e4 = e_map ?e3"
      "err4 = None \<longrightarrow> eng_size e4 \<le> eng_size ?e3 \<and> e_wal e4 \<noteq> None" "clean ?e3 \<longrightarrow> err4 = None \<and> clean e4"
    using flushLocked_spec [OF ok3 _ wal3] by blast
  have w: "eng_write e key val tomb = (if err1 \<noteq> None then Some (e1, err1) else if err2 \<noteq> None then Some (e2, err2)
      else if approxSize m \<ge> e_flushSize e2 then flushLocked ?e3 else Some (?e3, None))"
    using b(1) by (cases err1; cases err2) (simp_all add: eng_write_def a(1) m Let_def)
  show ?thesis
  proof (cases "err1 = None \<and> err2 = None")
    case False
    then show ?thesis using w ok k1 k2 c12 by (cases "err1 = None") auto
  next
    case True
    then show ?thesis
      using w f ok3 map3 sz3 wal3 cl3 c12
      by (cases "approxSize m \<ge> e_flushSize e2") auto
  qed
qed

section \<open>The engine as a map\<close>

text \<open>Sequences of calls and what a map does on them.\<close>

datatype eng_op = OpPut gostring bytes | OpDelete gostring | OpGet gostring | OpFlush

fun eng_exec :: "Engine \<Rightarrow> eng_op \<Rightarrow> (Engine \<times> (eng_err + bytes option)) option" where
  "eng_exec e (OpPut k v) = map_option (\<lambda>(e, err). (e, case err of None \<Rightarrow> Inr None | Some x \<Rightarrow> Inl x)) (Put e k v)"
| "eng_exec e (OpDelete k) = map_option (\<lambda>(e, err). (e, case err of None \<Rightarrow> Inr None | Some x \<Rightarrow> Inl x)) (Delete e k)"
| "eng_exec e (OpGet k) = Get e k"
| "eng_exec e OpFlush = map_option (\<lambda>(e, err). (e, case err of None \<Rightarrow> Inr None | Some x \<Rightarrow> Inl x)) (Flush e)"

text \<open>The results of the calls up to the first error, if any.\<close>

fun eng_run :: "Engine \<Rightarrow> eng_op list \<Rightarrow> (bytes option list \<times> eng_err option) option" where
  "eng_run e [] = Some ([], None)"
| "eng_run e (op # ops) =
     (case eng_exec e op of
        None \<Rightarrow> None
      | Some (e', Inl err) \<Rightarrow> Some ([], Some err)
      | Some (e', Inr r) \<Rightarrow> map_option (\<lambda>(rs, err). (r # rs, err)) (eng_run e' ops))"

fun map_exec :: "(gostring \<rightharpoonup> bytes) \<Rightarrow> eng_op \<Rightarrow> (gostring \<rightharpoonup> bytes) \<times> bytes option" where
  "map_exec m (OpPut k v) = (m(k \<mapsto> v), None)"
| "map_exec m (OpDelete k) = (m(k := None), None)"
| "map_exec m (OpGet k) = (m, m k)"
| "map_exec m OpFlush = (m, None)"

fun map_run :: "(gostring \<rightharpoonup> bytes) \<Rightarrow> eng_op list \<Rightarrow> bytes option list" where
  "map_run m [] = []"
| "map_run m (op # ops) = (case map_exec m op of (m', r) \<Rightarrow> r # map_run m' ops)"

fun op_size :: "eng_op \<Rightarrow> nat" where
  "op_size (OpPut k v) = 9 + length k + length v"
| "op_size (OpDelete k) = 9 + length k"
| "op_size (OpGet k) = 0"
| "op_size OpFlush = 0"

fun op_fits :: "eng_op \<Rightarrow> bool" where
  "op_fits (OpPut k v) \<longleftrightarrow> length k < 2 ^ 32 \<and> length v < 2 ^ 32"
| "op_fits (OpDelete k) \<longleftrightarrow> length k < 2 ^ 32"
| "op_fits _ \<longleftrightarrow> True"

lemma eng_exec_spec:
  assumes "eng_ok e" "e_wal e \<noteq> None" "op_fits op" "eng_size e + op_size op < 2 ^ 35"
  shows "\<exists>e' r. eng_exec e op = Some (e', r) \<and>
    (case r of Inl _ \<Rightarrow> \<not> clean e
     | Inr v \<Rightarrow> eng_ok e' \<and> e_wal e' \<noteq> None \<and> map_exec (e_map e) op = (e_map e', v) \<and>
         eng_size e' \<le> eng_size e + op_size op \<and> (clean e \<longrightarrow> clean e'))"
proof (cases op)
  case (OpPut k v)
  obtain e' x where "eng_write e k v False = Some (e', x)" "eng_ok e'"
      "e_map e' = upd (e_map e) k v False \<or> x \<noteq> None \<and> e_map e' = e_map e"
      "x = None \<longrightarrow> eng_size e' \<le> eng_size e + (9 + length k + length v) \<and> e_wal e' \<noteq> None"
      "clean e \<longrightarrow> x = None \<and> clean e'"
    using eng_write_spec [OF assms(1,2), of k v False] assms(3,4) OpPut by auto
  then show ?thesis by (cases x) (auto simp: OpPut Put_def upd_def)
next
  case (OpDelete k)
  obtain e' x where "eng_write e k [] True = Some (e', x)" "eng_ok e'"
      "e_map e' = upd (e_map e) k [] True \<or> x \<noteq> None \<and> e_map e' = e_map e"
      "x = None \<longrightarrow> eng_size e' \<le> eng_size e + (9 + length k + 0) \<and> e_wal e' \<noteq> None"
      "clean e \<longrightarrow> x = None \<and> clean e'"
    using eng_write_spec [OF assms(1,2), of k "[]" True] assms(3,4) OpDelete by auto
  then show ?thesis by (cases x) (auto simp: OpDelete Delete_def upd_def)
next
  case (OpGet k)
  obtain r io' where g: "Get e k = Some (e\<lparr>e_io := io'\<rparr>, r)" "io_after (e_io e) io'"
      "r = Inr (e_map e k) \<or> (\<exists>err. r = Inl err) \<and> False \<in> set (io_ok (e_io e))"
    using Get_spec [OF assms(1)] by blast
  have "eng_ok (e\<lparr>e_io := io'\<rparr>)" "e_map (e\<lparr>e_io := io'\<rparr>) = e_map e" "eng_size (e\<lparr>e_io := io'\<rparr>) = eng_size e"
      "clean e \<longrightarrow> clean (e\<lparr>e_io := io'\<rparr>)"
    using assms(1) io_after_cut [OF g(2)] io_after_clean [OF g(2)]
    by (simp_all add: eng_ok_def e_map_def eng_size_def clean_def)
  then show ?thesis using g assms(2) by (cases r) (auto simp: OpGet clean_def)
next
  case OpFlush
  have "eng_small e" using assms(4) by (simp add: eng_small_def)
  then obtain e' x where "flushLocked e = Some (e', x)" "eng_ok e'" "e_map e' = e_map e"
      "x = None \<longrightarrow> eng_size e' \<le> eng_size e \<and> e_wal e' \<noteq> None" "clean e \<longrightarrow> x = None \<and> clean e'"
    using flushLocked_spec [OF assms(1) _ assms(2)] by blast
  then show ?thesis by (cases x) (auto simp: OpFlush Flush_def)
qed

lemma eng_run_spec:
  assumes "eng_ok e" "e_wal e \<noteq> None" "\<forall>op \<in> set ops. op_fits op" "eng_size e + sum_list (map op_size ops) < 2 ^ 35"
  shows "\<exists>rs err. eng_run e ops = Some (rs, err) \<and>
    (if err = None then rs = map_run (e_map e) ops else \<exists>n < length ops. rs = take n (map_run (e_map e) ops)) \<and>
    (clean e \<longrightarrow> err = None)"
  using assms
proof (induction ops arbitrary: e)
  case Nil
  then show ?case by simp
next
  case (Cons op ops)
  obtain e' r where x: "eng_exec e op = Some (e', r)" "case r of Inl _ \<Rightarrow> \<not> clean e
     | Inr v \<Rightarrow> eng_ok e' \<and> e_wal e' \<noteq> None \<and> map_exec (e_map e) op = (e_map e', v) \<and>
         eng_size e' \<le> eng_size e + op_size op \<and> (clean e \<longrightarrow> clean e')"
    using eng_exec_spec [OF Cons.prems(1,2), of op] Cons.prems(3,4) by auto
  show ?case
  proof (cases r)
    case (Inl err)
    then show ?thesis using x by auto
  next
    case (Inr v)
    then have y: "eng_ok e'" "e_wal e' \<noteq> None" "map_exec (e_map e) op = (e_map e', v)"
        "eng_size e' \<le> eng_size e + op_size op" "clean e \<longrightarrow> clean e'"
      using x(2) by auto
    obtain rs err where "eng_run e' ops = Some (rs, err)"
        "if err = None then rs = map_run (e_map e') ops else \<exists>n < length ops. rs = take n (map_run (e_map e') ops)"
        "clean e' \<longrightarrow> err = None"
      using Cons.IH [OF y(1,2)] y(4) Cons.prems(3,4) by auto
    then show ?thesis
      using x(1) Inr y(3,5) by (auto split: if_splits intro: exI [of _ "Suc _"])
  qed
qed

text \<open>A freshly created engine.\<close>

definition empty_disk :: engine_disk where "empty_disk = \<lparr>ed_wal = NoFile, ed_files = []\<rparr>"

lemma OpenEngine_empty:
  assumes "OpenEngine io rand empty_disk opts = Some (Inr e)" "io_cut io = []"
  shows "eng_ok e" "e_wal e \<noteq> None" "e_map e = Map.empty" "eng_size e = 0" "False \<notin> set (io_ok io) \<Longrightarrow> clean e"
proof -
  obtain ok1 io1 where 1: "ok_next io = (ok1, io1)" by (cases "ok_next io")
  obtain ok2 io2 where 2: "ok_next io1 = (ok2, io2)" by (cases "ok_next io1")
  note a = io_after_trans [OF ok_next_after(1) [OF 1] ok_next_after(1) [OF 2]]
  obtain w where w: "OpenWAL (io_ok io2) NoFile = Inr w"
    and e: "e_wal e = Some w" "e_mem e = newMemtable rand" "e_tables e = []" "e_io e = io2\<lparr>io_ok := w_io w\<rparr>"
    using assms(1)
    by (auto simp: OpenEngine_def 1 2 empty_disk_def table_names_def ReplayWAL_def Let_def split: if_splits sum.splits)
  show "eng_ok e" "e_wal e \<noteq> None" "e_map e = Map.empty" "eng_size e = 0"
    using e io_after_cut [OF a] assms(2)
    by (simp_all add: eng_ok_def mem_ok_new e_map_def eng_size_def live_def fun_eq_iff)
  show "clean e" if "False \<notin> set (io_ok io)"
    using e w OpenWAL_clean [OF io_after_clean [OF a that], of NoFile] by (auto simp: clean_def healthy_def)
qed



end
