(* ===== verification/EngineRecovery.thy ===== *)
theory EngineRecovery
  imports Engine
begin

text \<open>
  What a restart of the storage engine recovers: the names of the table files and their order, the
  log records, and the directory that a run leaves behind.
\<close>

section \<open>Table names\<close>

lemma parse_digits_decimal:
  "n * 10 ^ length (decimal m) + m < 2 ^ 64 \<Longrightarrow>
   parse_digits n (decimal m @ rest) = parse_digits (n * 10 ^ length (decimal m) + m) rest"
proof (induction m arbitrary: n rest rule: decimal.induct)
  case (1 m)
  have digit: "parse_digits k (word_of_nat (48 + d) # rest) = parse_digits (k * 10 + d) rest"
    if "d < 10" "k * 10 + d < 2 ^ 64" for k d rest
  proof -
    have u: "unat (word_of_nat (48 + d) :: byte) = 48 + d"
      using that(1) by (simp only: unat_of_nat) (simp add: take_bit_nat_eq_self)
    then have "\<not> (word_of_nat (48 + d) :: byte) < 48" "\<not> 57 < (word_of_nat (48 + d) :: byte)"
      using that(1) by (simp_all add: word_less_nat_alt)
    then show ?thesis using that(2) u by simp
  qed
  show ?case
  proof (cases "m < 10")
    case True
    then show ?thesis using digit [of m n rest] "1.prems" by (simp add: decimal.simps [of m])
  next
    case False
    let ?l = "length (decimal (m div 10))"
    have d: "decimal m = decimal (m div 10) @ [word_of_nat (48 + m mod 10)]"
      using False by (subst decimal.simps) simp
    have b: "n * 10 ^ ?l * 10 + m div 10 * 10 + m mod 10 < 2 ^ 64"
      using "1.prems" unfolding d by (simp add: mult.assoc mult.commute)
    then have "n * 10 ^ ?l + m div 10 < 2 ^ 64" by linarith
    with "1.IH" False have "parse_digits n (decimal m @ rest) =
        parse_digits (n * 10 ^ ?l + m div 10) (word_of_nat (48 + m mod 10) # rest)"
      unfolding d by simp
    also have "\<dots> = parse_digits ((n * 10 ^ ?l + m div 10) * 10 + m mod 10) rest"
      using b by (intro digit) (simp_all add: add_mult_distrib)
    also have "(n * 10 ^ ?l + m div 10) * 10 + m mod 10 = n * 10 ^ length (decimal m) + m"
      unfolding d by (simp add: add_mult_distrib)
    finally show ?thesis .
  qed
qed

lemma parse_digits_zeros: "parse_digits 0 (replicate k 48 @ rest) = parse_digits 0 rest"
  by (induction k) simp_all

lemma dot_sst_length [simp]: "length dot_sst = 4"
  by (simp add: dot_sst_def str_def)

lemma TrimSuffix_append: "TrimSuffix (s @ suf) suf = s"
  by (simp add: TrimSuffix_def)

lemma sstSeq_sst_name [simp]: "sstSeq (sst_name n) = n"
proof -
  let ?d = "decimal (unat n)"
  have "sst_name n = (replicate (12 - length ?d) 48 @ ?d) @ dot_sst" by (simp add: sst_name_def Let_def)
  then have "sstSeq (sst_name n) = parse_digits 0 (replicate (12 - length ?d) 48 @ ?d)"
    by (simp only: sstSeq_def TrimSuffix_append)
  also have "\<dots> = parse_digits 0 (?d @ [])" by (simp add: parse_digits_zeros)
  also have "\<dots> = parse_digits (0 * 10 ^ length ?d + unat n) []"
    by (rule parse_digits_decimal) (use unsigned_less [of n] in simp)
  finally show ?thesis by simp
qed

lemma sst_name_inj [simp]: "sst_name m = sst_name n \<longleftrightarrow> m = n"
  by (metis sstSeq_sst_name)

lemma sst_name_suffix [simp]: "has_sst_suffix (sst_name n)"
  by (simp add: has_sst_suffix_def sst_name_def Let_def)

text \<open>Sorting the names by their numbers restores the order of the tables.\<close>

lemma sort_key_unique:
  assumes "distinct xs" "set xs = set ys" "sorted_wrt (<) (map f ys)"
  shows "sort_key f xs = ys"
proof -
  have d: "distinct (map f ys)" "sorted (map f ys)" using assms(3) by (simp_all add: strict_sorted_iff)
  then have inj: "inj_on f (set xs)" using assms(2) by (simp add: distinct_map)
  have "map f (sort_key f xs) = map f ys"
    using d assms(1,2) inj by (intro sorted_distinct_set_unique) (simp_all add: distinct_map)
  then show ?thesis using inj assms(2) by (simp add: map_inj_on)
qed

lemma table_names_sorted:
  assumes "distinct (map fst files)" "fst ` set files = sst_name ` set ss" "sorted_wrt (>) ss"
  shows "table_names True files = map sst_name ss"
proof -
  let ?ns = "rev (sort (filter has_sst_suffix (map fst files)))"
  have all: "filter has_sst_suffix (map fst files) = map fst files"
    using assms(2) by (auto simp: filter_id_conv)
  have "distinct ?ns" "set ?ns = set (rev (map sst_name ss))" unfolding all using assms(1,2) by auto
  moreover have "sorted_wrt (<) (map sstSeq (rev (map sst_name ss)))"
    using assms(3) by (simp add: rev_map comp_def sorted_wrt_rev)
  ultimately have "sort_key sstSeq ?ns = rev (map sst_name ss)" by (rule sort_key_unique)
  then show ?thesis by (simp add: table_names_def)
qed

section \<open>Log records\<close>

type_synonym wr = "gostring \<times> bytes \<times> bool"

definition enc :: "wr \<Rightarrow> bytes" where
  "enc w = (case w of (k, v, t) \<Rightarrow> encodeWALRecord k v t)"

definition write_fits :: "wr \<Rightarrow> bool" where
  "write_fits w \<longleftrightarrow> (case w of (k, v, t) \<Rightarrow> 5 + length k + length v < 2 ^ 32)"

lemma decode_encode:
  "write_fits (k, v, t) \<Longrightarrow> decodeWALRecord (encodeWALRecord k v t) = Inr (k, v, t)"
proof -
  assume f: "write_fits (k, v, t)"
  have "unat (get_le (take 4 (drop 1 (encodeWALRecord k v t))) :: u32) = length k"
    using f by (simp add: encodeWALRecord_def PutUint32_def get_put_le unat_of_nat_u32 write_fits_def)
  moreover have "drop 5 (encodeWALRecord k v t) = k @ v" "drop (5 + length k) (encodeWALRecord k v t) = v"
    by (simp_all add: encodeWALRecord_def drop_Cons')
  moreover have "hd (encodeWALRecord k v t) AND 1 = 1 \<longleftrightarrow> t" "length (encodeWALRecord k v t) = 5 + length k + length v"
    by (simp_all add: encodeWALRecord_def)
  ultimately show ?thesis by (simp add: decodeWALRecord_def Let_def)
qed

lemma enc_fits: "write_fits w \<Longrightarrow> fits (enc w)"
  by (auto simp: write_fits_def fits_def enc_def encodeWALRecord_def split: prod.splits)

definition wr_size :: "wr \<Rightarrow> nat" where
  "wr_size w = (case w of (k, v, t) \<Rightarrow> 9 + length k + length v)"

lemma replay_puts:
  assumes "\<forall>w \<in> set ws. write_fits w" "mem_ok m"
  shows "\<exists>m'. run_records replay_put (Some m) (map enc ws) = Inr (Some m') \<and> mem_ok m' \<and>
    mem_map m' = mem_map m ++ map_of (rev ws) \<and> run_puts mem_put m ws = Some m' \<and>
    esize (mem_dump m') \<le> esize (mem_dump m) + sum_list (map wr_size ws)"
  using assms
proof (induction ws arbitrary: m)
  case Nil
  then show ?case by simp
next
  case (Cons w ws)
  obtain k v t where w: "w = (k, v, t)" by (cases w)
  obtain m1 where m1: "mem_put m k v t = Some m1" "mem_ok m1" "mem_map m1 = (mem_map m)(k \<mapsto> (v, t))"
    using mem_put_spec [OF Cons.prems(2)] by blast
  have p: "replay_put (Some m) (enc w) = Inr (Some m1)"
    using decode_encode [of k v t] Cons.prems(1) m1(1) w by (simp add: replay_put_def enc_def)
  obtain m' where m': "run_records replay_put (Some m1) (map enc ws) = Inr (Some m')" "mem_ok m'"
      "mem_map m' = mem_map m1 ++ map_of (rev ws)" "run_puts mem_put m1 ws = Some m'"
      "esize (mem_dump m') \<le> esize (mem_dump m1) + sum_list (map wr_size ws)"
    using Cons.IH [OF _ m1(2)] Cons.prems(1) by auto
  have "mem_map m1 ++ map_of (rev ws) = mem_map m ++ map_of (rev (w # ws))"
    unfolding m1(3) w by (rule ext) (simp add: map_add_def split: option.split)
  moreover have "esize (mem_dump m1) \<le> esize (mem_dump m) + wr_size w"
    using mem_dump_put(2) [OF Cons.prems(2) m1(1)] w by (simp add: wr_size_def)
  ultimately show ?case using p m' m1(1) w by simp
qed

section \<open>The directory of a run without I/O errors\<close>

text \<open>The directory holds exactly the tables of the engine, durably, under ascending numbers.\<close>

definition files_ok :: "Engine \<Rightarrow> bool" where
  "files_ok e \<longleftrightarrow> distinct (map fst (e_dir e)) \<and>
     map_of (e_dir e) = map_of (map (\<lambda>t. (t_path t, (t_data t, True))) (e_tables e)) \<and>
     (\<exists>ss. map t_path (e_tables e) = map sst_name ss \<and> sorted_wrt (>) ss \<and> (\<forall>s \<in> set ss. s < e_nextSST e))"

lemma all_ok_simps [simp]: "io_ok all_ok = []" "io_cut all_ok = []"
  by (simp_all add: all_ok_def)

lemma ok_next_all_ok [simp]: "ok_next all_ok = (True, all_ok)"
  by (simp add: ok_next_def all_ok_def)

lemma io_after_all_ok: "io_after all_ok io' \<Longrightarrow> io' = all_ok"
  by (auto simp: io_after_def all_ok_def)

lemma new_table_calm:
  assumes "e_io e = all_ok" "sst_fits es"
  shows "new_table e es = Some (e\<lparr>e_dir := AList.update (sst_name (e_nextSST e)) (sst_content es, True) (e_dir e),
      e_nextSST := e_nextSST e + 1\<rparr>, Inr (table_of (sst_name (e_nextSST e)) es))"
proof -
  let ?p = "sst_name (e_nextSST e)"
  have w: "writeSSTable all_ok old es = (File (sst_content es), all_ok, None)" for old
    by (rule writeSSTable_all_ok) simp_all
  obtain io' where "openSSTable all_ok ?p (File (sst_content es)) = Some (Inr (table_of ?p es), io')" "io_after all_ok io'"
    using openSSTable_spec [OF assms(2), of all_ok ?p] by auto
  then have "openSSTable all_ok ?p (File (sst_content es)) = Some (Inr (table_of ?p es), all_ok)"
    using io_after_all_ok by blast
  then show ?thesis by (simp add: new_table_def w Let_def assms(1) file_bytes_def)
qed

lemma remove_tables_calm:
  "remove_tables all_ok dir ts = (fold (\<lambda>t. AList.delete (t_path t)) ts dir, all_ok)"
  by (induction ts arbitrary: dir) simp_all

lemma fold_delete:
  "map_of (fold (\<lambda>t. AList.delete (t_path t)) ts dir) = (map_of dir) |` (- t_path ` set ts)"
  "distinct (map fst dir) \<Longrightarrow> distinct (map fst (fold (\<lambda>t. AList.delete (t_path t)) ts dir))"
proof (induction ts arbitrary: dir)
  case Nil
  {
    case 1
    then show ?case by (simp add: restrict_map_def)
  next
    case 2
    then show ?case by simp
  }
next
  case (Cons t ts)
  {
    case 1
    show ?case using Cons.IH(1) by (auto simp: delete_conv' restrict_map_def fun_eq_iff)
  next
    case 2
    then show ?case using Cons.IH(2) by (simp add: distinct_delete)
  }
qed

text \<open>Adding the table of the next number.\<close>

lemma files_ok_push:
  assumes "files_ok e" "unat (e_nextSST e) + 1 < 2 ^ 64" "t_path t = sst_name (e_nextSST e)"
    and "e_dir e' = AList.update (t_path t) (t_data t, True) (e_dir e)" "e_nextSST e' = e_nextSST e + 1"
    and "e_tables e' = t # e_tables e"
  shows "files_ok e'"
proof -
  obtain ss where ss: "map t_path (e_tables e) = map sst_name ss" "sorted_wrt (>) ss" "\<forall>s \<in> set ss. s < e_nextSST e"
    using assms(1) by (auto simp: files_ok_def)
  have less: "s < e_nextSST e + 1" if "s \<le> e_nextSST e" for s
  proof -
    have "unat (e_nextSST e + 1) = unat (e_nextSST e) + 1" using assms(2) by (simp add: unat_word_ariths)
    then show ?thesis using that by (simp add: word_less_nat_alt word_le_nat_alt)
  qed
  have "map t_path (e_tables e') = map sst_name (e_nextSST e # ss)" using ss(1) assms(3,6) by simp
  moreover have "sorted_wrt (>) (e_nextSST e # ss)" using ss(2,3) by simp
  moreover have "\<forall>s \<in> set (e_nextSST e # ss). s < e_nextSST e'" using ss(3) less assms(5) by (auto simp: less_imp_le)
  moreover have "distinct (map fst (e_dir e'))" using assms(1,4) by (simp add: files_ok_def distinct_update)
  moreover have "map_of (e_dir e') = map_of (map (\<lambda>t. (t_path t, (t_data t, True))) (e_tables e'))"
    using assms(1,4,6) by (simp add: files_ok_def update_conv')
  ultimately show ?thesis unfolding files_ok_def by blast
qed

text \<open>Replacing all tables by the newest one.\<close>

lemma files_ok_keep_first:
  assumes "files_ok e" "e_tables e = t # ts" "e_tables e' = [t]" "e_nextSST e' = e_nextSST e"
    and "e_dir e' = fold (\<lambda>t. AList.delete (t_path t)) ts (e_dir e)"
  shows "files_ok e'"
proof -
  obtain ss where ss: "map t_path (t # ts) = map sst_name ss" "sorted_wrt (>) ss" "\<forall>s \<in> set ss. s < e_nextSST e"
    using assms(1,2) unfolding files_ok_def by metis
  then obtain s ss' where s: "ss = s # ss'" "t_path t = sst_name s" "map t_path ts = map sst_name ss'" by auto
  have ps: "t_path ` set ts = sst_name ` set ss'" using s(3) by (metis list.set_map)
  have fresh: "t_path t \<notin> t_path ` set ts" using ss(2) s(1,2) ps by auto
  have "map_of (e_dir e') = (map_of (map (\<lambda>t. (t_path t, (t_data t, True))) (t # ts))) |` (- t_path ` set ts)"
    using fold_delete(1) [of ts "e_dir e"] assms(1,2,5) by (simp add: files_ok_def)
  also have "\<dots> = [t_path t \<mapsto> (t_data t, True)]"
    using fresh by (auto simp: restrict_map_def fun_eq_iff map_of_eq_None_iff)
  finally have "map_of (e_dir e') = map_of (map (\<lambda>t. (t_path t, (t_data t, True))) (e_tables e'))"
    using assms(3) by simp
  moreover have "distinct (map fst (e_dir e'))" using fold_delete(2) [of "e_dir e" ts] assms(1,5) by (simp add: files_ok_def)
  moreover have "map t_path (e_tables e') = map sst_name [s]" "sorted_wrt (>) [s]" "\<forall>s \<in> set [s]. s < e_nextSST e'"
    using assms(3,4) s ss(3) by simp_all
  ultimately show ?thesis unfolding files_ok_def by blast
qed

definition next_fits :: "Engine \<Rightarrow> nat \<Rightarrow> bool" where
  "next_fits e n \<longleftrightarrow> unat (e_nextSST e) + n < 2 ^ 64"

lemma next_inc: "next_fits e 1 \<Longrightarrow> unat (e_nextSST e + 1) = unat (e_nextSST e) + 1"
  by (simp add: next_fits_def unat_word_ariths)

lemma compact_calm:
  assumes "eng_ok e" "eng_small e" "files_ok e" "e_io e = all_ok" "next_fits e 1"
  shows "\<exists>e'. compactLocked e = Some (e', None) \<and> files_ok e' \<and> e_io e' = all_ok \<and> e_mem e' = e_mem e \<and>
    e_wal e' = e_wal e \<and> e_syncWAL e' = e_syncWAL e \<and> e_flushSize e' = e_flushSize e \<and>
    e_nextSST e' = e_nextSST e + 1"
proof -
  let ?ts = "e_tables e" and ?p = "sst_name (e_nextSST e)"
  have ok: "\<forall>t \<in> set ?ts. table_ok t" using assms(1) by (simp add: eng_ok_def)
  obtain r io1 where m: "merge_tables all_ok (rev ?ts) [] = (r, io1)" "io_after all_ok io1"
      "case r of Inl err \<Rightarrow> False \<in> set (io_ok all_ok)
       | Inr m \<Rightarrow> merged_ok m \<and> merged_map m = tables_map ?ts \<and>
           snd ` set m \<subseteq> set (concat (map table_entries ?ts))"
    using merge_all_tables [OF ok, of all_ok] by auto
  obtain mg where mg: "r = Inr mg" "merged_ok mg" "snd ` set mg \<subseteq> set (concat (map table_entries ?ts))"
    using m(3) by (cases r) auto
  have io1: "io1 = all_ok" using io_after_all_ok m(2) by blast
  have "esize (concat (map table_entries ?ts)) < 2 ^ 35"
    using assms(2) by (simp add: eng_small_def eng_size_def)
  then have fits: "sst_fits (compacted mg)" using eng_size_compacted(1) [OF mg(2,3) ok] by blast
  let ?t = "table_of ?p (compacted mg)"
  let ?e1 = "e\<lparr>e_dir := AList.update ?p (sst_content (compacted mg), True) (e_dir e), e_nextSST := e_nextSST e + 1\<rparr>"
  have "e\<lparr>e_io := all_ok\<rparr> = e" using assms(4) by simp
  then have n: "new_table (e\<lparr>e_io := all_ok\<rparr>) (compacted mg) = Some (?e1, Inr ?t)"
    using new_table_calm [OF assms(4) fits] by simp
  let ?e' = "?e1\<lparr>e_tables := [?t], e_dir := fold (\<lambda>t. AList.delete (t_path t)) ?ts (e_dir ?e1), e_io := all_ok\<rparr>"
  have c: "compactLocked e = Some (?e', None)"
    using m(1) mg(1) n assms(4) by (simp add: compactLocked_def io1 remove_tables_calm compacted_def)
  have "files_ok (?e1\<lparr>e_tables := ?t # ?ts\<rparr>)"
    by (rule files_ok_push [OF assms(3)]) (use assms(5) in \<open>simp_all add: next_fits_def table_of_def\<close>)
  then have "files_ok ?e'" by (rule files_ok_keep_first) simp_all
  then show ?thesis using c by simp
qed

text \<open>The log holds the writes \<open>ds\<close> durably and the writes \<open>ps\<close> unsynced.\<close>

definition wal_holds :: "Engine \<Rightarrow> wr list \<Rightarrow> wr list \<Rightarrow> bool" where
  "wal_holds e ds ps \<longleftrightarrow> (\<exists>w. e_wal e = Some w \<and> \<not> w_err w \<and> \<not> w_closed w \<and> holds w (map enc ds) (map enc ps)) \<and>
     (\<forall>x \<in> set (ds @ ps). write_fits x)"

lemma wal_calm:
  assumes "wal_holds e ds ps" "e_io e = all_ok"
  shows "write_fits x \<Longrightarrow> \<exists>e'. wal_do e (\<lambda>w. Append w (enc x)) = Some (e', None) \<and> wal_frame e e' \<and>
      e_io e' = all_ok \<and> wal_holds e' ds (ps @ [x])"
    "\<exists>e'. wal_do e Sync = Some (e', None) \<and> wal_frame e e' \<and> e_io e' = all_ok \<and> wal_holds e' (ds @ ps) []"
    "\<exists>e'. wal_do e Close = Some (e', None) \<and> wal_frame e e' \<and> e_io e' = all_ok"
proof -
  obtain w where w: "e_wal e = Some w" "\<not> w_err w" "\<not> w_closed w" "holds w (map enc ds) (map enc ps)"
    using assms(1) by (auto simp: wal_holds_def)
  have io: "all_ok\<lparr>io_ok := []\<rparr> = all_ok" by (simp add: all_ok_def)
  show "\<exists>e'. wal_do e (\<lambda>w. Append w (enc x)) = Some (e', None) \<and> wal_frame e e' \<and>
      e_io e' = all_ok \<and> wal_holds e' ds (ps @ [x])" if "write_fits x"
    using w that assms enc_fits [OF that]
    by (simp add: wal_do_def Append_def buf_Write_def io wal_frame_def wal_holds_def holds_def frame_def)
  show "\<exists>e'. wal_do e Sync = Some (e', None) \<and> wal_frame e e' \<and> e_io e' = all_ok \<and> wal_holds e' (ds @ ps) []"
    using w assms
    by (auto simp: wal_do_def Sync_def buf_Flush_def file_Sync_def io wal_frame_def wal_holds_def holds_def)
  show "\<exists>e'. wal_do e Close = Some (e', None) \<and> wal_frame e e' \<and> e_io e' = all_ok"
    using w assms(2)
    by (simp add: wal_do_def Close_def Sync_def buf_Flush_def file_Sync_def file_Close_def io wal_frame_def)
qed

lemma reopen_calm:
  assumes "e_io e = all_ok"
  shows "\<exists>e'. reopen_wal e = Some (e', None) \<and> wal_frame e e' \<and> e_io e' = all_ok \<and> wal_holds e' [] []"
proof -
  have io: "all_ok\<lparr>io_ok := []\<rparr> = all_ok" by (simp add: all_ok_def)
  show ?thesis
    using assms io by (simp add: reopen_wal_def OpenWAL_def numeral_2_eq_2 wal_holds_def holds_def wal_frame_def)
qed

text \<open>An engine in a run without I/O errors: the base, the directory and the log.\<close>

definition calm :: "Engine \<Rightarrow> wr list \<Rightarrow> wr list \<Rightarrow> bool" where
  "calm e ds ps \<longleftrightarrow> eng_ok e \<and> files_ok e \<and> e_io e = all_ok \<and> wal_holds e ds ps \<and>
     mem_map (e_mem e) = map_of (rev (ds @ ps))"

lemma flush_calm:
  assumes "calm e ds ps" "eng_small e" "next_fits e 2"
  shows "\<exists>e'. flushLocked e = Some (e', None) \<and> e_map e' = e_map e \<and> eng_size e' \<le> eng_size e \<and>
    e_syncWAL e' = e_syncWAL e \<and> unat (e_nextSST e') \<le> unat (e_nextSST e) + 2 \<and>
    (if mem_dump (e_mem e) = [] then e' = e else calm e' [] [])"
proof -
  let ?es = "mem_dump (e_mem e)" and ?p = "sst_name (e_nextSST e)"
  have ok: "eng_ok e" "files_ok e" "e_io e = all_ok" "wal_holds e ds ps" using assms(1) by (auto simp: calm_def)
  have wal: "e_wal e \<noteq> None" using ok(4) by (auto simp: wal_holds_def)
  have cl: "clean e" using ok(3,4) by (auto simp: clean_def wal_holds_def)
  have m: "mem_ok (e_mem e)" "\<forall>en \<in> set ?es. kv_fits en" using ok(1) by (auto simp: eng_ok_def)
  note d = mem_dump_spec [OF m(1)]
  obtain e' err where f: "flushLocked e = Some (e', err)" "eng_ok e'" "e_map e' = e_map e"
      "err = None \<longrightarrow> eng_size e' \<le> eng_size e \<and> e_wal e' \<noteq> None" "clean e \<longrightarrow> err = None \<and> clean e'"
    using flushLocked_spec [OF ok(1) assms(2) wal] by blast
  show ?thesis
  proof (cases "?es = []")
    case True
    then have "flushLocked e = Some (e, None)" using d(1) by (simp add: flushLocked_def)
    then show ?thesis using True by simp
  next
    case False
    have fits: "sst_fits ?es" using sst_fits_small m(2) assms(2) by (simp add: eng_small_def eng_size_def)
    let ?t = "table_of ?p ?es"
    let ?e0 = "e\<lparr>e_dir := AList.update ?p (sst_content ?es, True) (e_dir e), e_nextSST := e_nextSST e + 1\<rparr>"
    let ?e1 = "?e0\<lparr>e_tables := ?t # e_tables e\<rparr>"
    note n = new_table_calm [OF ok(3) fits]
    have "wal_holds ?e1 ds ps" using ok(4) by (simp add: wal_holds_def)
    then obtain e2 where e2: "wal_do ?e1 Close = Some (e2, None)" "wal_frame ?e1 e2" "e_io e2 = all_ok"
      using wal_calm(3) [of ?e1] ok(3) by auto
    obtain e3 where e3: "reopen_wal e2 = Some (e3, None)" "wal_frame e2 e3" "e_io e3 = all_ok" "wal_holds e3 [] []"
      using reopen_calm [OF e2(3)] by blast
    let ?e4 = "e3\<lparr>e_mem := newMemtable (m_rand (e_mem e3))\<rparr>"
    have same: "e_tables e3 = ?t # e_tables e" "e_dir e3 = e_dir ?e0" "e_nextSST e3 = e_nextSST e + 1"
        "e_syncWAL e3 = e_syncWAL e"
      using e2(2) e3(2) by (simp_all add: wal_frame_def)
    have nx: "unat (e_nextSST e + 1) = unat (e_nextSST e) + 1"
      by (rule next_inc) (use assms(3) in \<open>simp add: next_fits_def\<close>)
    have files4: "files_ok ?e4"
      by (rule files_ok_push [OF ok(2)]) (use assms(3) same in \<open>simp_all add: next_fits_def table_of_def\<close>)
    have ok4: "eng_ok ?e4"
      using ok(1) table_ok_table_of [OF d(2) fits] same(1) e3(3) by (simp add: eng_ok_def mem_ok_new)
    have small4: "eng_small ?e4" using assms(2) same(1) fits by (simp add: eng_small_def eng_size_def)
    have calm4: "calm ?e4 [] []"
      using files4 ok4 e3(3,4) by (simp add: calm_def wal_holds_def)
    have "next_fits ?e4 1" using assms(3) same(3) nx by (simp add: next_fits_def)
    then obtain e5 where e5: "compactLocked ?e4 = Some (e5, None)" "files_ok e5" "e_io e5 = all_ok"
        "e_mem e5 = e_mem ?e4" "e_wal e5 = e_wal ?e4" "e_syncWAL e5 = e_syncWAL ?e4" "e_nextSST e5 = e_nextSST ?e4 + 1"
      using compact_calm [OF ok4 small4 files4] e3(3) by auto
    have calm5: "calm e5 [] []" if "eng_ok e5"
      using that e5 calm4 by (simp add: calm_def wal_holds_def)
    have n5: "unat (e_nextSST e5) \<le> unat (e_nextSST e) + 2"
      using e5(7) same(3) nx next_inc [OF \<open>next_fits ?e4 1\<close>] by simp
    have "flushLocked e = (if length (e_tables ?e4) > maxTablesBeforeCompact then compactLocked ?e4 else Some (?e4, None))"
      using False d(1) n e2(1) e3(1) by (simp add: flushLocked_def Let_def)
    then have "e' = e5 \<or> e' = ?e4" using f(1) e5(1) by (auto split: if_splits)
    then have "calm e' [] [] \<and> e_syncWAL e' = e_syncWAL e \<and> unat (e_nextSST e') \<le> unat (e_nextSST e) + 2"
      using calm4 calm5 f(2) e5(6) same(3,4) n5 nx by auto
    then show ?thesis using f cl False by auto
  qed
qed

section \<open>Recovery\<close>

text \<open>What a crash leaves: the durable part of the log and any prefix of the rest, and of every table
  file that is not known to be durable any prefix.\<close>

definition crash_disk :: "Engine \<Rightarrow> nat \<Rightarrow> (gostring \<Rightarrow> nat) \<Rightarrow> engine_disk" where
  "crash_disk e n cuts =
     \<lparr>ed_wal = (case e_wal e of None \<Rightarrow> NoFile | Some w \<Rightarrow> File (crash w n)),
      ed_files = map (\<lambda>(name, bs, synced). (name, File (if synced then bs else take (cuts name) bs))) (e_dir e)\<rparr>"

lemma open_tables_calm:
  assumes "\<forall>t \<in> set ts. table_ok t \<and> map_of files (t_path t) = Some (File (t_data t))"
  shows "\<exists>next'. open_tables all_ok files (map t_path ts) next = Some (Inr (ts, next'), all_ok)"
  using assms
proof (induction ts arbitrary: "next")
  case (Cons t ts)
  let ?es = "table_entries t"
  obtain path where t: "t = table_of path ?es" "sst_fits ?es" using Cons.prems table_okE by (metis list.set_intros(1))
  have path: "t_path t = path" "t_data t = sst_content ?es" by (subst t(1), simp add: table_of_def)+
  obtain io' where "openSSTable all_ok path (File (sst_content ?es)) = Some (Inr t, io')" "io_after all_ok io'"
    using openSSTable_spec [OF t(2), of all_ok path] t(1) by auto
  then have "openSSTable all_ok (t_path t) (case map_of files (t_path t) of None \<Rightarrow> NoFile | Some f \<Rightarrow> f) =
      Some (Inr t, all_ok)"
    using Cons.prems path io_after_all_ok by auto
  moreover obtain nx where "open_tables all_ok files (map t_path ts)
      (if next \<le> sstSeq (t_path t) then sstSeq (t_path t) + 1 else next) = Some (Inr (ts, nx), all_ok)"
    using Cons.IH Cons.prems by fastforce
  ultimately show ?case by simp
qed simp

lemma map_of_files:
  "map_of (map (\<lambda>(name, bs, synced). (name, File (if synced then bs else take (cuts name) bs))) dir) name =
     map_option (\<lambda>(bs, synced). File (if synced then bs else take (cuts name) bs)) (map_of dir name)"
proof (induction dir)
  case (Cons f dir)
  then show ?case by (cases f) simp
qed simp

lemma recover_calm:
  assumes "calm e ds ps"
  shows "\<exists>e' k. OpenEngine all_ok rand (crash_disk e n cuts) opts = Some (Inr e') \<and> e_tables e' = e_tables e \<and>
    mem_map (e_mem e') = map_of (rev (ds @ take k ps)) \<and> eng_ok e' \<and> e_io e' = all_ok \<and>
    clean e' \<and> eng_size e' \<le> eng_size e + sum_list (map wr_size (ds @ ps))"
proof -
  let ?files = "ed_files (crash_disk e n cuts)"
  have ok: "eng_ok e" "files_ok e" "wal_holds e ds ps" using assms by (auto simp: calm_def)
  obtain ss where ss: "map t_path (e_tables e) = map sst_name ss" "sorted_wrt (>) ss"
    and dir: "distinct (map fst (e_dir e))"
      "map_of (e_dir e) = map_of (map (\<lambda>t. (t_path t, (t_data t, True))) (e_tables e))"
    using ok(2) by (auto simp: files_ok_def)
  have fsts: "map fst ?files = map fst (e_dir e)" by (simp add: crash_disk_def comp_def case_prod_beta)
  have "fst ` set (e_dir e) = t_path ` set (e_tables e)"
    using dir(2) dom_map_of_conv_image_fst [of "e_dir e"] 
      dom_map_of_conv_image_fst [of "map (\<lambda>t. (t_path t, (t_data t, True))) (e_tables e)"]
    by (simp add: image_image)
  also have "\<dots> = sst_name ` set ss" using ss(1) by (metis list.set_map)
  finally have fs: "fst ` set ?files = sst_name ` set ss" using arg_cong [OF fsts, of set] by simp
  have names: "table_names True ?files = map t_path (e_tables e)"
    unfolding ss(1) by (rule table_names_sorted [OF _ fs ss(2)]) (simp add: fsts dir(1))
  have "sorted_wrt (<) (rev ss)" using ss(2) by (simp add: sorted_wrt_rev)
  then have "distinct ss" by (simp add: strict_sorted_iff)
  then have dist: "distinct (map t_path (e_tables e))" unfolding ss(1) by (simp add: distinct_map inj_on_def)
  have "map_of ?files (t_path t) = Some (File (t_data t))" if "t \<in> set (e_tables e)" for t
  proof -
    have "map_of (e_dir e) (t_path t) = Some (t_data t, True)"
      unfolding dir(2) using that dist by (intro map_of_is_SomeI) (auto simp: comp_def)
    then show ?thesis by (simp add: crash_disk_def map_of_files)
  qed
  then obtain nx where o: "open_tables all_ok ?files (map t_path (e_tables e)) 0 = Some (Inr (e_tables e, nx), all_ok)"
    using open_tables_calm [of "e_tables e" ?files 0] ok(1) by (auto simp: eng_ok_def)
  obtain w where w: "e_wal e = Some w" "holds w (map enc ds) (map enc ps)" and wf: "\<forall>x \<in> set (ds @ ps). write_fits x"
    using ok(3) by (auto simp: wal_holds_def)
  obtain k where k: "records (crash w n) = map enc ds @ take k (map enc ps)"
    using records_crash [OF w(2)] by blast
  then have k': "records (crash w n) = map enc (ds @ take k ps)" by (simp add: take_map)
  have "\<forall>x \<in> set (ds @ take k ps). write_fits x" using wf by (auto dest: in_set_takeD)
  then obtain m where m: "run_records replay_put (Some (newMemtable rand)) (map enc (ds @ take k ps)) = Inr (Some m)"
      "mem_map m = map_of (rev (ds @ take k ps))" "mem_ok m"
      "esize (mem_dump m) \<le> sum_list (map wr_size (ds @ take k ps))"
    using replay_puts [OF _ mem_ok_new, of "ds @ take k ps" rand] by auto
  have "sum_list (map wr_size (take k ps)) + sum_list (map wr_size (drop k ps)) = sum_list (map wr_size ps)"
    by (simp only: sum_list_append [symmetric] map_append [symmetric] append_take_drop_id)
  then have sz: "esize (mem_dump m) \<le> sum_list (map wr_size (ds @ ps))" using m(4) by simp
  have mf: "kv_fits en" if en: "en \<in> set (mem_dump m)" for en
  proof -
    have "map_of (rev (ds @ take k ps)) (kv_key en) = Some (proj en)"
      using en sorted_entry_map [OF mem_dump_spec(2) [OF m(3)]] mem_dump_spec(3) [OF m(3)] m(2) by simp
    then have "(kv_key en, proj en) \<in> set (rev (ds @ take k ps))" by (rule map_of_SomeD)
    then have "(kv_key en, proj en) \<in> set (ds @ ps)" by (auto dest: in_set_takeD)
    then have "write_fits (kv_key en, proj en)" using wf by blast
    then show ?thesis by (simp add: proj_def write_fits_def kv_fits_def)
  qed
  have r: "ReplayWAL replay_put (Some (newMemtable rand)) (ed_wal (crash_disk e n cuts)) = Inr (Some m)"
    using m(1) k' w(1) by (simp add: ReplayWAL_def crash_disk_def replay_records)
  obtain w' where w': "OpenWAL [] (ed_wal (crash_disk e n cuts)) = Inr w'" and h: "healthy w'"
    using OpenWAL_clean [of "[]" "ed_wal (crash_disk e n cuts)"] w(1) by (auto simp: crash_disk_def)
  then have "w_io w' = []" by (auto simp: OpenWAL_def numeral_2_eq_2 Let_def split: if_splits)
  then have io: "all_ok\<lparr>io_ok := w_io w'\<rparr> = all_ok" by (simp add: all_ok_def)
  from w' have "OpenEngine all_ok rand (crash_disk e n cuts) opts = Some (Inr
      \<lparr>e_wal = Some w', e_mem = m, e_tables = e_tables e, e_nextSST = nx,
       e_flushSize = (if FlushSize opts = 0 then 4 * 2 ^ 20 else FlushSize opts), e_syncWAL = SyncWAL opts,
       e_dir = map (\<lambda>(n, f). (n, file_bytes f, True)) ?files, e_io = all_ok\<lparr>io_ok := w_io w'\<rparr>\<rparr>)"
    by (simp add: OpenEngine_def names o r)
  then show ?thesis using m(2,3) mf ok(1) h sz unfolding io by (auto simp: eng_ok_def clean_def healthy_def eng_size_def)
qed

section \<open>Histories\<close>

definition apply_writes :: "(gostring \<rightharpoonup> bytes) \<Rightarrow> wr list \<Rightarrow> gostring \<rightharpoonup> bytes" where
  "apply_writes m ws = foldl (\<lambda>m (k, v, t). upd m k v t) m ws"

lemma apply_writes_simps [simp]:
  "apply_writes m [] = m" "apply_writes m (ws @ [(k, v, t)]) = upd (apply_writes m ws) k v t"
  by (simp_all add: apply_writes_def)

lemma apply_writes_append: "apply_writes m (ws @ vs) = apply_writes (apply_writes m ws) vs"
  by (simp add: apply_writes_def)

lemma live_writes: "live (a ++ map_of (rev ws)) = apply_writes (live a) ws"
proof (induction ws rule: rev_induct)
  case (snoc w ws)
  obtain k v t where w: "w = (k, v, t)" by (cases w)
  have eq: "map_of (rev (ws @ [w])) = (map_of (rev ws))(k \<mapsto> (v, t))" by (simp add: w)
  show ?case unfolding eq live_upd snoc by (simp add: w)
qed simp

fun op_writes :: "eng_op \<Rightarrow> wr list" where
  "op_writes (OpPut k v) = [(k, v, False)]"
| "op_writes (OpDelete k) = [(k, [], True)]"
| "op_writes _ = []"

definition writes :: "eng_op list \<Rightarrow> wr list" where
  "writes ops = concat (map op_writes ops)"

text \<open>The map after a sequence of calls.\<close>

definition map_after :: "eng_op list \<Rightarrow> gostring \<rightharpoonup> bytes" where
  "map_after ops = apply_writes Map.empty (writes ops)"

lemma writes_simps [simp]: "writes [] = []" "writes (ops @ ops') = writes ops @ writes ops'"
  "writes [op] = op_writes op"
  by (simp_all add: writes_def)

lemma writes_prefix: "\<exists>ops' ops''. ops = ops' @ ops'' \<and> writes ops' = take k (writes ops)"
proof (induction ops arbitrary: k)
  case Nil
  then show ?case by simp
next
  case (Cons op ops)
  show ?case
  proof (cases "length (op_writes op) \<le> k")
    case True
    obtain ops' ops'' where "ops = ops' @ ops''" "writes ops' = take (k - length (op_writes op)) (writes ops)"
      using Cons.IH by blast
    then show ?thesis
      using True by (intro exI [of _ "op # ops'"] exI [of _ ops'']) (simp add: writes_def)
  next
    case False
    then have "k = 0" by (cases op) auto
    then show ?thesis by (intro exI [of _ "[]"] exI [of _ "op # ops"]) simp
  qed
qed

text \<open>
  The state after the calls \<open>ops\<close>: the tables hold the outcome of a first part of them, and the log
  and the memtable the writes of the rest.
\<close>

definition hist :: "eng_op list \<Rightarrow> Engine \<Rightarrow> bool" where
  "hist ops e \<longleftrightarrow> (\<exists>ops1 ops2 ds ps. ops = ops1 @ ops2 \<and> calm e ds ps \<and>
     live (tables_map (e_tables e)) = map_after ops1 \<and> ds @ ps = writes ops2 \<and> (e_syncWAL e \<longrightarrow> ps = []))"

lemma hist_map: "hist ops e \<Longrightarrow> e_map e = map_after ops"
proof -
  assume "hist ops e"
  then obtain ops1 ops2 ds ps where h: "ops = ops1 @ ops2" "live (tables_map (e_tables e)) = map_after ops1"
      "ds @ ps = writes ops2" "mem_map (e_mem e) = map_of (rev (ds @ ps))"
    unfolding hist_def calm_def by blast
  have "e_map e = apply_writes (map_after ops1) (ds @ ps)"
    unfolding e_map_def h(4) live_writes h(2) ..
  then show ?thesis using h(1,3) by (simp add: map_after_def apply_writes_append)
qed

lemma hist_flushed:
  assumes "calm e [] []" "e_map e = map_after ops"
  shows "hist ops e"
proof -
  have "live (tables_map (e_tables e)) = map_after ops"
    using assms by (simp add: calm_def e_map_def)
  then show ?thesis unfolding hist_def using assms(1)
    by (intro exI [of _ ops] exI [of _ "[]"]) simp
qed

lemma hist_flush:
  assumes "hist ops e" "eng_small e" "next_fits e 2"
  shows "\<exists>e'. flushLocked e = Some (e', None) \<and> hist ops e' \<and> eng_size e' \<le> eng_size e \<and>
    e_syncWAL e' = e_syncWAL e \<and> unat (e_nextSST e') \<le> unat (e_nextSST e) + 2"
proof -
  obtain ds ps where c: "calm e ds ps" using assms(1) by (auto simp: hist_def)
  obtain e' where e': "flushLocked e = Some (e', None)" "e_map e' = e_map e" "eng_size e' \<le> eng_size e"
      "e_syncWAL e' = e_syncWAL e" "unat (e_nextSST e') \<le> unat (e_nextSST e) + 2"
      "if mem_dump (e_mem e) = [] then e' = e else calm e' [] []"
    using flush_calm [OF c assms(2,3)] by blast
  have "hist ops e'"
    using e'(2,6) hist_map [OF assms(1)] hist_flushed [of e' ops] assms(1) by (auto split: if_splits)
  then show ?thesis using e' by blast
qed

text \<open>A write.\<close>

lemma hist_write:
  assumes "hist ops e" "op_writes op = [(k, v, t)]" "write_fits (k, v, t)"
    and small: "eng_size e + (9 + length k + length v) < 2 ^ 35" and nx: "next_fits e 2"
  shows "\<exists>e'. eng_write e k v t = Some (e', None) \<and> hist (ops @ [op]) e' \<and>
    eng_size e' \<le> eng_size e + (9 + length k + length v) \<and>
    e_syncWAL e' = e_syncWAL e \<and> unat (e_nextSST e') \<le> unat (e_nextSST e) + 2"
proof -
  obtain ops1 ops2 ds ps where h: "ops = ops1 @ ops2" "calm e ds ps" "live (tables_map (e_tables e)) = map_after ops1"
      "ds @ ps = writes ops2" "e_syncWAL e \<longrightarrow> ps = []"
    using assms(1) by (auto simp: hist_def)
  have c: "eng_ok e" "files_ok e" "e_io e = all_ok" "wal_holds e ds ps" "mem_map (e_mem e) = map_of (rev (ds @ ps))"
    using h(2) by (auto simp: calm_def)
  have enc: "encodeWALRecord k v t = enc (k, v, t)" by (simp add: enc_def)
  obtain e1 where e1: "wal_do e (\<lambda>w. Append w (encodeWALRecord k v t)) = Some (e1, None)" "wal_frame e e1"
      "e_io e1 = all_ok" "wal_holds e1 ds (ps @ [(k, v, t)])"
    using wal_calm(1) [OF c(4,3) assms(3)] unfolding enc by blast
  define ds' where "ds' = (if e_syncWAL e then ds @ ps @ [(k, v, t)] else ds)"
  define ps' where "ps' = (if e_syncWAL e then [] else ps @ [(k, v, t)])"
  have dps: "ds' @ ps' = ds @ ps @ [(k, v, t)]" by (simp add: ds'_def ps'_def)
  obtain e2 where e2: "(if e_syncWAL e1 then wal_do e1 Sync else Some (e1, None)) = Some (e2, None)"
      "wal_frame e1 e2" "e_io e2 = all_ok" "wal_holds e2 ds' ps'"
  proof (cases "e_syncWAL e")
    case True
    then have "e_syncWAL e1" using e1(2) by (simp add: wal_frame_def)
    then show ?thesis using wal_calm(2) [OF e1(4,3)] that True by (auto simp: ds'_def ps'_def)
  next
    case False
    then have "\<not> e_syncWAL e1" using e1(2) by (simp add: wal_frame_def)
    then show ?thesis using that [of e1] e1 False by (simp add: ds'_def ps'_def wal_frame_def)
  qed
  have fr: "e_mem e2 = e_mem e" "e_tables e2 = e_tables e" "e_dir e2 = e_dir e" "e_nextSST e2 = e_nextSST e"
      "e_syncWAL e2 = e_syncWAL e" "eng_size e2 = eng_size e"
    using e1(2) e2(2) wal_frame_keeps(3) [OF e1(2)] wal_frame_keeps(3) [OF e2(2)] by (simp_all add: wal_frame_def)
  have mok: "mem_ok (e_mem e2)" using c(1) fr by (simp add: eng_ok_def)
  obtain m where m: "mem_put (e_mem e2) k v t = Some m" using mem_put_spec [OF mok] by blast
  note d = mem_dump_put [OF mok m]
  let ?e3 = "e2\<lparr>e_mem := m\<rparr>"
  have "kv_fits \<lparr>kv_key = k, kv_value = v, kv_tombstone = t\<rparr>"
    using assms(3) by (simp add: kv_fits_def write_fits_def)
  then have ok3: "eng_ok ?e3" using c(1) fr d(1,3) e2(3) by (auto simp: eng_ok_def)
  have files3: "files_ok ?e3" using c(2) fr by (simp add: files_ok_def)
  have mm: "mem_map m = map_of (rev (ds' @ ps'))" unfolding dps using d(4) c(5) fr(1) by simp
  have "calm ?e3 ds' ps'"
    unfolding calm_def using ok3 files3 e2(3,4) mm by (simp add: wal_holds_def)
  then have hist3: "hist (ops @ [op]) ?e3"
    unfolding hist_def using h fr dps assms(2) ps'_def
    by (intro exI [of _ ops1] exI [of _ "ops2 @ [op]"] exI [of _ ds'] exI [of _ ps']) simp
  have sz3: "eng_size ?e3 \<le> eng_size e + (9 + length k + length v)"
    using fr(6) d(2) by (simp add: eng_size_def)
  have "eng_small ?e3" "next_fits ?e3 2" using sz3 small nx fr(4) by (simp_all add: eng_small_def next_fits_def)
  then obtain e4 where e4: "flushLocked ?e3 = Some (e4, None)" "hist (ops @ [op]) e4" "eng_size e4 \<le> eng_size ?e3"
      "e_syncWAL e4 = e_syncWAL e" "unat (e_nextSST e4) \<le> unat (e_nextSST e) + 2"
    using hist_flush [OF hist3] fr(4,5) by auto
  have "eng_write e k v t = (if approxSize m \<ge> e_flushSize e2 then flushLocked ?e3 else Some (?e3, None))"
    using e1(1) e2(1) m by (simp add: eng_write_def Let_def)
  then show ?thesis using e4 hist3 sz3 fr(4,5) by (cases "approxSize m \<ge> e_flushSize e2") auto
qed

lemma hist_exec:
  assumes "hist ops e" "\<forall>w \<in> set (op_writes op). write_fits w" "eng_size e + op_size op < 2 ^ 35" "next_fits e 2"
  shows "\<exists>e' r. eng_exec e op = Some (e', Inr r) \<and> hist (ops @ [op]) e' \<and> eng_size e' \<le> eng_size e + op_size op \<and>
    e_syncWAL e' = e_syncWAL e \<and> unat (e_nextSST e') \<le> unat (e_nextSST e) + 2"
proof -
  have c: "eng_ok e" "e_io e = all_ok" using assms(1) by (auto simp: hist_def calm_def)
  have ext: "hist (ops @ [op]) e'" if e': "hist ops e'" "op_writes op = []" for e'
  proof -
    obtain ops1 ops2 ds ps where "ops = ops1 @ ops2" "calm e' ds ps" "live (tables_map (e_tables e')) = map_after ops1"
      "ds @ ps = writes ops2" "e_syncWAL e' \<longrightarrow> ps = []" using e'(1) unfolding hist_def by blast
    then show ?thesis unfolding hist_def using e'(2)
      by (intro exI [of _ ops1] exI [of _ "ops2 @ [op]"] exI [of _ ds] exI [of _ ps]) simp
  qed
  show ?thesis
  proof (cases op)
    case (OpPut k v)
    then show ?thesis using hist_write [OF assms(1), of op k v False] assms(2,3,4) by (auto simp: Put_def)
  next
    case (OpDelete k)
    then show ?thesis using hist_write [OF assms(1), of op k "[]" True] assms(2,3,4) by (auto simp: Delete_def)
  next
    case (OpGet k)
    obtain r io' where g: "Get e k = Some (e\<lparr>e_io := io'\<rparr>, r)" "io_after all_ok io'" "r = Inr (e_map e k)"
      using Get_spec [OF c(1), of k] c(2) by auto
    then have "Get e k = Some (e, r)" using io_after_all_ok [OF g(2)] c(2) by simp
    then show ?thesis using OpGet g(3) ext [OF assms(1)] by simp
  next
    case OpFlush
    have "eng_small e" using assms(3) by (simp add: eng_small_def)
    from hist_flush [OF assms(1) this assms(4)] show ?thesis using OpFlush ext by (auto simp: Flush_def)
  qed
qed

text \<open>The engine after a sequence of calls that all succeed.\<close>

fun eng_after :: "Engine \<Rightarrow> eng_op list \<Rightarrow> Engine option" where
  "eng_after e [] = Some e"
| "eng_after e (op # ops) =
     (case eng_exec e op of Some (e', Inr _) \<Rightarrow> eng_after e' ops | _ \<Rightarrow> None)"

lemma hist_run:
  assumes "hist ops0 e" "\<forall>w \<in> set (writes ops). write_fits w" "eng_size e + sum_list (map op_size ops) < 2 ^ 35"
    "next_fits e (2 * length ops)"
  shows "\<exists>e'. eng_after e ops = Some e' \<and> hist (ops0 @ ops) e' \<and> e_syncWAL e' = e_syncWAL e"
  using assms
proof (induction ops arbitrary: e ops0)
  case (Cons op ops)
  have "\<forall>w \<in> set (op_writes op). write_fits w" "next_fits e 2"
    using Cons.prems(2,4) by (auto simp: writes_def next_fits_def)
  then obtain e' r where e': "eng_exec e op = Some (e', Inr r)" "hist (ops0 @ [op]) e'"
      "eng_size e' \<le> eng_size e + op_size op" "e_syncWAL e' = e_syncWAL e" "unat (e_nextSST e') \<le> unat (e_nextSST e) + 2"
    using hist_exec [OF Cons.prems(1), of op] Cons.prems(3) by auto
  have "\<forall>w \<in> set (writes ops). write_fits w" using Cons.prems(2) by (simp add: writes_def)
  moreover have "eng_size e' + sum_list (map op_size ops) < 2 ^ 35" using e'(3) Cons.prems(3) by simp
  moreover have "next_fits e' (2 * length ops)" using e'(5) Cons.prems(4) by (simp add: next_fits_def)
  ultimately show ?case using Cons.IH [OF e'(2)] e'(1,4) by simp
qed simp

lemma hist_empty:
  assumes "OpenEngine all_ok rand empty_disk opts = Some (Inr e)"
  shows "hist [] e" "e_syncWAL e = SyncWAL opts" "e_nextSST e = 0"
proof -
  note o = OpenEngine_empty [OF assms]
  have io: "all_ok\<lparr>io_ok := []\<rparr> = all_ok" by (simp add: all_ok_def)
  let ?w = "\<lparr>w_disk = [], w_file = [], w_buf = [], w_off = 0, w_err = False, w_closed = False, w_io = []\<rparr>"
  have e: "e_tables e = []" "e_dir e = []" "e_io e = all_ok" "mem_map (e_mem e) = Map.empty" "e_wal e = Some ?w"
      "e_syncWAL e = SyncWAL opts" "e_nextSST e = 0"
    using assms by (auto simp: OpenEngine_def empty_disk_def table_names_def ReplayWAL_def OpenWAL_def numeral_2_eq_2
        io Let_def)
  have wh: "wal_holds e [] []"
    unfolding wal_holds_def by (rule conjI, rule exI [of _ ?w]) (simp_all add: e holds_def)
  have "calm e [] []" unfolding calm_def files_ok_def using o e wh by simp
  then show "hist [] e" by (rule hist_flushed) (use o(3) in \<open>simp add: map_after_def\<close>)
  show "e_syncWAL e = SyncWAL opts" "e_nextSST e = 0" using e by simp_all
qed

lemma writes_size: "sum_list (map wr_size (writes ops)) \<le> sum_list (map op_size ops)"
proof (induction ops)
  case (Cons op ops)
  have "sum_list (map wr_size (op_writes op)) \<le> op_size op" by (cases op) (simp_all add: wr_size_def)
  then show ?case using Cons by (simp add: writes_def)
qed simp

text \<open>What a crash leaves of a history is a prefix of it, the whole history if every write is synced.\<close>

lemma hist_recover:
  assumes "hist ops e"
  shows "\<exists>e' ops' ops''. OpenEngine all_ok rand (crash_disk e n cuts) opts = Some (Inr e') \<and>
    ops = ops' @ ops'' \<and> e_map e' = map_after ops' \<and> eng_ok e' \<and> e_io e' = all_ok \<and> (e_syncWAL e \<longrightarrow> ops'' = []) \<and>
    clean e' \<and> eng_size e' \<le> eng_size e + sum_list (map op_size ops)"
proof -
  obtain ops1 ops2 ds ps where h: "ops = ops1 @ ops2" "calm e ds ps" "live (tables_map (e_tables e)) = map_after ops1"
      "ds @ ps = writes ops2" "e_syncWAL e \<longrightarrow> ps = []"
    using assms unfolding hist_def by blast
  obtain e' k where r: "OpenEngine all_ok rand (crash_disk e n cuts) opts = Some (Inr e')"
      "e_tables e' = e_tables e" "mem_map (e_mem e') = map_of (rev (ds @ take k ps))" "eng_ok e'" "e_io e' = all_ok"
      "clean e'" "eng_size e' \<le> eng_size e + sum_list (map wr_size (ds @ ps))"
    using recover_calm [OF h(2)] by blast
  have m: "e_map e' = apply_writes (map_after ops1) (ds @ take k ps)"
    unfolding e_map_def r(2,3) live_writes h(3) ..
  have sz: "eng_size e' \<le> eng_size e + sum_list (map op_size ops)"
    using r(7) writes_size [of ops2] h(1) unfolding h(4) by simp
  obtain ops' ops'' where p: "ops = ops' @ ops''" "e_map e' = map_after ops'" "e_syncWAL e \<longrightarrow> ops'' = []"
  proof (cases "e_syncWAL e")
    case True
    then have "e_map e' = map_after ops" using m h(1,4,5) by (simp add: map_after_def apply_writes_append)
    then show ?thesis using that [of ops "[]"] by simp
  next
    case False
    obtain ops' ops'' where p: "ops2 = ops' @ ops''" "writes ops' = take (length ds + k) (writes ops2)"
      using writes_prefix by blast
    have "take (length ds + k) (writes ops2) = ds @ take k ps" unfolding h(4) [symmetric] by simp
    then have "e_map e' = map_after (ops1 @ ops')" using m p(2) by (simp add: map_after_def apply_writes_append)
    then show ?thesis using that [of "ops1 @ ops'" ops''] False h(1) p(1) by simp
  qed
  show ?thesis using r(1,4,5,6) p sz by blast
qed

text \<open>
  C23. Crash recovery of the engine.  From a new directory and without I/O errors, every sequence of
  puts, deletes, gets and flushes succeeds, and whatever part of the unsynced log a crash afterwards
  leaves, the engine opens again and every lookup returns what it returned after some prefix of the
  sequence; with \<open>SyncWAL\<close> that prefix is the whole sequence.  Every write fits one log record, all
  records together take less than 32 GiB, and there are fewer than \<open>2 ^ 62\<close> calls.
\<close>

theorem engine_crash_recovery:
  assumes "OpenEngine all_ok rand empty_disk opts = Some (Inr e0)"
    and "\<forall>w \<in> set (writes ops). write_fits w" "sum_list (map op_size ops) < 2 ^ 35" "length ops < 2 ^ 62"
  shows "\<exists>e. eng_after e0 ops = Some e \<and>
    (\<forall>n cuts rand' opts'. \<exists>e' ops' ops''. OpenEngine all_ok rand' (crash_disk e n cuts) opts' = Some (Inr e') \<and>
       ops = ops' @ ops'' \<and> (\<forall>key. map_option snd (Get e' key) = Some (Inr (map_after ops' key))) \<and>
       (SyncWAL opts \<longrightarrow> ops'' = []))"
proof -
  have "eng_size e0 + sum_list (map op_size ops) < 2 ^ 35" using OpenEngine_empty(4) [OF assms(1)] assms(3) by simp
  moreover have "next_fits e0 (2 * length ops)" using hist_empty(3) [OF assms(1)] assms(4) by (simp add: next_fits_def)
  ultimately obtain e where e: "eng_after e0 ops = Some e" "hist ops e" "e_syncWAL e = SyncWAL opts"
    using hist_run [OF hist_empty(1) [OF assms(1)] assms(2)] hist_empty(2) [OF assms(1)] by auto
  have "\<exists>e' ops' ops''. OpenEngine all_ok rand' (crash_disk e n cuts) opts' = Some (Inr e') \<and>
       ops = ops' @ ops'' \<and> (\<forall>key. map_option snd (Get e' key) = Some (Inr (map_after ops' key))) \<and>
       (SyncWAL opts \<longrightarrow> ops'' = [])" for n cuts rand' opts'
  proof -
    obtain e' ops' ops'' where r: "OpenEngine all_ok rand' (crash_disk e n cuts) opts' = Some (Inr e')"
        "ops = ops' @ ops''" "e_map e' = map_after ops'" "eng_ok e'" "e_io e' = all_ok" "e_syncWAL e \<longrightarrow> ops'' = []"
      using hist_recover [OF e(2)] by blast
    have "map_option snd (Get e' key) = Some (Inr (map_after ops' key))" for key
      using Get_spec [OF r(4), of key] r(3,5) by auto
    then show ?thesis using r(1,2,6) e(3) by blast
  qed
  then show ?thesis using e(1) by blast
qed

theorem engine_crash_recovery_witness:
  "\<exists>e0 e e'. OpenEngine all_ok [] empty_disk \<lparr>FlushSize = 1000, SyncWAL = True\<rparr> = Some (Inr e0) \<and>
     eng_after e0 [OpPut (str ''a'') (str ''1''), OpFlush, OpPut (str ''b'') (str ''2''), OpDelete (str ''a'')] = Some e \<and>
     OpenEngine all_ok [] (crash_disk e 0 (\<lambda>_. 0)) DefaultEngineOptions = Some (Inr e') \<and>
     map_option snd (Get e' (str ''a'')) = Some (Inr None) \<and>
     map_option snd (Get e' (str ''b'')) = Some (Inr (Some (str ''2'')))"
proof -
  let ?ops = "[OpPut (str ''a'') (str ''1''), OpFlush, OpPut (str ''b'') (str ''2''), OpDelete (str ''a'')]"
  let ?o = "\<lparr>FlushSize = 1000, SyncWAL = True\<rparr>"
  obtain e0 where e0: "OpenEngine all_ok [] empty_disk ?o = Some (Inr e0)"
    by (auto simp: OpenEngine_def empty_disk_def table_names_def ReplayWAL_def OpenWAL_def numeral_2_eq_2)
  have fits: "\<forall>w \<in> set (writes ?ops). write_fits w" "sum_list (map op_size ?ops) < 2 ^ 35" "length ?ops < 2 ^ 62"
    by (simp_all add: writes_def write_fits_def str_def)
  obtain e where e: "eng_after e0 ?ops = Some e"
    "\<And>n cuts rand' opts'. \<exists>e' ops' ops''. OpenEngine all_ok rand' (crash_disk e n cuts) opts' = Some (Inr e') \<and>
       ?ops = ops' @ ops'' \<and> (\<forall>key. map_option snd (Get e' key) = Some (Inr (map_after ops' key))) \<and>
       (SyncWAL ?o \<longrightarrow> ops'' = [])"
    using engine_crash_recovery [OF e0 fits] by blast
  obtain e' ops' ops'' where e': "OpenEngine all_ok [] (crash_disk e 0 (\<lambda>_. 0)) DefaultEngineOptions = Some (Inr e')"
      "?ops = ops' @ ops''" "\<forall>key. map_option snd (Get e' key) = Some (Inr (map_after ops' key))" "SyncWAL ?o \<longrightarrow> ops'' = []"
    using e(2) [of "[]" 0 "\<lambda>_. 0" DefaultEngineOptions] by blast
  have "ops' = ?ops" using e'(2,4) by simp
  moreover have "map_after ?ops (str ''a'') = None" "map_after ?ops (str ''b'') = Some (str ''2'')"
    by (simp_all add: map_after_def writes_def apply_writes_def upd_def str_def)
  ultimately show ?thesis using e0 e(1) e'(1,3) by metis
qed

end
