(* ===== verification/EngineSnapshot.thy ===== *)
theory EngineSnapshot
  imports EngineRecovery
begin

text \<open>
  Dumping and reloading the storage engine: \<open>SnapshotEntries\<close> lists the contents, \<open>Reset\<close> replaces
  them, and the engine keeps recovering from crashes afterwards.
\<close>

section \<open>SnapshotEntries\<close>

definition dump :: "(gostring \<times> kvEntry) list \<Rightarrow> (gostring \<times> bytes) list" where
  "dump m = map (\<lambda>(k, en). (k, kv_value en)) (filter (\<lambda>(k, en). \<not> kv_tombstone en) m)"

lemma dump_spec:
  assumes "merged_ok m"
  shows "distinct (map fst (dump m))" "map_of (dump m) = live (merged_map m)"
proof -
  have d: "distinct (map fst m)" using assms by (simp add: merged_ok_def)
  have fst: "map fst (dump m) = map fst (filter (\<lambda>(k, en). \<not> kv_tombstone en) m)"
    by (simp add: dump_def comp_def case_prod_beta)
  have d': "distinct (map fst (filter (\<lambda>(k, en). \<not> kv_tombstone en) m))" using d by (induction m) auto
  then show dd: "distinct (map fst (dump m))" using fst by simp
  show "map_of (dump m) = live (merged_map m)"
  proof
    fix k
    show "map_of (dump m) k = live (merged_map m) k"
    proof (cases "live (merged_map m) k")
      case (Some v)
      then obtain en where en: "map_of m k = Some en" "kv_value en = v" "\<not> kv_tombstone en"
        by (auto simp: live_def merged_map_def proj_def split: option.splits bool.splits)
      then have "(k, v) \<in> set (dump m)" by (force simp: dump_def dest: map_of_SomeD)
      then show ?thesis using Some dd by simp
    next
      case None
      have "k \<notin> fst ` set (dump m)"
      proof
        assume "k \<in> fst ` set (dump m)"
        then obtain en where "(k, en) \<in> set m" "\<not> kv_tombstone en" by (auto simp: dump_def)
        then show False using None d by (auto simp: live_def merged_map_def proj_def)
      qed
      then show ?thesis using None by (simp add: map_of_eq_None_iff)
    qed
  qed
qed

lemma SnapshotEntries_spec:
  assumes "eng_ok e"
  shows "\<exists>io' r. SnapshotEntries e = Some (e\<lparr>e_io := io'\<rparr>, r) \<and> io_after (e_io e) io' \<and>
    (case r of Inl err \<Rightarrow> False \<in> set (io_ok (e_io e))
     | Inr data \<Rightarrow> distinct (map fst data) \<and> map_of data = e_map e)"
proof -
  have ok: "mem_ok (e_mem e)" "\<forall>t \<in> set (e_tables e). table_ok t" "io_cut (e_io e) = []"
    using assms by (auto simp: eng_ok_def)
  obtain r io' where m: "merge_tables (e_io e) (rev (e_tables e)) [] = (r, io')" "io_after (e_io e) io'"
      "case r of Inl err \<Rightarrow> False \<in> set (io_ok (e_io e))
       | Inr m \<Rightarrow> merged_ok m \<and> merged_map m = tables_map (e_tables e) \<and>
           snd ` set m \<subseteq> set (concat (map table_entries (e_tables e)))"
    using merge_all_tables [OF ok(2,3)] by blast
  show ?thesis
  proof (cases r)
    case (Inl err)
    then have "SnapshotEntries e = Some (e\<lparr>e_io := io'\<rparr>, Inl err)" using m(1) by (simp add: SnapshotEntries_def)
    then show ?thesis using m(2,3) Inl by auto
  next
    case (Inr mg)
    then have mg: "merged_ok mg" "merged_map mg = tables_map (e_tables e)" using m(3) by auto
    note d = mem_dump_spec [OF ok(1)]
    let ?m = "merge_entries (mem_dump (e_mem e)) mg"
    have mm: "merged_ok ?m" "merged_map ?m = tables_map (e_tables e) ++ mem_map (e_mem e)"
      using merge_entries_spec [OF mg(1) sorted_entries_distinct [OF d(2)]] mg(2) d(3) by auto
    have "SnapshotEntries e = Some (e\<lparr>e_io := io'\<rparr>, Inr (dump ?m))"
      using m(1) Inr d(1) by (simp add: SnapshotEntries_def dump_def)
    then show ?thesis using m(2) dump_spec [OF mm(1)] mm(2) by (auto simp: e_map_def)
  qed
qed

section \<open>Reset\<close>

definition as_writes :: "(gostring \<times> bytes) list \<Rightarrow> wr list" where
  "as_writes kvs = map (\<lambda>(k, v). (k, v, False)) kvs"

definition kv_size :: "gostring \<times> bytes \<Rightarrow> nat" where
  "kv_size kv = 9 + length (fst kv) + length (snd kv)"

text \<open>Without I/O errors the loop appends the entries to the log and puts them in the memtable.\<close>

lemma load_calm:
  assumes "calm e ds ps" "\<forall>w \<in> set (as_writes kvs). write_fits w"
  shows "\<exists>e'. load_entries e kvs = Some (e', None) \<and> calm e' ds (ps @ as_writes kvs) \<and>
    e_tables e' = e_tables e \<and> e_syncWAL e' = e_syncWAL e \<and> e_nextSST e' = e_nextSST e \<and>
    eng_size e' \<le> eng_size e + sum_list (map kv_size kvs)"
  using assms
proof (induction kvs arbitrary: e ps)
  case Nil
  then show ?case by (simp add: as_writes_def)
next
  case (Cons kv kvs)
  obtain k v where kv: "kv = (k, v)" by (cases kv)
  have c: "eng_ok e" "files_ok e" "e_io e = all_ok" "wal_holds e ds ps" "mem_map (e_mem e) = map_of (rev (ds @ ps))"
    using Cons.prems(1) by (auto simp: calm_def)
  have wf: "write_fits (k, v, False)" using Cons.prems(2) kv by (simp add: as_writes_def)
  have enc: "encodeWALRecord k v False = enc (k, v, False)" by (simp add: enc_def)
  obtain e1 where e1: "wal_do e (\<lambda>w. Append w (encodeWALRecord k v False)) = Some (e1, None)" "wal_frame e e1"
      "e_io e1 = all_ok" "wal_holds e1 ds (ps @ [(k, v, False)])"
    using wal_calm(1) [OF c(4,3) wf] unfolding enc by blast
  have fr: "e_mem e1 = e_mem e" "e_tables e1 = e_tables e" "e_dir e1 = e_dir e" "e_nextSST e1 = e_nextSST e"
      "e_syncWAL e1 = e_syncWAL e" "eng_size e1 = eng_size e"
    using e1(2) wal_frame_keeps(3) [OF e1(2)] by (simp_all add: wal_frame_def)
  have mok: "mem_ok (e_mem e1)" using c(1) fr by (simp add: eng_ok_def)
  obtain m where m: "mem_put (e_mem e1) k v False = Some m" using mem_put_spec [OF mok] by blast
  note d = mem_dump_put [OF mok m]
  let ?e2 = "e1\<lparr>e_mem := m\<rparr>"
  have "kv_fits \<lparr>kv_key = k, kv_value = v, kv_tombstone = False\<rparr>" using wf by (simp add: kv_fits_def write_fits_def)
  then have ok2: "eng_ok ?e2" using c(1) fr d(1,3) e1(3) by (auto simp: eng_ok_def)
  have "mem_map m = map_of (rev (ds @ ps @ [(k, v, False)]))" using d(4) c(5) fr(1) by simp
  then have "calm ?e2 ds (ps @ [(k, v, False)])"
    unfolding calm_def using ok2 c(2) fr e1(3,4) by (simp add: wal_holds_def files_ok_def)
  from Cons.IH [OF this] obtain e' where e': "load_entries ?e2 kvs = Some (e', None)"
      "calm e' ds ((ps @ [(k, v, False)]) @ as_writes kvs)" "e_tables e' = e_tables ?e2" "e_syncWAL e' = e_syncWAL ?e2"
      "e_nextSST e' = e_nextSST ?e2" "eng_size e' \<le> eng_size ?e2 + sum_list (map kv_size kvs)"
    using Cons.prems(2) by (auto simp: as_writes_def)
  have "eng_size ?e2 \<le> eng_size e + kv_size kv" using fr(6) d(2) kv by (simp add: eng_size_def kv_size_def)
  then show ?case using e' e1(1) m kv fr by (simp add: as_writes_def)
qed

lemma files_ok_wiped:
  assumes "files_ok e" "e_tables e' = []" "e_dir e' = fold (\<lambda>t. AList.delete (t_path t)) (e_tables e) (e_dir e)"
  shows "files_ok e'"
proof -
  have "map_of (e_dir e') = (map_of (map (\<lambda>t. (t_path t, (t_data t, True))) (e_tables e))) |` (- t_path ` set (e_tables e))"
    using fold_delete(1) [of "e_tables e" "e_dir e"] assms(1,3) by (simp add: files_ok_def)
  also have "\<dots> = Map.empty"
    by (auto simp: restrict_map_def fun_eq_iff map_of_eq_None_iff image_image)
  finally have "map_of (e_dir e') = Map.empty" .
  moreover have "distinct (map fst (e_dir e'))"
    using fold_delete(2) [of "e_dir e" "e_tables e"] assms(1,3) by (simp add: files_ok_def)
  ultimately show ?thesis using assms(2) by (simp add: files_ok_def)
qed

text \<open>Without I/O errors \<open>Reset\<close> replaces the contents, durably.\<close>

lemma Reset_calm:
  assumes "calm e ds ps" "\<forall>w \<in> set (as_writes kvs). write_fits w"
  shows "\<exists>e'. Reset e kvs = Some (e', None) \<and> calm e' (as_writes kvs) [] \<and> e_tables e' = [] \<and>
    e_syncWAL e' = e_syncWAL e \<and> e_nextSST e' = e_nextSST e \<and> eng_size e' \<le> sum_list (map kv_size kvs)"
proof -
  have c: "eng_ok e" "files_ok e" "e_io e = all_ok" "wal_holds e ds ps" using assms(1) by (auto simp: calm_def)
  let ?e1 = "e\<lparr>e_dir := fold (\<lambda>t. AList.delete (t_path t)) (e_tables e) (e_dir e), e_io := all_ok, e_tables := [],
    e_mem := newMemtable (m_rand (e_mem e))\<rparr>"
  have "wal_holds ?e1 ds ps" using c(4) by (simp add: wal_holds_def)
  then obtain e2 where e2: "wal_do ?e1 Close = Some (e2, None)" "wal_frame ?e1 e2" "e_io e2 = all_ok"
    using wal_calm(3) [of ?e1] by auto
  obtain e3 where e3: "reopen_wal e2 = Some (e3, None)" "wal_frame e2 e3" "e_io e3 = all_ok" "wal_holds e3 [] []"
    using reopen_calm [OF e2(3)] by blast
  have fr: "e_tables e3 = []" "e_dir e3 = e_dir ?e1" "e_mem e3 = newMemtable (m_rand (e_mem e))"
      "e_syncWAL e3 = e_syncWAL e" "e_nextSST e3 = e_nextSST e"
    using e2(2) e3(2) by (simp_all add: wal_frame_def)
  have "files_ok e3" by (rule files_ok_wiped [OF c(2)]) (simp_all add: fr)
  moreover have "eng_ok e3" using fr e3(3) by (simp add: eng_ok_def mem_ok_new)
  ultimately have "calm e3 [] []" using e3(3,4) fr by (simp add: calm_def)
  then obtain e4 where e4: "load_entries e3 kvs = Some (e4, None)" "calm e4 [] (as_writes kvs)" "e_tables e4 = []"
      "e_syncWAL e4 = e_syncWAL e" "e_nextSST e4 = e_nextSST e" "eng_size e4 \<le> eng_size e3 + sum_list (map kv_size kvs)"
    using load_calm [of e3 "[]" "[]" kvs] assms(2) fr by auto
  have w4: "wal_holds e4 [] (as_writes kvs)" "e_io e4 = all_ok" using e4(2) by (auto simp: calm_def)
  obtain e5 where e5: "wal_do e4 Sync = Some (e5, None)" "wal_frame e4 e5" "e_io e5 = all_ok" "wal_holds e5 (as_writes kvs) []"
    using wal_calm(2) [OF w4] by auto
  have fr5: "e_tables e5 = e_tables e4" "e_mem e5 = e_mem e4" "e_dir e5 = e_dir e4" "e_nextSST e5 = e_nextSST e4"
      "e_syncWAL e5 = e_syncWAL e4"
    using e5(2) by (simp_all add: wal_frame_def)
  have "calm e5 (as_writes kvs) []"
    using e4(2) e5(3,4) fr5 wal_frame_keeps(1) [OF e5(2)] by (simp add: calm_def files_ok_def)
  moreover have "Reset e kvs = Some (e5, None)"
    using e2(1) e3(1) e4(1) e5(1) by (simp add: Reset_def c(3) remove_tables_calm Let_def)
  moreover have "eng_size e3 = 0" using fr by (simp add: eng_size_def)
  ultimately show ?thesis using e4 fr5 wal_frame_keeps(3) [OF e5(2)] by auto
qed

lemma live_as_writes:
  assumes "distinct (map fst kvs)"
  shows "apply_writes Map.empty (as_writes kvs) = map_of kvs"
proof -
  have gen: "apply_writes m (as_writes kvs) = m ++ map_of kvs" if "distinct (map fst kvs)" for m
    using that
  proof (induction kvs arbitrary: m)
    case (Cons kv kvs)
    obtain k v where kv: "kv = (k, v)" by (cases kv)
    have "apply_writes m (as_writes (kv # kvs)) = apply_writes (m(k \<mapsto> v)) (as_writes kvs)"
      by (simp add: as_writes_def apply_writes_def upd_def kv)
    also have "\<dots> = m(k \<mapsto> v) ++ map_of kvs" using Cons by simp
    also have "\<dots> = m ++ map_of (kv # kvs)"
      using Cons.prems kv
      by (auto simp: fun_eq_iff map_add_def image_iff split: option.splits dest!: map_of_SomeD)
    finally show ?case .
  qed (simp add: as_writes_def)
  show ?thesis using gen [OF assms, of Map.empty] by simp
qed

end
