(* ===== verification/StateMachine.thy ===== *)
theory StateMachine
  imports EngineSnapshot
begin

text \<open>
  The replicated state machine (src/server/statemachine.go): commands, their encoding, and the machine
  that applies them to the storage engine with a watermark per client.  The gob encoding of commands
  and snapshots is a parameter with the laws that an encoder and decoder of the same type satisfy.
\<close>

section \<open>Model\<close>

record KvCommand =
  c_Op :: gostring
  c_Key :: gostring
  c_Value :: bytes
  c_ClientID :: gostring
  c_Seq :: u64

text \<open>A snapshot lists the entries of the map \<open>Data\<close> in the order in which \<open>Reset\<close> visits them; a nil
  map \<open>LastSeq\<close> is \<open>None\<close>.\<close>

record snapshotState =
  ss_Data :: "(gostring \<times> bytes) list"
  ss_LastSeq :: "(gostring \<rightharpoonup> u64) option"

record gob =
  gob_enc_command :: "KvCommand \<Rightarrow> bytes option"
  gob_dec_command :: "bytes \<Rightarrow> KvCommand option"
  gob_enc_snapshot :: "snapshotState \<Rightarrow> bytes option"
  gob_dec_snapshot :: "bytes \<Rightarrow> snapshotState option"

text \<open>What gob documents: a decoded command is the one encoded, and a decoded snapshot has the encoded
  maps, its entries in some order (an empty map may come back as nil).\<close>

definition same_snapshot :: "snapshotState \<Rightarrow> snapshotState \<Rightarrow> bool" where
  "same_snapshot s t \<longleftrightarrow> distinct (map fst (ss_Data t)) \<and> set (ss_Data t) = set (ss_Data s) \<and>
     (ss_LastSeq t = ss_LastSeq s \<or> ss_LastSeq s = Some Map.empty \<and> ss_LastSeq t = None)"

definition gob_ok :: "gob \<Rightarrow> bool" where
  "gob_ok g \<longleftrightarrow>
     (\<forall>c b. gob_enc_command g c = Some b \<longrightarrow> gob_dec_command g b = Some c) \<and>
     (\<forall>s b. gob_enc_snapshot g s = Some b \<longrightarrow> distinct (map fst (ss_Data s)) \<longrightarrow>
        (\<exists>t. gob_dec_snapshot g b = Some t \<and> same_snapshot s t))"

datatype sm_err = SmEngine eng_err | SmUnknownOp gostring | SmEncode | SmDecode

definition encodeCommand :: "gob \<Rightarrow> KvCommand \<Rightarrow> sm_err + bytes" where
  "encodeCommand g c = (case gob_enc_command g c of None \<Rightarrow> Inl SmEncode | Some b \<Rightarrow> Inr b)"

definition decodeCommand :: "gob \<Rightarrow> bytes \<Rightarrow> sm_err + KvCommand" where
  "decodeCommand g b = (case gob_dec_command g b of None \<Rightarrow> Inl SmDecode | Some c \<Rightarrow> Inr c)"

record stateMachine =
  sm_engine :: Engine
  sm_lastSeq :: "gostring \<rightharpoonup> u64"

definition newStateMachine :: "Engine \<Rightarrow> stateMachine" where
  "newStateMachine engine = \<lparr>sm_engine = engine, sm_lastSeq = Map.empty\<rparr>"

text \<open>A lookup in a Go map gives 0 for a missing client.\<close>

definition seq_of :: "(gostring \<rightharpoonup> u64) \<Rightarrow> gostring \<Rightarrow> u64" where
  "seq_of ls cid = (case ls cid of None \<Rightarrow> 0 | Some s \<Rightarrow> s)"

text \<open>The outer option is \<open>None\<close> when the engine panics.\<close>

definition sm_apply :: "stateMachine \<Rightarrow> KvCommand \<Rightarrow> (stateMachine \<times> sm_err option) option" where
  "sm_apply sm c =
     (if c_ClientID c \<noteq> [] \<and> 0 < c_Seq c \<and> c_Seq c \<le> seq_of (sm_lastSeq sm) (c_ClientID c) then Some (sm, None)
      else
        (let run = (if c_Op c = str ''put'' then
                      map_option (\<lambda>(e, err). (e, map_option SmEngine err)) (Put (sm_engine sm) (c_Key c) (c_Value c))
                    else if c_Op c = str ''delete'' then
                      map_option (\<lambda>(e, err). (e, map_option SmEngine err)) (Delete (sm_engine sm) (c_Key c))
                    else Some (sm_engine sm, Some (SmUnknownOp (c_Op c)))) in
         case run of
           None \<Rightarrow> None
         | Some (e, Some err) \<Rightarrow> Some (sm\<lparr>sm_engine := e\<rparr>, Some err)
         | Some (e, None) \<Rightarrow>
             Some (if c_ClientID c \<noteq> [] then sm\<lparr>sm_engine := e, sm_lastSeq := (sm_lastSeq sm)(c_ClientID c \<mapsto> c_Seq c)\<rparr>
                   else sm\<lparr>sm_engine := e\<rparr>, None)))"

definition sm_get :: "stateMachine \<Rightarrow> gostring \<Rightarrow> (stateMachine \<times> (sm_err + bytes option)) option" where
  "sm_get sm key =
     map_option (\<lambda>(e, r). (sm\<lparr>sm_engine := e\<rparr>, case r of Inl err \<Rightarrow> Inl (SmEngine err) | Inr v \<Rightarrow> Inr v))
       (Get (sm_engine sm) key)"

definition sm_snapshot :: "gob \<Rightarrow> stateMachine \<Rightarrow> (stateMachine \<times> (sm_err + bytes)) option" where
  "sm_snapshot g sm =
     (case SnapshotEntries (sm_engine sm) of
        None \<Rightarrow> None
      | Some (e, Inl err) \<Rightarrow> Some (sm\<lparr>sm_engine := e\<rparr>, Inl (SmEngine err))
      | Some (e, Inr data) \<Rightarrow>
          Some (sm\<lparr>sm_engine := e\<rparr>,
            case gob_enc_snapshot g \<lparr>ss_Data = data, ss_LastSeq = Some (sm_lastSeq sm)\<rparr> of
              None \<Rightarrow> Inl SmEncode | Some b \<Rightarrow> Inr b))"

definition sm_restore :: "gob \<Rightarrow> stateMachine \<Rightarrow> bytes \<Rightarrow> (stateMachine \<times> sm_err option) option" where
  "sm_restore g sm snap =
     (case gob_dec_snapshot g snap of
        None \<Rightarrow> Some (sm, Some SmDecode)
      | Some st \<Rightarrow>
          (case Reset (sm_engine sm) (ss_Data st) of
             None \<Rightarrow> None
           | Some (e, Some err) \<Rightarrow> Some (sm\<lparr>sm_engine := e\<rparr>, Some (SmEngine err))
           | Some (e, None) \<Rightarrow>
               Some (sm\<lparr>sm_engine := e,
                        sm_lastSeq := (case ss_LastSeq st of None \<Rightarrow> Map.empty | Some m \<Rightarrow> m)\<rparr>, None)))"

section \<open>The abstract machine\<close>

text \<open>A key-value map and the watermarks.\<close>

type_synonym kv_state = "(gostring \<rightharpoonup> bytes) \<times> (gostring \<rightharpoonup> u64)"

definition sm_abs :: "stateMachine \<Rightarrow> kv_state" where
  "sm_abs sm = (e_map (sm_engine sm), sm_lastSeq sm)"

definition is_dup :: "(gostring \<rightharpoonup> u64) \<Rightarrow> KvCommand \<Rightarrow> bool" where
  "is_dup ls c \<longleftrightarrow> c_ClientID c \<noteq> [] \<and> 0 < c_Seq c \<and> c_Seq c \<le> seq_of ls (c_ClientID c)"

definition cmd_op :: "KvCommand \<Rightarrow> eng_op option" where
  "cmd_op c = (if c_Op c = str ''put'' then Some (OpPut (c_Key c) (c_Value c))
               else if c_Op c = str ''delete'' then Some (OpDelete (c_Key c)) else None)"

definition mark :: "(gostring \<rightharpoonup> u64) \<Rightarrow> KvCommand \<Rightarrow> gostring \<rightharpoonup> u64" where
  "mark ls c = (if c_ClientID c \<noteq> [] then ls(c_ClientID c \<mapsto> c_Seq c) else ls)"

definition kv_step :: "kv_state \<Rightarrow> KvCommand \<Rightarrow> kv_state \<times> sm_err option" where
  "kv_step s c = (case s of (m, ls) \<Rightarrow>
     if is_dup ls c then (s, None)
     else case cmd_op c of
       None \<Rightarrow> (s, Some (SmUnknownOp (c_Op c)))
     | Some op \<Rightarrow> ((apply_writes m (op_writes op), mark ls c), None))"

text \<open>The commands of a log that reach the engine, as engine calls, and the watermarks after the log.\<close>

fun log_ops :: "(gostring \<rightharpoonup> u64) \<Rightarrow> KvCommand list \<Rightarrow> eng_op list" where
  "log_ops ls [] = []"
| "log_ops ls (c # cs) =
     (if is_dup ls c then log_ops ls cs
      else case cmd_op c of None \<Rightarrow> log_ops ls cs | Some op \<Rightarrow> op # log_ops (mark ls c) cs)"

fun log_marks :: "(gostring \<rightharpoonup> u64) \<Rightarrow> KvCommand list \<Rightarrow> gostring \<rightharpoonup> u64" where
  "log_marks ls [] = ls"
| "log_marks ls (c # cs) =
     log_marks (if is_dup ls c \<or> cmd_op c = None then ls else mark ls c) cs"

text \<open>Applying a log; \<open>None\<close> when a command panics or the engine fails.\<close>

fun sm_run :: "stateMachine \<Rightarrow> KvCommand list \<Rightarrow> stateMachine option" where
  "sm_run sm [] = Some sm"
| "sm_run sm (c # cs) =
     (case sm_apply sm c of
        None \<Rightarrow> None
      | Some (sm', Some (SmEngine _)) \<Rightarrow> None
      | Some (sm', _) \<Rightarrow> sm_run sm' cs)"

definition kv_run :: "kv_state \<Rightarrow> KvCommand list \<Rightarrow> kv_state" where
  "kv_run s cs = foldl (\<lambda>s c. fst (kv_step s c)) s cs"

lemma kv_run_simps [simp]:
  "kv_run s [] = s" "kv_run s (c # cs) = kv_run (fst (kv_step s c)) cs"
  by (simp_all add: kv_run_def)

lemma kv_run_ops:
  "kv_run (m, ls) cs = (apply_writes m (writes (log_ops ls cs)), log_marks ls cs)"
proof (induction cs arbitrary: m ls)
  case (Cons c cs)
  show ?case
  proof (cases "is_dup ls c")
    case False
    then show ?thesis using Cons
      by (cases "cmd_op c") (simp_all add: kv_step_def writes_def apply_writes_append)
  qed (use Cons in \<open>simp add: kv_step_def\<close>)
qed simp

lemma log_append:
  "log_ops ls (cs @ cs') = log_ops ls cs @ log_ops (log_marks ls cs) cs'"
  "log_marks ls (cs @ cs') = log_marks (log_marks ls cs) cs'"
  by (induction cs arbitrary: ls) (auto split: option.splits)

section \<open>One command\<close>

definition cmd_size :: "KvCommand \<Rightarrow> nat" where
  "cmd_size c = 9 + length (c_Key c) + length (c_Value c)"

definition cmd_fits :: "KvCommand \<Rightarrow> bool" where
  "cmd_fits c \<longleftrightarrow> 5 + length (c_Key c) + length (c_Value c) < 2 ^ 32"

lemma cmd_op_fits:
  assumes "cmd_op c = Some op" "cmd_fits c"
  shows "\<forall>w \<in> set (op_writes op). write_fits w" "op_fits op" "op_size op \<le> cmd_size c"
  using assms by (auto simp: cmd_op_def cmd_fits_def cmd_size_def write_fits_def split: if_splits)

text \<open>\<open>sm_apply\<close> as one engine call between the check and the update of the watermark.\<close>

lemma sm_apply_exec:
  "sm_apply sm c =
     (if is_dup (sm_lastSeq sm) c then Some (sm, None)
      else case cmd_op c of
        None \<Rightarrow> Some (sm, Some (SmUnknownOp (c_Op c)))
      | Some op \<Rightarrow> (case eng_exec (sm_engine sm) op of
          None \<Rightarrow> None
        | Some (e, Inl err) \<Rightarrow> Some (sm\<lparr>sm_engine := e\<rparr>, Some (SmEngine err))
        | Some (e, Inr _) \<Rightarrow> Some (\<lparr>sm_engine = e, sm_lastSeq = mark (sm_lastSeq sm) c\<rparr>, None)))"
proof (cases "is_dup (sm_lastSeq sm) c")
  case True
  then show ?thesis by (simp add: sm_apply_def is_dup_def)
next
  case False
  have run: "(case map_option (\<lambda>(e, err). (e, map_option SmEngine err)) r of
           None \<Rightarrow> None
         | Some (e, Some err) \<Rightarrow> Some (sm\<lparr>sm_engine := e\<rparr>, Some err)
         | Some (e, None) \<Rightarrow>
             Some (if c_ClientID c \<noteq> [] then sm\<lparr>sm_engine := e, sm_lastSeq := (sm_lastSeq sm)(c_ClientID c \<mapsto> c_Seq c)\<rparr>
                   else sm\<lparr>sm_engine := e\<rparr>, None)) =
       (case map_option (\<lambda>(e, err). (e, case err of None \<Rightarrow> Inr None | Some x \<Rightarrow> Inl x)) r of
          None \<Rightarrow> None
        | Some (e, Inl err) \<Rightarrow> Some (sm\<lparr>sm_engine := e\<rparr>, Some (SmEngine err))
        | Some (e, Inr _) \<Rightarrow> Some (\<lparr>sm_engine = e, sm_lastSeq = mark (sm_lastSeq sm) c\<rparr>, None))" for r
    by (auto simp: mark_def split: option.split)
  have "\<not> (c_ClientID c \<noteq> [] \<and> 0 < c_Seq c \<and> c_Seq c \<le> seq_of (sm_lastSeq sm) (c_ClientID c))"
    using False by (simp add: is_dup_def)
  note g = if_not_P [OF this] if_not_P [OF False]
  show ?thesis
  proof (cases "c_Op c = str ''put''")
    case True
    show ?thesis
      unfolding sm_apply_def cmd_op_def Let_def g if_P [OF True] option.case(2) eng_exec.simps(1) by (rule run)
  next
    case np: False
    show ?thesis
    proof (cases "c_Op c = str ''delete''")
      case True
      show ?thesis
        unfolding sm_apply_def cmd_op_def Let_def g if_not_P [OF np] if_P [OF True] option.case(2) eng_exec.simps(2)
        by (rule run)
    next
      case nd: False
      show ?thesis
        unfolding sm_apply_def cmd_op_def Let_def g if_not_P [OF np] if_not_P [OF nd] by simp
    qed
  qed
qed



section \<open>A log of commands\<close>

lemma sm_run_skip:
  assumes "is_dup (sm_lastSeq sm) c \<or> cmd_op c = None"
  shows "sm_run sm (c # cs) = sm_run sm cs"
  using assms by (cases "is_dup (sm_lastSeq sm) c") (simp_all add: sm_apply_exec)

text \<open>Without I/O errors the engine records the effective commands as its history.\<close>

lemma sm_run_hist:
  assumes "hist ops (sm_engine sm)" "\<forall>c \<in> set cs. cmd_fits c" "eng_size (sm_engine sm) + sum_list (map cmd_size cs) < 2 ^ 35"
    "next_fits (sm_engine sm) (2 * length cs)"
  shows "\<exists>sm'. sm_run sm cs = Some sm' \<and> hist (ops @ log_ops (sm_lastSeq sm) cs) (sm_engine sm') \<and>
    sm_lastSeq sm' = log_marks (sm_lastSeq sm) cs \<and> eng_size (sm_engine sm') \<le> eng_size (sm_engine sm) + sum_list (map cmd_size cs)"
  using assms
proof (induction cs arbitrary: sm ops)
  case (Cons c cs)
  have nx: "next_fits (sm_engine sm) (2 * length cs)" using Cons.prems(4) by (simp add: next_fits_def)
  show ?case
  proof (cases "is_dup (sm_lastSeq sm) c \<or> cmd_op c = None")
    case True
    have l: "log_ops (sm_lastSeq sm) (c # cs) = log_ops (sm_lastSeq sm) cs"
        "log_marks (sm_lastSeq sm) (c # cs) = log_marks (sm_lastSeq sm) cs" using True by auto
    show ?thesis unfolding sm_run_skip [OF True] l
      using Cons.IH [OF Cons.prems(1) _ _ nx] Cons.prems(2,3) by (simp del: log_ops.simps) fastforce
  next
    case False
    then obtain op where op: "cmd_op c = Some op" by auto
    note f = cmd_op_fits [OF op]
    obtain e' x where e': "eng_exec (sm_engine sm) op = Some (e', Inr x)" "hist (ops @ [op]) e'"
        "eng_size e' \<le> eng_size (sm_engine sm) + op_size op" "unat (e_nextSST e') \<le> unat (e_nextSST (sm_engine sm)) + 2"
      using hist_exec [OF Cons.prems(1), of op] f Cons.prems(2,3,4) by (auto simp: next_fits_def)
    let ?sm = "\<lparr>sm_engine = e', sm_lastSeq = mark (sm_lastSeq sm) c\<rparr>"
    have a: "sm_apply sm c = Some (?sm, None)" using False op e'(1) by (simp add: sm_apply_exec)
    have sz: "eng_size e' \<le> eng_size (sm_engine sm) + cmd_size c" using e'(3) f(3) Cons.prems(2) by simp
    have "next_fits e' (2 * length cs)" using Cons.prems(4) e'(4) by (simp add: next_fits_def)
    then obtain sm' where "sm_run ?sm cs = Some sm'" "hist ((ops @ [op]) @ log_ops (mark (sm_lastSeq sm) c) cs) (sm_engine sm')"
        "sm_lastSeq sm' = log_marks (mark (sm_lastSeq sm) c) cs" "eng_size (sm_engine sm') \<le> eng_size e' + sum_list (map cmd_size cs)"
      using Cons.IH [of "ops @ [op]" ?sm] e'(2) sz Cons.prems(2,3) by auto
    then show ?thesis using a False op sz by simp
  qed
qed simp

text \<open>On an engine that works from here on, whatever happened before.\<close>

lemma sm_run_clean:
  assumes "eng_ok (sm_engine sm)" "clean (sm_engine sm)" "\<forall>c \<in> set cs. cmd_fits c"
    "eng_size (sm_engine sm) + sum_list (map cmd_size cs) < 2 ^ 35"
  shows "\<exists>sm'. sm_run sm cs = Some sm' \<and> sm_abs sm' = kv_run (sm_abs sm) cs \<and> eng_ok (sm_engine sm') \<and> clean (sm_engine sm')"
  using assms
proof (induction cs arbitrary: sm)
  case (Cons c cs)
  show ?case
  proof (cases "is_dup (sm_lastSeq sm) c \<or> cmd_op c = None")
    case True
    have "fst (kv_step (sm_abs sm) c) = sm_abs sm" using True by (auto simp: kv_step_def sm_abs_def)
    then show ?thesis unfolding sm_run_skip [OF True] using Cons.IH [OF Cons.prems(1,2)] Cons.prems(3,4) by simp
  next
    case False
    then obtain op where op: "cmd_op c = Some op" by auto
    have fits: "op_fits op" "op_size op \<le> cmd_size c" using cmd_op_fits [OF op] Cons.prems(3) by auto
    obtain k v t where kvt: "op_writes op = [(k, v, t)]" "eng_exec (sm_engine sm) op =
        map_option (\<lambda>(e, err). (e, case err of None \<Rightarrow> Inr None | Some x \<Rightarrow> Inl x)) (eng_write (sm_engine sm) k v t)"
        "length k < 2 ^ 32" "length v < 2 ^ 32" "9 + length k + length v = op_size op"
      using op fits(1) by (atomize_elim, cases op) (auto simp: cmd_op_def Put_def Delete_def split: if_splits)
    have wal: "e_wal (sm_engine sm) \<noteq> None" using Cons.prems(2) by (auto simp: clean_def)
    have sz: "eng_size (sm_engine sm) + (9 + length k + length v) < 2 ^ 35"
      using kvt(5) fits(2) Cons.prems(4) by simp
    obtain e' where e': "eng_write (sm_engine sm) k v t = Some (e', None)" "eng_ok e'" "e_map e' = upd (e_map (sm_engine sm)) k v t"
        "eng_size e' \<le> eng_size (sm_engine sm) + (9 + length k + length v)" "clean e'"
      using eng_write_spec [OF Cons.prems(1) wal kvt(3,4) sz] Cons.prems(2) by blast
    let ?sm = "\<lparr>sm_engine = e', sm_lastSeq = mark (sm_lastSeq sm) c\<rparr>"
    have a: "sm_apply sm c = Some (?sm, None)" using False op e'(1) kvt(2) by (simp add: sm_apply_exec)
    have st: "fst (kv_step (sm_abs sm) c) = sm_abs ?sm"
      using False op kvt(1) e'(3) by (simp add: kv_step_def sm_abs_def apply_writes_def)
    have "eng_size e' + sum_list (map cmd_size cs) < 2 ^ 35" using e'(4) kvt(5) fits(2) Cons.prems(4) by simp
    then show ?thesis using Cons.IH [of ?sm] e'(2,5) Cons.prems(3) a st by simp
  qed
qed simp

section \<open>Exactly once\<close>

text \<open>
  A log a client that waits for its answers can produce: every command has a client, a positive
  sequence number and a known operation, and is a retry of an earlier command or numbered above all
  earlier commands of its client.
\<close>

fun orderly :: "KvCommand list \<Rightarrow> bool" where
  "orderly [] \<longleftrightarrow> True"
| "orderly (c # cs) \<longleftrightarrow> orderly cs \<and> c_ClientID c \<noteq> [] \<and> 0 < c_Seq c \<and> cmd_op c \<noteq> None \<and>
     (c \<in> set cs \<or> (\<forall>d \<in> set cs. c_ClientID d = c_ClientID c \<longrightarrow> c_Seq d < c_Seq c))"

text \<open>The first occurrence of every command, in order; \<open>orderly\<close> and \<open>firsts\<close> take the log newest first.\<close>

definition firsts :: "KvCommand list \<Rightarrow> KvCommand list" where
  "firsts cs = rev (remdups cs)"

lemma orderly_marks:
  "orderly cs \<Longrightarrow> c \<in> set cs \<Longrightarrow> c_Seq c \<le> seq_of (log_marks Map.empty (rev cs)) (c_ClientID c)"
  "orderly cs \<Longrightarrow> seq_of (log_marks Map.empty (rev cs)) i = 0 \<or>
     (\<exists>c \<in> set cs. c_ClientID c = i \<and> c_Seq c = seq_of (log_marks Map.empty (rev cs)) i)"
proof (induction cs arbitrary: c i)
  case (Cons d cs)
  let ?ls = "log_marks Map.empty (rev cs)"
  have d: "c_ClientID d \<noteq> []" "cmd_op d \<noteq> None" if "orderly (d # cs)" using that by auto
  have eq: "log_marks Map.empty (rev (d # cs)) = (if is_dup ?ls d then ?ls else ?ls(c_ClientID d \<mapsto> c_Seq d))"
    if "orderly (d # cs)" using d [OF that] by (auto simp: log_append mark_def)
  {
    case 1
    show ?case
    proof (cases "is_dup ?ls d")
      case True
      then show ?thesis using 1 Cons(1) [of c] eq [OF 1(1)] by (auto simp: is_dup_def)
    next
      case False
      then have "seq_of ?ls (c_ClientID d) < c_Seq d" using 1(1) by (auto simp: is_dup_def)
      then show ?thesis using 1 Cons(1) [of c] eq [OF 1(1)] False by (cases "c_ClientID c = c_ClientID d") (auto simp: seq_of_def)
    qed
  next
    case 2
    show ?case
    proof (cases "is_dup ?ls d \<or> c_ClientID d \<noteq> i")
      case True
      then have "seq_of (log_marks Map.empty (rev (d # cs))) i = seq_of ?ls i" unfolding eq [OF 2] by (auto simp: seq_of_def)
      then show ?thesis using 2 Cons(2) [of i] by auto
    next
      case False
      then show ?thesis unfolding eq [OF 2] by (simp add: seq_of_def)
    qed
  }
qed (simp_all add: seq_of_def)

lemma orderly_ops:
  "orderly cs \<Longrightarrow> log_ops Map.empty (rev cs) = map (the \<circ> cmd_op) (firsts cs)"
proof (induction cs)
  case (Cons c cs)
  let ?ls = "log_marks Map.empty (rev cs)"
  have o: "orderly cs" "c_ClientID c \<noteq> []" "0 < c_Seq c" "cmd_op c \<noteq> None" using Cons.prems by auto
  show ?case
  proof (cases "c \<in> set cs")
    case True
    then have "is_dup ?ls c" using o orderly_marks(1) by (simp add: is_dup_def)
    then show ?thesis using Cons.IH [OF o(1)] True by (simp add: log_append firsts_def)
  next
    case False
    have "seq_of ?ls (c_ClientID c) < c_Seq c"
      using orderly_marks(2) [OF o(1), of "c_ClientID c"] o(3) False Cons.prems by auto
    then have "\<not> is_dup ?ls c" by (auto simp: is_dup_def)
    then show ?thesis using Cons.IH [OF o(1)] False o(4) by (auto simp: log_append firsts_def)
  qed
qed (simp add: firsts_def)

text \<open>
  C25. Exactly once.  On an orderly log, applied to a new machine without I/O errors, every command
  takes effect exactly once, at its first occurrence: the contents are those of a map to which the
  first occurrences are applied in order, and every \<open>get\<close> returns them.
\<close>

theorem exactly_once:
  assumes "OpenEngine all_ok rand empty_disk opts = Some (Inr e0)" "orderly (rev cs)"
    and "\<forall>c \<in> set cs. cmd_fits c" "sum_list (map cmd_size cs) < 2 ^ 35" "length cs < 2 ^ 62"
  shows "\<exists>sm. sm_run (newStateMachine e0) cs = Some sm \<and>
    (\<forall>key. map_option snd (sm_get sm key) = Some (Inr (map_after (map (the \<circ> cmd_op) (firsts (rev cs))) key)))"
proof -
  have "next_fits e0 (2 * length cs)" using hist_empty(3) [OF assms(1)] assms(5) by (simp add: next_fits_def)
  then obtain sm where sm: "sm_run (newStateMachine e0) cs = Some sm" "hist (log_ops Map.empty cs) (sm_engine sm)"
    using sm_run_hist [of "[]" "newStateMachine e0" cs] hist_empty(1) [OF assms(1)] OpenEngine_empty(4) [OF assms(1)] assms(3,4)
    by (auto simp: newStateMachine_def)
  have ok: "eng_ok (sm_engine sm)" "e_io (sm_engine sm) = all_ok" using sm(2) by (auto simp: hist_def calm_def)
  have "e_map (sm_engine sm) = map_after (map (the \<circ> cmd_op) (firsts (rev cs)))"
    using hist_map [OF sm(2)] orderly_ops [OF assms(2)] by simp
  then have "map_option snd (sm_get sm key) = Some (Inr (map_after (map (the \<circ> cmd_op) (firsts (rev cs))) key))" for key
    using Get_spec [OF ok(1), of key] ok(2) by (auto simp: sm_get_def)
  then show ?thesis using sm(1) by blast
qed

theorem exactly_once_witness:
  "let c1 = \<lparr>c_Op = str ''put'', c_Key = str ''x'', c_Value = str ''1'', c_ClientID = str ''A'', c_Seq = 1\<rparr>;
       c2 = c1\<lparr>c_Value := str ''2'', c_Seq := 2\<rparr> in
   \<exists>e0 sm. OpenEngine all_ok [] empty_disk \<lparr>FlushSize = 1000, SyncWAL = False\<rparr> = Some (Inr e0) \<and>
     sm_run (newStateMachine e0) [c1, c2, c1] = Some sm \<and>
     map_option snd (sm_get sm (str ''x'')) = Some (Inr (Some (str ''2'')))"
proof -
  let ?c1 = "\<lparr>c_Op = str ''put'', c_Key = str ''x'', c_Value = str ''1'', c_ClientID = str ''A'', c_Seq = 1\<rparr>"
  let ?c2 = "?c1\<lparr>c_Value := str ''2'', c_Seq := 2\<rparr>"
  obtain e0 where e0: "OpenEngine all_ok [] empty_disk \<lparr>FlushSize = 1000, SyncWAL = False\<rparr> = Some (Inr e0)"
    by (auto simp: OpenEngine_def empty_disk_def table_names_def ReplayWAL_def OpenWAL_def numeral_2_eq_2)
  have "orderly (rev [?c1, ?c2, ?c1])" by (simp add: cmd_op_def str_def)
  moreover have "\<forall>c \<in> set [?c1, ?c2, ?c1]. cmd_fits c" "sum_list (map cmd_size [?c1, ?c2, ?c1]) < 2 ^ 35"
      "length [?c1, ?c2, ?c1] < 2 ^ 62"
    by (simp_all add: cmd_fits_def cmd_size_def str_def)
  ultimately obtain sm where sm: "sm_run (newStateMachine e0) [?c1, ?c2, ?c1] = Some sm"
      "\<forall>key. map_option snd (sm_get sm key) = Some (Inr (map_after (map (the \<circ> cmd_op) (firsts (rev [?c1, ?c2, ?c1]))) key))"
    using exactly_once [OF e0] by blast
  have "map_after (map (the \<circ> cmd_op) (firsts (rev [?c1, ?c2, ?c1]))) (str ''x'') = Some (str ''2'')"
    by (simp add: firsts_def cmd_op_def map_after_def writes_def apply_writes_def upd_def str_def)
  then show ?thesis using e0 sm unfolding Let_def by metis
qed



section \<open>Restart\<close>

lemma apply_writes_untouched: "k \<notin> fst ` set ws \<Longrightarrow> apply_writes m ws k = m k"
  by (induction ws rule: rev_induct) (auto simp: upd_def)

lemma apply_writes_touched: "k \<in> fst ` set ws \<Longrightarrow> apply_writes m ws k = apply_writes m' ws k"
proof (induction ws rule: rev_induct)
  case (snoc w ws)
  obtain k' v t where "w = (k', v, t)" by (cases w)
  then show ?case using snoc by (auto simp: upd_def)
qed simp

text \<open>Writing a list again, over any prefix of it, gives the same map.\<close>

lemma apply_writes_again: "apply_writes (apply_writes Map.empty ws) (ws @ vs) = apply_writes Map.empty (ws @ vs)"
proof
  fix k
  show "apply_writes (apply_writes Map.empty ws) (ws @ vs) k = apply_writes Map.empty (ws @ vs) k"
  proof (cases "k \<in> fst ` set (ws @ vs)")
    case True
    then show ?thesis by (rule apply_writes_touched)
  next
    case False
    then have "k \<notin> fst ` set ws" by auto
    then show ?thesis using apply_writes_untouched [OF False] by (simp add: apply_writes_untouched)
  qed
qed

text \<open>
  C26. The state machine can run with \<open>SyncWAL\<close> off.  After a machine applied a log and its process
  crashed, keeping any part of the unsynced engine log, the engine opens again, and applying the log
  from the start, whatever was committed since at its end, gives the state of a machine that applied
  it once: the stale contents that the engine kept do no harm.
\<close>

theorem restart_converges:
  assumes "OpenEngine all_ok rand empty_disk opts = Some (Inr e0)"
    and "\<forall>c \<in> set (cs @ ds). cmd_fits c" "sum_list (map cmd_size (cs @ ds)) < 2 ^ 33" "length cs < 2 ^ 62"
  shows "\<exists>sm. sm_run (newStateMachine e0) cs = Some sm \<and>
    (\<forall>n cuts rand' opts'. \<exists>e' sm'. OpenEngine all_ok rand' (crash_disk (sm_engine sm) n cuts) opts' = Some (Inr e') \<and>
       sm_run (newStateMachine e') (cs @ ds) = Some sm' \<and> sm_abs sm' = kv_run (Map.empty, Map.empty) (cs @ ds))"
proof -
  let ?ops = "log_ops Map.empty cs"
  have "next_fits e0 (2 * length cs)" using hist_empty(3) [OF assms(1)] assms(4) by (simp add: next_fits_def)
  then obtain sm where sm: "sm_run (newStateMachine e0) cs = Some sm" "hist ?ops (sm_engine sm)"
      "eng_size (sm_engine sm) \<le> sum_list (map cmd_size cs)"
    using sm_run_hist [of "[]" "newStateMachine e0" cs] hist_empty(1) [OF assms(1)] OpenEngine_empty(4) [OF assms(1)] assms(2,3)
    by (auto simp: newStateMachine_def)
  have ops: "sum_list (map op_size (log_ops ls cs)) \<le> sum_list (map cmd_size cs)" if "\<forall>c \<in> set cs. cmd_fits c" for ls
    using that
  proof (induction cs arbitrary: ls)
    case (Cons c cs)
    then show ?case
      using cmd_op_fits(3) [of c] by (auto split: option.splits intro: add_mono trans_le_add2)
  qed simp
  have "\<exists>e' sm'. OpenEngine all_ok rand' (crash_disk (sm_engine sm) n cuts) opts' = Some (Inr e') \<and>
       sm_run (newStateMachine e') (cs @ ds) = Some sm' \<and> sm_abs sm' = kv_run (Map.empty, Map.empty) (cs @ ds)" for n cuts rand' opts'
  proof -
    obtain e' ops' ops'' where e': "OpenEngine all_ok rand' (crash_disk (sm_engine sm) n cuts) opts' = Some (Inr e')"
        "?ops = ops' @ ops''" "e_map e' = map_after ops'" "eng_ok e'" "clean e'"
        "eng_size e' \<le> eng_size (sm_engine sm) + sum_list (map op_size ?ops)"
      using hist_recover [OF sm(2)] by blast
    have "eng_size e' + sum_list (map cmd_size (cs @ ds)) < 2 ^ 35"
      using e'(6) sm(3) ops [of Map.empty] assms(2,3) by simp
    then obtain sm' where sm': "sm_run (newStateMachine e') (cs @ ds) = Some sm'"
        "sm_abs sm' = kv_run (e_map e', Map.empty) (cs @ ds)"
      using sm_run_clean [of "newStateMachine e'" "cs @ ds"] e'(4,5) assms(2) by (auto simp: newStateMachine_def sm_abs_def)
    have "kv_run (e_map e', Map.empty) (cs @ ds) = kv_run (Map.empty, Map.empty) (cs @ ds)"
      unfolding kv_run_ops log_append e'(2,3) map_after_def
      by (simp add: apply_writes_again [of "writes ops'" "writes ops'' @ writes (log_ops (log_marks Map.empty cs) ds)", simplified])
    then show ?thesis using e'(1) sm' by auto
  qed
  then show ?thesis using sm(1) by blast
qed

theorem restart_converges_witness:
  "let c1 = \<lparr>c_Op = str ''put'', c_Key = str ''x'', c_Value = str ''1'', c_ClientID = str ''A'', c_Seq = 1\<rparr>;
       c2 = \<lparr>c_Op = str ''delete'', c_Key = str ''x'', c_Value = [], c_ClientID = str ''A'', c_Seq = 2\<rparr>;
       o1 = \<lparr>FlushSize = 1000, SyncWAL = False\<rparr> in
   \<exists>e0 sm e' sm'. OpenEngine all_ok [] empty_disk o1 = Some (Inr e0) \<and> sm_run (newStateMachine e0) [c1] = Some sm \<and>
     OpenEngine all_ok [] (crash_disk (sm_engine sm) 5 (\<lambda>_. 0)) o1 = Some (Inr e') \<and>
     sm_run (newStateMachine e') [c1, c2] = Some sm' \<and> sm_abs sm' = (Map.empty, [str ''A'' \<mapsto> 2])"
proof -
  let ?c1 = "\<lparr>c_Op = str ''put'', c_Key = str ''x'', c_Value = str ''1'', c_ClientID = str ''A'', c_Seq = 1\<rparr>"
  let ?c2 = "\<lparr>c_Op = str ''delete'', c_Key = str ''x'', c_Value = [], c_ClientID = str ''A'', c_Seq = 2\<rparr>"
  let ?o = "\<lparr>FlushSize = 1000, SyncWAL = False\<rparr>"
  obtain e0 where e0: "OpenEngine all_ok [] empty_disk ?o = Some (Inr e0)"
    by (auto simp: OpenEngine_def empty_disk_def table_names_def ReplayWAL_def OpenWAL_def numeral_2_eq_2)
  have f: "\<forall>c \<in> set ([?c1] @ [?c2]). cmd_fits c" "sum_list (map cmd_size ([?c1] @ [?c2])) < 2 ^ 33" "length [?c1] < 2 ^ 62"
    by (simp_all add: cmd_fits_def cmd_size_def str_def)
  obtain sm where sm: "sm_run (newStateMachine e0) [?c1] = Some sm"
    "\<And>n cuts rand' opts'. \<exists>e' sm'. OpenEngine all_ok rand' (crash_disk (sm_engine sm) n cuts) opts' = Some (Inr e') \<and>
       sm_run (newStateMachine e') ([?c1] @ [?c2]) = Some sm' \<and> sm_abs sm' = kv_run (Map.empty, Map.empty) ([?c1] @ [?c2])"
    using restart_converges [OF e0 f] by blast
  obtain e' sm' where e': "OpenEngine all_ok [] (crash_disk (sm_engine sm) 5 (\<lambda>_. 0)) ?o = Some (Inr e')"
      "sm_run (newStateMachine e') ([?c1] @ [?c2]) = Some sm'" "sm_abs sm' = kv_run (Map.empty, Map.empty) ([?c1] @ [?c2])"
    using sm(2) [of "[]" 5 "\<lambda>_. 0" ?o] by blast
  have "\<not> (2 :: u64) \<le> 1" by (simp add: word_le_nat_alt)
  then have "kv_run (Map.empty, Map.empty) ([?c1] @ [?c2]) = (Map.empty, [str ''A'' \<mapsto> 2])"
    by (simp add: kv_step_def is_dup_def seq_of_def cmd_op_def apply_writes_def upd_def mark_def str_def fun_eq_iff)
  then show ?thesis using e0 sm(1) e' unfolding Let_def append.simps by metis
qed

section \<open>Snapshots\<close>

text \<open>An encoding of one snapshot and one command that satisfies the laws.\<close>

definition sample_gob :: "snapshotState \<Rightarrow> KvCommand \<Rightarrow> gob" where
  "sample_gob s c =
     \<lparr>gob_enc_command = (\<lambda>c'. if c' = c then Some [1] else None), gob_dec_command = (\<lambda>b. if b = [1] then Some c else None),
      gob_enc_snapshot = (\<lambda>s'. if s' = s then Some [1] else None), gob_dec_snapshot = (\<lambda>b. if b = [1] then Some s else None)\<rparr>"

lemma sample_gob_ok: "gob_ok (sample_gob s c)"
  by (simp add: gob_ok_def sample_gob_def same_snapshot_def)



end
