(* ===== verification/Transport.thy ===== *)
theory Transport
  imports RaftNode
begin

text \<open>
  The gRPC transport between the Raft nodes (src/server/transport.go): the table of peer addresses and
  the cache of connections.  \<open>dial\<close> is \<open>grpc.NewClient\<close>, which returns a lazy connection to an address
  or an error; a stub call on a connection is a parameter of the method that makes it.
\<close>

section \<open>Model\<close>

record 'c grpcTransport =
  tr_addrs :: "u64 \<rightharpoonup> gostring"
  tr_conns :: "u64 \<rightharpoonup> 'c"

datatype tr_err = UnknownPeer u64 | DialError | RpcError

definition newGRPCTransport :: "(u64 \<rightharpoonup> gostring) \<Rightarrow> 'c grpcTransport" where
  "newGRPCTransport addrs = \<lparr>tr_addrs = addrs, tr_conns = Map.empty\<rparr>"

definition SetPeer :: "'c grpcTransport \<Rightarrow> u64 \<Rightarrow> gostring \<Rightarrow> 'c grpcTransport" where
  "SetPeer t i addr = t\<lparr>tr_addrs := (tr_addrs t)(i \<mapsto> addr), tr_conns := (tr_conns t)(i := None)\<rparr>"

definition RemovePeer :: "'c grpcTransport \<Rightarrow> u64 \<Rightarrow> 'c grpcTransport" where
  "RemovePeer t i = t\<lparr>tr_addrs := (tr_addrs t)(i := None), tr_conns := (tr_conns t)(i := None)\<rparr>"

definition Peers :: "'c grpcTransport \<Rightarrow> u64 \<rightharpoonup> gostring" where
  "Peers t = tr_addrs t"

definition tr_client :: "(gostring \<Rightarrow> 'c option) \<Rightarrow> 'c grpcTransport \<Rightarrow> u64 \<Rightarrow> 'c grpcTransport \<times> (tr_err + 'c)" where
  "tr_client dial t peer =
     (case tr_conns t peer of
        Some c \<Rightarrow> (t, Inr c)
      | None \<Rightarrow> (case tr_addrs t peer of
          None \<Rightarrow> (t, Inl (UnknownPeer peer))
        | Some addr \<Rightarrow> (case dial addr of
            None \<Rightarrow> (t, Inl DialError)
          | Some c \<Rightarrow> (t\<lparr>tr_conns := (tr_conns t)(peer \<mapsto> c)\<rparr>, Inr c))))"

text \<open>The four calls; \<open>stub\<close> is the generated client method under the timeout.\<close>

definition tr_RequestVote ::
  "(gostring \<Rightarrow> 'c option) \<Rightarrow> ('c \<Rightarrow> RequestVoteRequest \<Rightarrow> RequestVoteResponse option) \<Rightarrow>
   'c grpcTransport \<Rightarrow> u64 \<Rightarrow> RequestVoteRequest \<Rightarrow> 'c grpcTransport \<times> (tr_err + RequestVoteResponse)" where
  "tr_RequestVote dial stub t peer req =
     (case tr_client dial t peer of
        (t, Inl err) \<Rightarrow> (t, Inl err)
      | (t, Inr c) \<Rightarrow> (t, case stub c req of None \<Rightarrow> Inl RpcError | Some r \<Rightarrow> Inr r))"

definition tr_AppendEntries ::
  "(gostring \<Rightarrow> 'c option) \<Rightarrow> ('c \<Rightarrow> AppendEntriesRequest \<Rightarrow> AppendEntriesResponse option) \<Rightarrow>
   'c grpcTransport \<Rightarrow> u64 \<Rightarrow> AppendEntriesRequest \<Rightarrow> 'c grpcTransport \<times> (tr_err + AppendEntriesResponse)" where
  "tr_AppendEntries dial stub t peer req =
     (case tr_client dial t peer of
        (t, Inl err) \<Rightarrow> (t, Inl err)
      | (t, Inr c) \<Rightarrow> (t, case stub c req of None \<Rightarrow> Inl RpcError | Some r \<Rightarrow> Inr r))"

definition tr_InstallSnapshot ::
  "(gostring \<Rightarrow> 'c option) \<Rightarrow> ('c \<Rightarrow> InstallSnapshotRequest \<Rightarrow> InstallSnapshotResponse option) \<Rightarrow>
   'c grpcTransport \<Rightarrow> u64 \<Rightarrow> InstallSnapshotRequest \<Rightarrow> 'c grpcTransport \<times> (tr_err + InstallSnapshotResponse)" where
  "tr_InstallSnapshot dial stub t peer req =
     (case tr_client dial t peer of
        (t, Inl err) \<Rightarrow> (t, Inl err)
      | (t, Inr c) \<Rightarrow> (t, case stub c req of None \<Rightarrow> Inl RpcError | Some r \<Rightarrow> Inr r))"

definition tr_ReadIndex ::
  "(gostring \<Rightarrow> 'c option) \<Rightarrow> ('c \<Rightarrow> ReadIndexRequest \<Rightarrow> ReadIndexResponse option) \<Rightarrow>
   'c grpcTransport \<Rightarrow> u64 \<Rightarrow> ReadIndexRequest \<Rightarrow> 'c grpcTransport \<times> (tr_err + ReadIndexResponse)" where
  "tr_ReadIndex dial stub t peer req =
     (case tr_client dial t peer of
        (t, Inl err) \<Rightarrow> (t, Inl err)
      | (t, Inr c) \<Rightarrow> (t, case stub c req of None \<Rightarrow> Inl RpcError | Some r \<Rightarrow> Inr r))"

text \<open>The server side passes every request to the local node.\<close>

definition svc_RequestVote :: "env \<Rightarrow> Node \<Rightarrow> RequestVoteRequest \<Rightarrow> (Node \<times> RequestVoteResponse) option" where
  "svc_RequestVote ev n req = HandleRequestVote ev n req"

definition svc_AppendEntries ::
  "codec \<Rightarrow> env \<Rightarrow> Node \<Rightarrow> AppendEntriesRequest \<Rightarrow> (Node \<times> AppendEntriesResponse) option" where
  "svc_AppendEntries pb ev n req = HandleAppendEntries pb ev n req"

definition svc_InstallSnapshot ::
  "codec \<Rightarrow> env \<Rightarrow> Node \<Rightarrow> InstallSnapshotRequest \<Rightarrow> (Node \<times> InstallSnapshotResponse \<times> effect list) option" where
  "svc_InstallSnapshot pb ev n req = HandleInstallSnapshot pb ev n req"

definition svc_ReadIndex :: "env \<Rightarrow> Node \<Rightarrow> ReadIndexRequest \<Rightarrow> (Node \<times> ReadIndexResponse) option" where
  "svc_ReadIndex ev n req = HandleReadIndex ev n req"

section \<open>Connections follow the addresses\<close>

text \<open>The operations on a transport.\<close>

datatype tr_op = TrSet u64 gostring | TrRemove u64 | TrClient u64

fun tr_exec :: "(gostring \<Rightarrow> 'c option) \<Rightarrow> 'c grpcTransport \<Rightarrow> tr_op \<Rightarrow> 'c grpcTransport" where
  "tr_exec dial t (TrSet i addr) = SetPeer t i addr"
| "tr_exec dial t (TrRemove i) = RemovePeer t i"
| "tr_exec dial t (TrClient i) = fst (tr_client dial t i)"

text \<open>The address a peer was last given.\<close>

fun tr_addr :: "(u64 \<rightharpoonup> gostring) \<Rightarrow> tr_op \<Rightarrow> u64 \<rightharpoonup> gostring" where
  "tr_addr a (TrSet i addr) = a(i \<mapsto> addr)"
| "tr_addr a (TrRemove i) = a(i := None)"
| "tr_addr a (TrClient i) = a"

definition conns_current :: "(gostring \<Rightarrow> 'c option) \<Rightarrow> 'c grpcTransport \<Rightarrow> bool" where
  "conns_current dial t \<longleftrightarrow> (\<forall>i c. tr_conns t i = Some c \<longrightarrow> (\<exists>addr. tr_addrs t i = Some addr \<and> dial addr = Some c))"

lemma tr_exec_current:
  assumes "conns_current dial t"
  shows "conns_current dial (tr_exec dial t op)" "tr_addrs (tr_exec dial t op) = tr_addr (tr_addrs t) op"
  using assms by (cases op; auto simp: conns_current_def SetPeer_def RemovePeer_def tr_client_def split: option.splits)+

text \<open>
  C38. A call always goes to the current address of the peer.  After any sequence of address changes,
  removals and earlier calls, \<open>client\<close> returns a connection to the address the peer was last given,
  or reports that the peer is unknown or that the address cannot be dialled.
\<close>

theorem client_follows_address:
  "snd (tr_client dial (foldl (tr_exec dial) (newGRPCTransport addrs) ops) peer) =
     (case foldl tr_addr addrs ops peer of
        None \<Rightarrow> Inl (UnknownPeer peer)
      | Some addr \<Rightarrow> (case dial addr of None \<Rightarrow> Inl DialError | Some c \<Rightarrow> Inr c))"
proof -
  have inv: "conns_current dial (foldl (tr_exec dial) t ops) \<and>
      tr_addrs (foldl (tr_exec dial) t ops) = foldl tr_addr (tr_addrs t) ops" if "conns_current dial t" for t
    using that by (induction ops arbitrary: t) (simp_all add: tr_exec_current)
  let ?t = "foldl (tr_exec dial) (newGRPCTransport addrs) ops"
  have "conns_current dial ?t" "tr_addrs ?t = foldl tr_addr addrs ops"
    using inv [of "newGRPCTransport addrs"] by (auto simp: newGRPCTransport_def conns_current_def)
  then show ?thesis
    by (cases "tr_conns ?t peer") (force simp: tr_client_def conns_current_def split: option.splits)+
qed

end
