(* ===== verification/Server.thy ===== *)
theory Server
  imports RaftReplication StateMachine Transport
begin

text \<open>
  The server process (src/server/server.go, src/server/membership.go and the collector of
  src/server/metrics.go): it feeds the entries that the Raft node commits to the state machine and lets
  the RPC handlers wait for them.  A handler blocks in a \<open>select\<close>; it is modelled by the function up
  to the \<open>select\<close> and the function from the branch that fires.  A channel is a number, its buffer of
  capacity one a field of the server.
\<close>

section \<open>Model\<close>

subsection \<open>Requests and errors\<close>

record PutRequest =
  pr_Key :: gostring
  pr_Value :: bytes
  pr_ClientId :: gostring
  pr_Seq :: u64

record DeleteRequest =
  dr_Key :: gostring
  dr_ClientId :: gostring
  dr_Seq :: u64

record StatusResponse =
  sr_NodeId :: u64
  sr_IsLeader :: bool
  sr_LeaderId :: u64
  sr_Term :: u64
  sr_CommitIndex :: u64
  sr_AppliedIndex :: u64

record AddMemberRequest =
  am_Id :: u64
  am_RaftAddr :: gostring

record MemberInfo =
  mi_Id :: u64
  mi_RaftAddr :: gostring
  mi_Voting :: bool

record ListMembersResponse =
  lm_Members :: "MemberInfo list"
  lm_InJoint :: bool

text \<open>The status errors of the handlers.\<close>

datatype rpc_err = NotLeader u64 | Internal sm_err | CtxDeadline | CommitTimeout | ApplyLag
  | IdRequired | RemoveSelf | LastVoter

subsection \<open>State\<close>

record waitResult =
  wt_term :: u64
  wt_err :: "sm_err option"

record 'c Server =
  s_ID :: u64
  s_node :: Node
  s_sm :: stateMachine
  s_waiters :: "u64 \<rightharpoonup> nat"
  s_chans :: "nat \<Rightarrow> waitResult option"
  s_nextChan :: nat
  s_applied :: u64
  s_sinceSnap :: int
  s_transport :: "'c grpcTransport option"

definition SnapshotThreshold :: int where "SnapshotThreshold = 10000"

text \<open>Go visits the map \<open>Peers\<close> in some order: \<open>o_order\<close> lists its keys in that order.\<close>

record Options =
  o_ID :: u64
  o_Peers :: "u64 \<rightharpoonup> gostring"
  o_order :: "u64 list"
  o_BootstrapIDs :: "u64 list"

datatype new_err = NewEngine eng_err | NewStore store_err | NewRestore sm_err

definition New :: "codec \<Rightarrow> gob \<Rightarrow> sst_io \<Rightarrow> bool list \<Rightarrow> engine_disk \<Rightarrow> bool list \<Rightarrow> raftdir \<Rightarrow> env \<Rightarrow> Options \<Rightarrow>
    (new_err + 'c Server) option" where
  "New pb g eio rand edisk rio rdir ev opts =
     (case OpenEngine eio rand edisk \<lparr>FlushSize = 4 * 2 ^ 20, SyncWAL = False\<rparr> of
        None \<Rightarrow> None
      | Some (Inl err) \<Rightarrow> Some (Inl (NewEngine err))
      | Some (Inr engine) \<Rightarrow>
          let sm = newStateMachine engine;
              peerIDs = (if o_BootstrapIDs opts = [] then o_order opts else o_BootstrapIDs opts);
              transport = newGRPCTransport (o_Peers opts) in
          (case NewNode pb rio rdir ev \<lparr>cfg_ID = o_ID opts, cfg_Peers = peerIDs, cfg_Addrs = o_Peers opts,
                  ElectionTimeoutMin = 0, ElectionTimeoutMax = 0, HeartbeatInterval = 0\<rparr> of
             None \<Rightarrow> None
           | Some (Inl err) \<Rightarrow> (case eng_Close engine of None \<Rightarrow> None | Some _ \<Rightarrow> Some (Inl (NewStore err)))
           | Some (Inr node) \<Rightarrow>
               let s = \<lparr>s_ID = o_ID opts, s_node = node, s_sm = sm, s_waiters = Map.empty, s_chans = (\<lambda>_. None),
                        s_nextChan = 0, s_applied = 0, s_sinceSnap = 0, s_transport = Some transport\<rparr>;
                   (snap, idx, _) = ReadSnapshot node in
               if idx > 0 then
                 (case sm_restore g sm snap of
                    None \<Rightarrow> None
                  | Some (_, Some err) \<Rightarrow> Some (Inl (NewRestore err))
                  | Some (sm, None) \<Rightarrow> Some (Inr (s\<lparr>s_sm := sm, s_applied := idx\<rparr>)))
               else Some (Inr s)))"

subsection \<open>Applying committed entries\<close>

text \<open>A send on a channel whose buffer is full blocks.\<close>

datatype 'a outcome = Ran 'a | Blocked | Panicked

definition reply :: "'c Server \<Rightarrow> u64 \<Rightarrow> waitResult \<Rightarrow> 'c Server outcome" where
  "reply s index res =
     (case s_waiters s index of
        None \<Rightarrow> Ran s
      | Some ch \<Rightarrow>
          if s_chans s ch \<noteq> None then Blocked
          else Ran (s\<lparr>s_chans := (s_chans s)(ch := Some res), s_waiters := (s_waiters s)(index := None)\<rparr>))"

definition onConfChangeApplied :: "'c Server \<Rightarrow> ConfChange option \<Rightarrow> 'c Server option" where
  "onConfChangeApplied s cc =
     (case s_transport s of
        None \<Rightarrow> Some s
      | Some t \<Rightarrow> (case cc of
          None \<Rightarrow> None
        | Some cc \<Rightarrow>
            if cc_Type cc = CONF_CHANGE_ADD_NODE then
              (if cc_Context cc \<noteq> [] then Some (s\<lparr>s_transport := Some (SetPeer t (cc_NodeId cc) (cc_Context cc))\<rparr>)
               else Some s)
            else if cc_Type cc = CONF_CHANGE_REMOVE_NODE then
              Some (s\<lparr>s_transport := Some (RemovePeer t (cc_NodeId cc))\<rparr>)
            else Some s))"

text \<open>The command branch: decode, apply, count, answer, and take a snapshot when it is due.\<close>

definition run_command :: "gob \<Rightarrow> stateMachine \<Rightarrow> bytes \<Rightarrow> (stateMachine \<times> sm_err option) option" where
  "run_command g sm b =
     (if b = [] then Some (sm, None)
      else case decodeCommand g b of Inl err \<Rightarrow> Some (sm, Some err) | Inr c \<Rightarrow> sm_apply sm c)"

definition take_snapshot :: "codec \<Rightarrow> gob \<Rightarrow> 'c Server \<Rightarrow> u64 \<Rightarrow> 'c Server outcome" where
  "take_snapshot pb g s index =
     (case sm_snapshot g (s_sm s) of
        None \<Rightarrow> Panicked
      | Some (sm, Inl _) \<Rightarrow> Ran (s\<lparr>s_sm := sm\<rparr>)
      | Some (sm, Inr data) \<Rightarrow>
          (case Snapshot pb (s_node s) index data of
             None \<Rightarrow> Panicked
           | Some (n, _) \<Rightarrow> Ran (s\<lparr>s_sm := sm, s_node := n\<rparr>)))"

definition applyLoop_step :: "codec \<Rightarrow> gob \<Rightarrow> 'c Server \<Rightarrow> ApplyMsg \<Rightarrow> 'c Server outcome" where
  "applyLoop_step pb g s msg =
     (if SnapshotValid msg then
        (case sm_restore g (s_sm s) (am_Snapshot msg) of
           None \<Rightarrow> Panicked
         | Some (sm, Some _) \<Rightarrow> Ran (s\<lparr>s_sm := sm\<rparr>)
         | Some (sm, None) \<Rightarrow> Ran (s\<lparr>s_sm := sm, s_applied := SnapshotIndex msg\<rparr>))
      else if ConfChangeValid msg then
        (case onConfChangeApplied s (am_ConfChange msg) of
           None \<Rightarrow> Panicked
         | Some s \<Rightarrow> reply (s\<lparr>s_applied := ConfChangeIndex msg\<rparr>) (ConfChangeIndex msg)
                       \<lparr>wt_term = ConfChangeTerm msg, wt_err = None\<rparr>)
      else if CommandValid msg then
        (case run_command g (s_sm s) (Command msg) of
           None \<Rightarrow> Panicked
         | Some (sm, applyErr) \<Rightarrow>
             let s = s\<lparr>s_sm := sm, s_applied := CommandIndex msg, s_sinceSnap := s_sinceSnap s + 1\<rparr>;
                 needSnap = (s_sinceSnap s \<ge> SnapshotThreshold);
                 s = (if needSnap then s\<lparr>s_sinceSnap := 0\<rparr> else s) in
             (case reply s (CommandIndex msg) \<lparr>wt_term = CommandTerm msg, wt_err = applyErr\<rparr> of
                Ran s \<Rightarrow> if needSnap then take_snapshot pb g s (CommandIndex msg) else Ran s
              | Blocked \<Rightarrow> Blocked
              | Panicked \<Rightarrow> Panicked))
      else Ran s)"

fun applyLoop :: "codec \<Rightarrow> gob \<Rightarrow> 'c Server \<Rightarrow> ApplyMsg list \<Rightarrow> 'c Server outcome" where
  "applyLoop pb g s [] = Ran s"
| "applyLoop pb g s (m # ms) =
     (case applyLoop_step pb g s m of Ran s' \<Rightarrow> applyLoop pb g s' ms | Blocked \<Rightarrow> Blocked | Panicked \<Rightarrow> Panicked)"

subsection \<open>Proposals\<close>

definition notLeaderErr :: "'c Server \<Rightarrow> rpc_err" where
  "notLeaderErr s = NotLeader (snd (snd (Status (s_node s))))"

text \<open>A proposal up to its place in the log: the index and the term, or an error.\<close>

definition propose_start :: "codec \<Rightarrow> gob \<Rightarrow> 'c Server \<Rightarrow> KvCommand \<Rightarrow> ('c Server \<times> (rpc_err + u64 \<times> u64)) option" where
  "propose_start pb g s cmd =
     (case encodeCommand g cmd of
        Inl err \<Rightarrow> Some (s, Inl (Internal err))
      | Inr data \<Rightarrow>
          (case Propose pb (s_node s) data of
             None \<Rightarrow> None
           | Some (n, Inl _) \<Rightarrow> let s = s\<lparr>s_node := n\<rparr> in Some (s, Inl (notLeaderErr s))
           | Some (n, Inr it) \<Rightarrow> Some (s\<lparr>s_node := n\<rparr>, Inr it)))"

record Call =
  cl_index :: u64
  cl_term :: u64
  cl_chan :: nat

definition register :: "'c Server \<Rightarrow> u64 \<times> u64 \<Rightarrow> 'c Server \<times> Call" where
  "register s it =
     (s\<lparr>s_waiters := (s_waiters s)(fst it \<mapsto> s_nextChan s), s_chans := (s_chans s)(s_nextChan s := None),
        s_nextChan := s_nextChan s + 1\<rparr>,
      \<lparr>cl_index = fst it, cl_term = snd it, cl_chan = s_nextChan s\<rparr>)"

text \<open>The branch of the \<open>select\<close> that fires, followed by the deferred removal of the waiter.  \<open>None\<close> when
  that branch is not ready.\<close>

datatype wake = Received | Cancelled | Elapsed

definition propose_finish :: "'c Server \<Rightarrow> Call \<Rightarrow> wake \<Rightarrow> ('c Server \<times> rpc_err option) option" where
  "propose_finish s call w =
     (let s' = s\<lparr>s_waiters := (s_waiters s)(cl_index call := None)\<rparr> in
      case w of
        Received \<Rightarrow>
          (case s_chans s (cl_chan call) of
             None \<Rightarrow> None
           | Some res \<Rightarrow> Some (s'\<lparr>s_chans := (s_chans s)(cl_chan call := None)\<rparr>,
               if wt_term res \<noteq> cl_term call then Some (notLeaderErr s)
               else case wt_err res of Some err \<Rightarrow> Some (Internal err) | None \<Rightarrow> None))
      | Cancelled \<Rightarrow> Some (s', Some CtxDeadline)
      | Elapsed \<Rightarrow> Some (s', Some CommitTimeout))"

definition srv_Put :: "codec \<Rightarrow> gob \<Rightarrow> 'c Server \<Rightarrow> PutRequest \<Rightarrow> ('c Server \<times> (rpc_err + u64 \<times> u64)) option" where
  "srv_Put pb g s req =
     propose_start pb g s \<lparr>c_Op = str ''put'', c_Key = pr_Key req, c_Value = pr_Value req,
       c_ClientID = pr_ClientId req, c_Seq = pr_Seq req\<rparr>"

definition srv_Delete :: "codec \<Rightarrow> gob \<Rightarrow> 'c Server \<Rightarrow> DeleteRequest \<Rightarrow> ('c Server \<times> (rpc_err + u64 \<times> u64)) option" where
  "srv_Delete pb g s req =
     propose_start pb g s \<lparr>c_Op = str ''delete'', c_Key = dr_Key req, c_Value = [],
       c_ClientID = dr_ClientId req, c_Seq = dr_Seq req\<rparr>"

subsection \<open>Reads and status\<close>

text \<open>A read: the call of \<open>ReadIndex\<close>, its return, and one round of the loop that waits for the state
  machine, where \<open>late\<close> says that the deadline has passed and \<open>cancelled\<close> which branch of the \<open>select\<close>
  fires.\<close>

definition Get_start :: "'c Server \<Rightarrow> rpc_err + ReadOp \<times> effect list" where
  "Get_start s = (case ReadIndex (s_node s) of Inl _ \<Rightarrow> Inl (notLeaderErr s) | Inr r \<Rightarrow> Inr r)"

definition Get_index :: "'c Server \<Rightarrow> ReadOp \<Rightarrow> wakeup \<Rightarrow> (rpc_err + u64) option" where
  "Get_index s op w =
     map_option (\<lambda>r. case r of Inl _ \<Rightarrow> Inl (notLeaderErr s) | Inr i \<Rightarrow> Inr i) (ReadIndex_return (s_node s) op w)"

datatype poll = PollDone "rpc_err + bytes option" | PollAgain

definition Get_poll :: "'c Server \<Rightarrow> u64 \<Rightarrow> gostring \<Rightarrow> bool \<Rightarrow> bool \<Rightarrow> ('c Server \<times> poll) option" where
  "Get_poll s readIdx key late cancelled =
     (if s_applied s \<ge> readIdx then
        (case sm_get (s_sm s) key of
           None \<Rightarrow> None
         | Some (sm, Inl err) \<Rightarrow> Some (s\<lparr>s_sm := sm\<rparr>, PollDone (Inl (Internal err)))
         | Some (sm, Inr v) \<Rightarrow> Some (s\<lparr>s_sm := sm\<rparr>, PollDone (Inr v)))
      else if late then Some (s, PollDone (Inl ApplyLag))
      else if cancelled then Some (s, PollDone (Inl CtxDeadline))
      else Some (s, PollAgain))"

definition srv_Status :: "'c Server \<Rightarrow> StatusResponse" where
  "srv_Status s = (case Status (s_node s) of (t, isLeader, leaderID) \<Rightarrow>
     \<lparr>sr_NodeId = s_ID s, sr_IsLeader = isLeader, sr_LeaderId = leaderID, sr_Term = t,
      sr_CommitIndex = CommitIndex (s_node s), sr_AppliedIndex = s_applied s\<rparr>)"

definition srv_Stop :: "'c Server \<Rightarrow> 'c Server option" where
  "srv_Stop s = map_option (\<lambda>n. s\<lparr>s_node := n\<rparr>) (Stop (s_node s))"

subsection \<open>Membership\<close>

definition AddMember :: "AddMemberRequest \<Rightarrow> rpc_err + ConfChange" where
  "AddMember req =
     (if am_Id req = 0 \<or> am_RaftAddr req = [] then Inl IdRequired
      else Inr \<lparr>cc_Type = CONF_CHANGE_ADD_NODE, cc_NodeId = am_Id req, cc_Context = am_RaftAddr req\<rparr>)"

definition RemoveMember :: "'c Server \<Rightarrow> u64 \<Rightarrow> rpc_err + ConfChange" where
  "RemoveMember s i =
     (if i = 0 then Inl IdRequired
      else if i = s_ID s then Inl RemoveSelf
      else if fcard (Voters (node_ConfState (s_node s))) \<le> 1 then Inl LastVoter
      else Inr \<lparr>cc_Type = CONF_CHANGE_REMOVE_NODE, cc_NodeId = i, cc_Context = []\<rparr>)"

definition ListMembers :: "'c Server \<Rightarrow> ListMembersResponse" where
  "ListMembers s =
     (let conf = node_ConfState (s_node s); addrs = MemberAddrs (s_node s) in
      \<lparr>lm_Members = map (\<lambda>i. \<lparr>mi_Id = i, mi_RaftAddr = (case addrs i of None \<Rightarrow> [] | Some a \<Rightarrow> a), mi_Voting = True\<rparr>)
         (VoterIDs conf),
       lm_InJoint = InJoint conf\<rparr>)"

definition proposeConfChange_start :: "codec \<Rightarrow> 'c Server \<Rightarrow> ConfChange \<Rightarrow> ('c Server \<times> (rpc_err + u64 \<times> u64)) option" where
  "proposeConfChange_start pb s cc =
     (case ProposeConfChange pb (s_node s) cc of
        None \<Rightarrow> None
      | Some (n, Inl _) \<Rightarrow> let s = s\<lparr>s_node := n\<rparr> in Some (s, Inl (notLeaderErr s))
      | Some (n, Inr it) \<Rightarrow> Some (s\<lparr>s_node := n\<rparr>, Inr it))"

definition leaveJoint :: ConfChange where
  "leaveJoint = \<lparr>cc_Type = CONF_CHANGE_LEAVE_JOINT, cc_NodeId = 0, cc_Context = []\<rparr>"

text \<open>What \<open>changeMembership\<close> does when the first proposal has returned: it returns, or proposes the end
  of the joint configuration.\<close>

definition changeMembership_next :: "ConfChange \<Rightarrow> rpc_err option \<Rightarrow> rpc_err option + ConfChange" where
  "changeMembership_next cc r =
     (if r \<noteq> None then Inl r
      else if cc_Type cc = CONF_CHANGE_LEAVE_JOINT then Inl None
      else Inr leaveJoint)"

subsection \<open>Metrics\<close>

record gauges =
  g_isLeader :: nat
  g_term :: u64
  g_commit :: u64
  g_applied :: u64
  g_lag :: u64
  g_leaderID :: u64

text \<open>One tick of the collector: the gauges, the increment of the election counter, and the new value of
  \<open>wasLeader\<close>.\<close>

definition collect :: "'c Server \<Rightarrow> bool \<Rightarrow> gauges \<times> nat \<times> bool" where
  "collect s wasLeader =
     (case Status (s_node s) of (t, isL, lid) \<Rightarrow>
      let commit = CommitIndex (s_node s); applied = s_applied s in
      (\<lparr>g_isLeader = (if isL then 1 else 0), g_term = t, g_commit = commit, g_applied = applied,
        g_lag = (if commit \<ge> applied then commit - applied else 0), g_leaderID = lid\<rparr>,
       if isL \<and> \<not> wasLeader then 1 else 0, isL))"

end
