(* ===== verification/ServerFacts.thy ===== *)
theory ServerFacts
  imports Server
begin

text \<open>
  What the server guarantees: its apply loop never blocks, a positive answer means that the proposed
  position of the log was applied, a waiting call is answered, and after the committed entries went
  through the loop the state machine is their replay.
\<close>

section \<open>Waiters\<close>

text \<open>Every registered channel is empty and registered once.\<close>

definition waiters_ok :: "'c Server \<Rightarrow> bool" where
  "waiters_ok s \<longleftrightarrow> (\<forall>i ch. s_waiters s i = Some ch \<longrightarrow> s_chans s ch = None \<and> ch < s_nextChan s) \<and>
     (\<forall>i j ch. s_waiters s i = Some ch \<longrightarrow> s_waiters s j = Some ch \<longrightarrow> i = j)"

text \<open>The part of a server that the handlers share with the apply loop.\<close>

definition waiting :: "'c Server \<Rightarrow> (u64 \<rightharpoonup> nat) \<times> (nat \<Rightarrow> waitResult option) \<times> nat" where
  "waiting s = (s_waiters s, s_chans s, s_nextChan s)"

lemma waiters_ok_cong: "waiting s' = waiting s \<Longrightarrow> waiters_ok s' = waiters_ok s"
  by (simp add: waiters_ok_def waiting_def)

definition answered :: "'c Server \<Rightarrow> u64 \<Rightarrow> waitResult \<Rightarrow> (u64 \<rightharpoonup> nat) \<times> (nat \<Rightarrow> waitResult option) \<times> nat" where
  "answered s i res = (case s_waiters s i of None \<Rightarrow> waiting s
     | Some ch \<Rightarrow> ((s_waiters s)(i := None), (s_chans s)(ch := Some res), s_nextChan s))"

lemma answered_cong: "waiting s' = waiting s \<Longrightarrow> answered s' i res = answered s i res"
  by (simp add: answered_def waiting_def split: option.split)

lemma reply_ok:
  assumes "waiters_ok s"
  shows "\<exists>s'. reply s i res = Ran s' \<and> waiting s' = answered s i res \<and> s_sm s' = s_sm s \<and> s_applied s' = s_applied s \<and>
    s_sinceSnap s' = s_sinceSnap s \<and> s_node s' = s_node s"
  using assms by (cases "s_waiters s i") (simp_all add: reply_def answered_def waiting_def waiters_ok_def)

text \<open>What a message answers: the index, the term, and the error of the command.\<close>

definition event :: "gob \<Rightarrow> stateMachine \<Rightarrow> ApplyMsg \<Rightarrow> (u64 \<times> waitResult) option" where
  "event g sm msg =
     (if SnapshotValid msg then None
      else if ConfChangeValid msg then Some (ConfChangeIndex msg, \<lparr>wt_term = ConfChangeTerm msg, wt_err = None\<rparr>)
      else if CommandValid msg then
        map_option (\<lambda>(sm', err). (CommandIndex msg, \<lparr>wt_term = CommandTerm msg, wt_err = err\<rparr>)) (run_command g sm (Command msg))
      else None)"

definition msg_index :: "ApplyMsg \<Rightarrow> u64 option" where
  "msg_index msg =
     (if SnapshotValid msg then None else if ConfChangeValid msg then Some (ConfChangeIndex msg)
      else if CommandValid msg then Some (CommandIndex msg) else None)"

lemma onConf_frame:
  assumes "onConfChangeApplied s cc = Some s'"
  shows "waiting s' = waiting s" "s_sm s' = s_sm s" "s_applied s' = s_applied s" "s_sinceSnap s' = s_sinceSnap s"
    "s_node s' = s_node s"
  using assms by (auto simp: onConfChangeApplied_def waiting_def split: option.splits if_splits)

lemma take_snapshot_frame:
  "take_snapshot pb g s i \<noteq> Blocked"
  "take_snapshot pb g s i = Ran s' \<Longrightarrow> waiting s' = waiting s \<and> s_applied s' = s_applied s \<and> s_sinceSnap s' = s_sinceSnap s"
  by (auto simp: take_snapshot_def waiting_def split: option.splits sum.splits)

lemma applyLoop_step_waiting:
  assumes "waiters_ok s"
  shows "applyLoop_step pb g s msg \<noteq> Blocked"
    "applyLoop_step pb g s msg = Ran s' \<Longrightarrow>
       waiting s' = (case event g (s_sm s) msg of None \<Rightarrow> waiting s | Some (i, res) \<Rightarrow> answered s i res)"
proof -
  consider (snap) "SnapshotValid msg" | (conf) "\<not> SnapshotValid msg" "ConfChangeValid msg"
    | (cmd) "\<not> SnapshotValid msg" "\<not> ConfChangeValid msg" "CommandValid msg"
    | (none) "\<not> SnapshotValid msg" "\<not> ConfChangeValid msg" "\<not> CommandValid msg" by blast
  then have "applyLoop_step pb g s msg \<noteq> Blocked \<and> (applyLoop_step pb g s msg = Ran s' \<longrightarrow>
       waiting s' = (case event g (s_sm s) msg of None \<Rightarrow> waiting s | Some (i, res) \<Rightarrow> answered s i res))"
  proof cases
    case snap
    then show ?thesis by (auto simp: applyLoop_step_def event_def waiting_def split: option.splits)
  next
    case conf
    show ?thesis
    proof (cases "onConfChangeApplied s (am_ConfChange msg)")
      case None
      then show ?thesis using conf by (simp add: applyLoop_step_def)
    next
      case (Some s1)
      let ?s = "s1\<lparr>s_applied := ConfChangeIndex msg\<rparr>"
      have w: "waiting ?s = waiting s" using onConf_frame(1) [OF Some] by (simp add: waiting_def)
      then have "waiters_ok ?s" using assms waiters_ok_cong by blast
      then show ?thesis
        using reply_ok [of ?s "ConfChangeIndex msg" "\<lparr>wt_term = ConfChangeTerm msg, wt_err = None\<rparr>"] conf Some
          answered_cong [OF w]
        by (auto simp: applyLoop_step_def event_def)
    qed
  next
    case cmd
    show ?thesis
    proof (cases "run_command g (s_sm s) (Command msg)")
      case None
      then show ?thesis using cmd by (simp add: applyLoop_step_def)
    next
      case (Some r)
      obtain sm err where r: "r = (sm, err)" by (cases r)
      let ?res = "\<lparr>wt_term = CommandTerm msg, wt_err = err\<rparr>"
      let ?s = "s\<lparr>s_sm := sm, s_applied := CommandIndex msg, s_sinceSnap := s_sinceSnap s + 1\<rparr>"
      let ?s' = "if s_sinceSnap ?s \<ge> SnapshotThreshold then ?s\<lparr>s_sinceSnap := 0\<rparr> else ?s"
      have w: "waiting ?s' = waiting s" by (simp add: waiting_def)
      then have "waiters_ok ?s'" using assms waiters_ok_cong by blast
      then obtain s2 where s2: "reply ?s' (CommandIndex msg) ?res = Ran s2" "waiting s2 = answered ?s' (CommandIndex msg) ?res"
        using reply_ok by blast
      have "answered ?s' (CommandIndex msg) ?res = answered s (CommandIndex msg) ?res"
        using answered_cong [OF w] by simp
      then show ?thesis
        using cmd Some r s2 take_snapshot_frame [of pb g s2 "CommandIndex msg"]
        by (auto simp: applyLoop_step_def event_def Let_def)
    qed
  next
    case none
    then show ?thesis by (simp add: applyLoop_step_def event_def)
  qed
  then show "applyLoop_step pb g s msg \<noteq> Blocked"
    "applyLoop_step pb g s msg = Ran s' \<Longrightarrow>
       waiting s' = (case event g (s_sm s) msg of None \<Rightarrow> waiting s | Some (i, res) \<Rightarrow> answered s i res)" by blast+
qed

lemma waiters_ok_answered:
  assumes "waiters_ok s" "waiting s' = answered s i res"
  shows "waiters_ok s'"
  using assms by (cases "s_waiters s i") (auto simp: waiters_ok_def waiting_def answered_def split: if_splits)

lemma applyLoop_step_ok:
  assumes "waiters_ok s" "applyLoop_step pb g s msg = Ran s'"
  shows "waiters_ok s'"
proof (cases "event g (s_sm s) msg")
  case None
  then show ?thesis using applyLoop_step_waiting(2) [OF assms] waiters_ok_cong [of s' s] assms(1) by simp
next
  case (Some e)
  then show ?thesis using applyLoop_step_waiting(2) [OF assms] waiters_ok_answered [OF assms(1)] by (cases e) simp
qed

section \<open>Concurrent handlers\<close>

text \<open>
  The server with its running handlers: proposals that have a place in the log, calls that wait in
  their \<open>select\<close>, and the answers given so far, as a history.  Handlers, apply loop and the other
  goroutines of the Raft node interleave.
\<close>

record 'c sys =
  y_srv :: "'c Server"
  y_proposed :: "(u64 \<times> u64) list"
  y_calls :: "Call list"
  y_done :: "(u64 \<times> waitResult) list"

inductive sys_step :: "codec \<Rightarrow> gob \<Rightarrow> 'c sys \<Rightarrow> 'c sys \<Rightarrow> bool" for pb g where
  propose: "propose_start pb g s cmd = Some (s', Inr it) \<Longrightarrow>
    sys_step pb g \<lparr>y_srv = s, y_proposed = ps, y_calls = cs, y_done = ds\<rparr> \<lparr>y_srv = s', y_proposed = it # ps, y_calls = cs, y_done = ds\<rparr>"
| propose_fails: "propose_start pb g s cmd = Some (s', Inl err) \<Longrightarrow>
    sys_step pb g \<lparr>y_srv = s, y_proposed = ps, y_calls = cs, y_done = ds\<rparr> \<lparr>y_srv = s', y_proposed = ps, y_calls = cs, y_done = ds\<rparr>"
| propose_conf: "proposeConfChange_start pb s cc = Some (s', Inr it) \<Longrightarrow>
    sys_step pb g \<lparr>y_srv = s, y_proposed = ps, y_calls = cs, y_done = ds\<rparr> \<lparr>y_srv = s', y_proposed = it # ps, y_calls = cs, y_done = ds\<rparr>"
| registers: "it \<in> set ps \<Longrightarrow> register s it = (s', c) \<Longrightarrow>
    sys_step pb g \<lparr>y_srv = s, y_proposed = ps, y_calls = cs, y_done = ds\<rparr>
      \<lparr>y_srv = s', y_proposed = remove1 it ps, y_calls = c # cs, y_done = ds\<rparr>"
| finish: "c \<in> set cs \<Longrightarrow> propose_finish s c w = Some (s', r) \<Longrightarrow>
    sys_step pb g \<lparr>y_srv = s, y_proposed = ps, y_calls = cs, y_done = ds\<rparr>
      \<lparr>y_srv = s', y_proposed = ps, y_calls = remove1 c cs, y_done = ds\<rparr>"
| applies: "applyLoop_step pb g s msg = Ran s' \<Longrightarrow>
    sys_step pb g \<lparr>y_srv = s, y_proposed = ps, y_calls = cs, y_done = ds\<rparr>
      \<lparr>y_srv = s', y_proposed = ps, y_calls = cs, y_done = ds @ (case event g (s_sm s) msg of None \<Rightarrow> [] | Some e \<Rightarrow> [e])\<rparr>"
| reads: "Get_poll s i key late cancelled = Some (s', r) \<Longrightarrow>
    sys_step pb g \<lparr>y_srv = s, y_proposed = ps, y_calls = cs, y_done = ds\<rparr> \<lparr>y_srv = s', y_proposed = ps, y_calls = cs, y_done = ds\<rparr>"
| raft: "sys_step pb g \<lparr>y_srv = s, y_proposed = ps, y_calls = cs, y_done = ds\<rparr>
      \<lparr>y_srv = s\<lparr>s_node := n\<rparr>, y_proposed = ps, y_calls = cs, y_done = ds\<rparr>"

definition sys_init :: "'c Server \<Rightarrow> 'c sys" where
  "sys_init s = \<lparr>y_srv = s, y_proposed = [], y_calls = [], y_done = []\<rparr>"

text \<open>A result in the channel of a call is the answer to its index.\<close>

definition calls_ok :: "'c Server \<Rightarrow> Call list \<Rightarrow> (u64 \<times> waitResult) list \<Rightarrow> bool" where
  "calls_ok s cs ds \<longleftrightarrow> waiters_ok s \<and> distinct (map cl_chan cs) \<and>
     (\<forall>c \<in> set cs. cl_chan c < s_nextChan s \<and>
        (\<forall>i. s_waiters s i = Some (cl_chan c) \<longrightarrow> i = cl_index c) \<and>
        (\<forall>res. s_chans s (cl_chan c) = Some res \<longrightarrow> (cl_index c, res) \<in> set ds))"

lemma calls_ok_cong: "waiting s' = waiting s \<Longrightarrow> calls_ok s' cs ds = calls_ok s cs ds"
  by (simp add: calls_ok_def waiters_ok_def waiting_def)

lemma start_waiting:
  "propose_start pb g s cmd = Some (s', r) \<Longrightarrow> waiting s' = waiting s"
  "proposeConfChange_start pb s cc = Some (s', r) \<Longrightarrow> waiting s' = waiting s"
  "Get_poll s i key late cancelled = Some (s', p) \<Longrightarrow> waiting s' = waiting s"
  by (auto simp: propose_start_def proposeConfChange_start_def Get_poll_def waiting_def Let_def
      split: sum.splits option.splits if_splits)

lemma register_calls:
  assumes "calls_ok s cs ds" "register s it = (s', c)"
  shows "calls_ok s' (c # cs) ds"
proof -
  have ok: "waiters_ok s" "distinct (map cl_chan cs)" "\<forall>c \<in> set cs. cl_chan c < s_nextChan s"
    using assms(1) by (auto simp: calls_ok_def)
  have s': "s_waiters s' = (s_waiters s)(fst it \<mapsto> s_nextChan s)" "s_chans s' = (s_chans s)(s_nextChan s := None)"
      "s_nextChan s' = s_nextChan s + 1" "cl_index c = fst it" "cl_chan c = s_nextChan s"
    using assms(2) by (auto simp: register_def)
  have "s_waiters s i \<noteq> Some (s_nextChan s)" for i using ok(1) by (auto simp: waiters_ok_def)
  then have "waiters_ok s'" using ok(1) by (auto simp: waiters_ok_def s' less_Suc_eq)
  moreover have "s_nextChan s \<notin> cl_chan ` set cs" using ok(3) by auto
  moreover have "s_waiters s i \<noteq> Some (s_nextChan s)" for i using ok(1) by (auto simp: waiters_ok_def)
  ultimately show ?thesis using assms(1) by (auto simp: calls_ok_def s' less_Suc_eq)
qed

lemma finish_calls:
  assumes "calls_ok s cs ds" "propose_finish s c w = Some (s', r)" "c \<in> set cs"
  shows "calls_ok s' (remove1 c cs) ds"
proof -
  have "distinct (map cl_chan cs)" using assms(1) by (simp add: calls_ok_def)
  then have d: "distinct cs" "inj_on cl_chan (set cs)" by (simp_all add: distinct_map)
  then have rm: "set (remove1 c cs) = set cs - {c}" by simp
  have ne: "cl_chan c' \<noteq> cl_chan c" if "c' \<in> set (remove1 c cs)" for c'
    using that inj_onD [OF d(2), of c' c] assms(3) unfolding rm by blast
  have sub: "distinct (map cl_chan (remove1 c cs))" "set (remove1 c cs) \<subseteq> set cs"
    unfolding distinct_map rm using d inj_on_diff [OF d(2)] by auto
  have s': "s_waiters s' = (s_waiters s)(cl_index c := None)" "s_nextChan s' = s_nextChan s"
      "s_chans s' = s_chans s \<or> s_chans s' = (s_chans s)(cl_chan c := None)"
    using assms(2) by (cases w; auto simp: propose_finish_def Let_def split: option.splits)+
  have "waiters_ok s'" using assms(1) s' by (auto simp: waiters_ok_def calls_ok_def)
  moreover have "s_chans s' (cl_chan c') = s_chans s (cl_chan c')" if "c' \<in> set (remove1 c cs)" for c'
    using s'(3) ne [OF that] by auto
  ultimately show ?thesis using assms(1) sub unfolding calls_ok_def s'(1,2) by (auto split: if_splits)
qed

lemma answer_calls:
  assumes "calls_ok s cs ds" "waiting s' = answered s i res"
  shows "calls_ok s' cs (ds @ [(i, res)])"
proof (cases "s_waiters s i")
  case None
  then show ?thesis using assms by (auto simp: calls_ok_def waiters_ok_def waiting_def answered_def)
next
  case (Some ch)
  then have eq: "s_waiters s' = (s_waiters s)(i := None)" "s_chans s' = (s_chans s)(ch := Some res)" "s_nextChan s' = s_nextChan s"
    using assms(2) by (simp_all add: waiting_def answered_def)
  have "waiters_ok s'" using waiters_ok_answered assms by (auto simp: calls_ok_def)
  have "cl_chan c < s_nextChan s' \<and> (\<forall>j. s_waiters s' j = Some (cl_chan c) \<longrightarrow> j = cl_index c) \<and>
      (\<forall>r. s_chans s' (cl_chan c) = Some r \<longrightarrow> (cl_index c, r) \<in> set (ds @ [(i, res)]))" if c: "c \<in> set cs" for c
  proof -
    have k: "cl_chan c < s_nextChan s" "\<And>j. s_waiters s j = Some (cl_chan c) \<Longrightarrow> j = cl_index c"
        "\<And>r. s_chans s (cl_chan c) = Some r \<Longrightarrow> (cl_index c, r) \<in> set ds"
      using assms(1) c by (auto simp: calls_ok_def)
    show ?thesis using k Some unfolding eq by (cases "cl_chan c = ch") (auto split: if_splits)
  qed
  then show ?thesis using assms(1) \<open>waiters_ok s'\<close> by (simp add: calls_ok_def)
qed

lemma sys_step_calls:
  assumes "sys_step pb g y y'" "calls_ok (y_srv y) (y_calls y) (y_done y)"
  shows "calls_ok (y_srv y') (y_calls y') (y_done y')"
  using assms
proof cases
  case (applies s msg s' ps cs ds)
  have w: "waiters_ok s" using assms(2) applies by (simp add: calls_ok_def)
  show ?thesis
  proof (cases "event g (s_sm s) msg")
    case None
    then show ?thesis using applyLoop_step_waiting(2) [OF w] applies assms(2) calls_ok_cong [of s' s] by auto
  next
    case (Some e)
    obtain i res where e: "e = (i, res)" by (cases e)
    have "waiting s' = answered s i res" using applyLoop_step_waiting(2) [OF w applies(3)] Some e by simp
    then show ?thesis using answer_calls [of s cs ds s' i res] assms(2) applies Some e by simp
  qed
next
  case (propose s cmd s' it ps cs ds)
  then show ?thesis using assms(2) calls_ok_cong [OF start_waiting(1) [OF propose(3)]] by simp
next
  case (propose_fails s cmd s' err ps cs ds)
  then show ?thesis using assms(2) calls_ok_cong [OF start_waiting(1) [OF propose_fails(3)]] by simp
next
  case (propose_conf s cc s' it ps cs ds)
  then show ?thesis using assms(2) calls_ok_cong [OF start_waiting(2) [OF propose_conf(3)]] by simp
next
  case (registers it ps s s' c cs ds)
  then show ?thesis using assms(2) register_calls by simp
next
  case (finish c cs s w s' r ps ds)
  then show ?thesis using assms(2) finish_calls by simp
next
  case (reads s i key late cancelled s' r ps cs ds)
  then show ?thesis using assms(2) calls_ok_cong [OF start_waiting(3) [OF reads(3)]] by simp
next
  case (raft s ps cs ds n)
  then show ?thesis using assms(2) calls_ok_cong [of "s\<lparr>s_node := n\<rparr>" s] by (simp add: waiting_def)
qed

lemma sys_run_calls:
  assumes "(sys_step pb g)\<^sup>*\<^sup>* (sys_init s) y" "s_waiters s = Map.empty"
  shows "calls_ok (y_srv y) (y_calls y) (y_done y)"
  using assms(1)
proof induction
  case base
  then show ?case using assms(2) by (simp add: sys_init_def calls_ok_def waiters_ok_def)
qed (rule sys_step_calls)

text \<open>
  C31. The apply loop never blocks.  Whatever handlers do at whatever moment, a message finds the
  channel of its waiter empty, so the loop, which sends while it holds the mutex of the server, does
  not deadlock the server.
\<close>

theorem apply_loop_never_blocks:
  assumes "(sys_step pb g)\<^sup>*\<^sup>* (sys_init s) y" "s_waiters s = Map.empty"
  shows "applyLoop_step pb g (y_srv y) msg \<noteq> Blocked"
  using applyLoop_step_waiting(1) sys_run_calls [OF assms] by (auto simp: calls_ok_def)

text \<open>
  C30. An acknowledged call was applied.  Under any interleaving of handlers, apply loop and Raft
  node, a call that returns without an error has its index and its term among the entries that went
  through the apply loop, and applying that entry gave no error.
\<close>

theorem acked_was_applied:
  assumes "(sys_step pb g)\<^sup>*\<^sup>* (sys_init s) y" "s_waiters s = Map.empty" "c \<in> set (y_calls y)"
    and "propose_finish (y_srv y) c w = Some (s', None)"
  shows "(cl_index c, \<lparr>wt_term = cl_term c, wt_err = None\<rparr>) \<in> set (y_done y)"
proof -
  obtain res where res: "s_chans (y_srv y) (cl_chan c) = Some res" "wt_term res = cl_term c" "wt_err res = None"
    using assms(4) by (cases w) (auto simp: propose_finish_def Let_def split: option.splits if_splits)
  have "(cl_index c, res) \<in> set (y_done y)"
    using sys_run_calls [OF assms(1,2)] assms(3) res(1) by (auto simp: calls_ok_def)
  moreover have "res = \<lparr>wt_term = cl_term c, wt_err = None\<rparr>" using res(2,3) by simp
  ultimately show ?thesis by simp
qed

text \<open>A server whose node leads a cluster of three, a command, and its run through the server.\<close>

definition sample_cmd :: KvCommand where
  "sample_cmd = \<lparr>c_Op = str ''put'', c_Key = str ''x'', c_Value = str ''1'', c_ClientID = str ''A'', c_Seq = 1\<rparr>"

definition server_gob :: gob where
  "server_gob = sample_gob \<lparr>ss_Data = [], ss_LastSeq = None\<rparr> sample_cmd"

definition sample_server :: "Engine \<Rightarrow> unit Server" where
  "sample_server e = \<lparr>s_ID = 1, s_node = sample_leader, s_sm = newStateMachine e, s_waiters = Map.empty, s_chans = (\<lambda>_. None),
     s_nextChan = 0, s_applied = 1, s_sinceSnap = 0, s_transport = None\<rparr>"

definition sample_msg :: ApplyMsg where
  "sample_msg = zero_msg\<lparr>CommandValid := True, Command := [1], CommandIndex := 2, CommandTerm := 1\<rparr>"

lemma sample_apply:
  "\<exists>e0 sm'. OpenEngine all_ok [] empty_disk \<lparr>FlushSize = 1000, SyncWAL = False\<rparr> = Some (Inr e0) \<and>
     sm_apply (newStateMachine e0) sample_cmd = Some (sm', None)"
proof -
  let ?op = "OpPut (str ''x'') (str ''1'')"
  obtain e0 where e0: "OpenEngine all_ok [] empty_disk \<lparr>FlushSize = 1000, SyncWAL = False\<rparr> = Some (Inr e0)"
    by (auto simp: OpenEngine_def empty_disk_def table_names_def ReplayWAL_def OpenWAL_def numeral_2_eq_2)
  have op: "cmd_op sample_cmd = Some ?op" "\<not> is_dup Map.empty sample_cmd"
    by (simp_all add: sample_cmd_def cmd_op_def is_dup_def seq_of_def)
  obtain e r where e: "eng_exec e0 ?op = Some (e, Inr r)"
    using hist_exec [OF hist_empty(1) [OF e0], of ?op] OpenEngine_empty(4) [OF e0] hist_empty(3) [OF e0]
    by (auto simp: write_fits_def next_fits_def str_def)
  then have "sm_apply (newStateMachine e0) sample_cmd = Some (\<lparr>sm_engine = e, sm_lastSeq = mark Map.empty sample_cmd\<rparr>, None)"
    using op by (simp add: sm_apply_exec newStateMachine_def del: eng_exec.simps)
  then show ?thesis using e0 by blast
qed

lemma sample_propose:
  "\<exists>n. propose_start sample_codec server_gob (sample_server e) sample_cmd = Some (sample_server e\<lparr>s_node := n\<rparr>, Inr (2, 1))"
proof -
  have "\<exists>n. Propose sample_codec sample_leader [1] = Some (n, Inr (2, 1))"
    by (simp add: Propose_def appendEntryLocked_def sample_leader_def sample_defs wal_eval store_eval nil_put_def
        sample_codec_def Let_def)
  then show ?thesis by (auto simp: propose_start_def encodeCommand_def server_gob_def sample_gob_def sample_server_def)
qed

lemma sample_step:
  assumes "sm_apply (newStateMachine e) sample_cmd = Some (sm', None)"
  shows "run_command server_gob (newStateMachine e) [1] = Some (sm', None)"
  using assms by (simp add: run_command_def decodeCommand_def server_gob_def sample_gob_def)

theorem apply_loop_never_blocks_witness:
  "\<exists>e n s1 c. propose_start sample_codec server_gob (sample_server e) sample_cmd = Some (sample_server e\<lparr>s_node := n\<rparr>, Inr (2, 1)) \<and>
     register (sample_server e\<lparr>s_node := n\<rparr>) (2, 1) = (s1, c) \<and> s_waiters s1 2 = Some (cl_chan c) \<and>
     applyLoop_step sample_codec server_gob s1 sample_msg \<noteq> Blocked"
proof -
  obtain e :: Engine where True by simp
  obtain n where p: "propose_start sample_codec server_gob (sample_server e) sample_cmd = Some (sample_server e\<lparr>s_node := n\<rparr>, Inr (2, 1))"
    using sample_propose by blast
  obtain s1 c where r: "register (sample_server e\<lparr>s_node := n\<rparr>) (2, 1) = (s1, c)" by (cases "register (sample_server e\<lparr>s_node := n\<rparr>) (2, 1)")
  let ?y = "\<lparr>y_srv = s1, y_proposed = [], y_calls = [c], y_done = []\<rparr>"
  have "sys_step sample_codec server_gob (sys_init (sample_server e))
      \<lparr>y_srv = sample_server e\<lparr>s_node := n\<rparr>, y_proposed = [(2, 1)], y_calls = [], y_done = []\<rparr>"
    unfolding sys_init_def by (rule sys_step.propose [OF p])
  moreover have "sys_step sample_codec server_gob
      \<lparr>y_srv = sample_server e\<lparr>s_node := n\<rparr>, y_proposed = [(2, 1)], y_calls = [], y_done = []\<rparr> ?y"
    using sys_step.registers [of "(2, 1)" "[(2, 1)]" _ s1 c sample_codec server_gob "[]" "[]", OF _ r] by simp
  ultimately have "(sys_step sample_codec server_gob)\<^sup>*\<^sup>* (sys_init (sample_server e)) ?y" by simp
  from apply_loop_never_blocks [OF this, of sample_msg] have "applyLoop_step sample_codec server_gob s1 sample_msg \<noteq> Blocked"
    by (simp add: sample_server_def)
  then show ?thesis using p r by (auto simp: register_def)
qed

theorem acked_was_applied_witness:
  "\<exists>e n s1 c s2 s3. propose_start sample_codec server_gob (sample_server e) sample_cmd = Some (sample_server e\<lparr>s_node := n\<rparr>, Inr (2, 1)) \<and>
     register (sample_server e\<lparr>s_node := n\<rparr>) (2, 1) = (s1, c) \<and> applyLoop_step sample_codec server_gob s1 sample_msg = Ran s2 \<and>
     propose_finish s2 c Received = Some (s3, None) \<and>
     event server_gob (s_sm s1) sample_msg = Some (cl_index c, \<lparr>wt_term = cl_term c, wt_err = None\<rparr>)"
proof -
  obtain e sm' where e: "sm_apply (newStateMachine e) sample_cmd = Some (sm', None)" using sample_apply by blast
  obtain n where p: "propose_start sample_codec server_gob (sample_server e) sample_cmd = Some (sample_server e\<lparr>s_node := n\<rparr>, Inr (2, 1))"
    using sample_propose by blast
  obtain s1 c where r: "register (sample_server e\<lparr>s_node := n\<rparr>) (2, 1) = (s1, c)" by (cases "register (sample_server e\<lparr>s_node := n\<rparr>) (2, 1)")
  have s1: "s_sm s1 = newStateMachine e" "s_waiters s1 = [2 \<mapsto> 0]" "s_chans s1 = (\<lambda>_. None)" "s_sinceSnap s1 = 0" "cl_chan c = 0"
      "cl_index c = 2" "cl_term c = 1"
    using r by (auto simp: register_def sample_server_def)
  have ev: "event server_gob (s_sm s1) sample_msg = Some (2, \<lparr>wt_term = 1, wt_err = None\<rparr>)"
    using sample_step [OF e] s1(1) by (simp add: event_def sample_msg_def zero_msg_def)
  obtain s2 where s2: "applyLoop_step sample_codec server_gob s1 sample_msg = Ran s2" "s_chans s2 0 = Some \<lparr>wt_term = 1, wt_err = None\<rparr>"
    using sample_step [OF e] s1 by (simp add: applyLoop_step_def sample_msg_def zero_msg_def reply_def SnapshotThreshold_def Let_def)
  obtain s3 where s3: "propose_finish s2 c Received = Some (s3, None)" using s2(2) s1(5,7) by (simp add: propose_finish_def)
  let ?y = "\<lparr>y_srv = s2, y_proposed = [], y_calls = [c], y_done = [(2, \<lparr>wt_term = 1, wt_err = None\<rparr>)]\<rparr>"
  have st1: "sys_step sample_codec server_gob (sys_init (sample_server e))
      \<lparr>y_srv = sample_server e\<lparr>s_node := n\<rparr>, y_proposed = [(2, 1)], y_calls = [], y_done = []\<rparr>"
    unfolding sys_init_def by (rule sys_step.propose [OF p])
  have st2: "sys_step sample_codec server_gob
      \<lparr>y_srv = sample_server e\<lparr>s_node := n\<rparr>, y_proposed = [(2, 1)], y_calls = [], y_done = []\<rparr>
      \<lparr>y_srv = s1, y_proposed = [], y_calls = [c], y_done = []\<rparr>"
    using sys_step.registers [of "(2, 1)" "[(2, 1)]" _ s1 c sample_codec server_gob "[]" "[]", OF _ r] by simp
  have st3: "sys_step sample_codec server_gob \<lparr>y_srv = s1, y_proposed = [], y_calls = [c], y_done = []\<rparr> ?y"
    using sys_step.applies [OF s2(1), of "[]" "[c]" "[]"] ev by simp
  let ?R = "sys_step sample_codec server_gob"
  have run: "?R\<^sup>*\<^sup>* (sys_init (sample_server e)) ?y"
    by (rule rtranclp.rtrancl_into_rtrancl [of ?R, OF rtranclp.rtrancl_into_rtrancl [of ?R,
          OF rtranclp.rtrancl_into_rtrancl [of ?R, OF rtranclp.rtrancl_refl st1] st2] st3])
  have "(cl_index c, \<lparr>wt_term = cl_term c, wt_err = None\<rparr>) \<in> set (y_done ?y)"
    by (rule acked_was_applied [OF run]) (use s3 in \<open>simp_all add: sample_server_def\<close>)
  then have "event server_gob (s_sm s1) sample_msg = Some (cl_index c, \<lparr>wt_term = cl_term c, wt_err = None\<rparr>)" using ev by simp
  then show ?thesis using p r s2(1) s3 by blast
qed

section \<open>Waiting calls\<close>

lemma applyLoop_step_other:
  assumes "waiters_ok s" "applyLoop_step pb g s msg = Ran s'" "msg_index msg \<noteq> Some i"
  shows "s_waiters s' i = s_waiters s i"
proof -
  have "event g (s_sm s) msg = Some (j, res) \<Longrightarrow> msg_index msg = Some j" for j res
    by (auto simp: event_def msg_index_def split: if_splits)
  then show ?thesis
    using applyLoop_step_waiting(2) [OF assms(1,2)] assms(3)
    by (auto simp: waiting_def answered_def split: option.splits)
qed

lemma applyLoop_other:
  assumes "waiters_ok s" "applyLoop pb g s ms = Ran s'" "\<forall>m \<in> set ms. msg_index m \<noteq> Some i"
  shows "waiters_ok s'" "s_waiters s' i = s_waiters s i"
proof -
  have "waiters_ok s' \<and> s_waiters s' i = s_waiters s i"
    using assms
  proof (induction ms arbitrary: s)
    case (Cons m ms)
    then obtain s1 where s1: "applyLoop_step pb g s m = Ran s1" "applyLoop pb g s1 ms = Ran s'"
      by (auto split: outcome.splits)
    show ?case
      using Cons.IH [OF applyLoop_step_ok [OF Cons.prems(1) s1(1)] s1(2)] applyLoop_step_other [OF Cons.prems(1) s1(1)] Cons.prems(3)
      by simp
  qed simp
  then show "waiters_ok s'" "s_waiters s' i = s_waiters s i" by simp_all
qed


lemma sample_server_ok: "waiters_ok (sample_server e)"
  by (simp add: waiters_ok_def sample_server_def)

lemma sample_server_applies:
  assumes "sm_apply (newStateMachine e) sample_cmd = Some (sm', None)" "s_sm s = newStateMachine e" "s_sinceSnap s = 0" "waiters_ok s"
  shows "event server_gob (s_sm s) sample_msg = Some (2, \<lparr>wt_term = 1, wt_err = None\<rparr>)"
    "\<exists>s'. applyLoop_step sample_codec server_gob s sample_msg = Ran s'"
proof -
  show "event server_gob (s_sm s) sample_msg = Some (2, \<lparr>wt_term = 1, wt_err = None\<rparr>)"
    using sample_step [OF assms(1)] assms(2) by (simp add: event_def sample_msg_def zero_msg_def)
  let ?s = "s\<lparr>s_sm := sm', s_applied := 2, s_sinceSnap := s_sinceSnap s + 1\<rparr>"
  have "waiters_ok ?s" using assms(4) waiters_ok_cong [of ?s s] by (simp add: waiting_def)
  then obtain s' where "reply ?s 2 \<lparr>wt_term = 1, wt_err = None\<rparr> = Ran s'" using reply_ok by blast
  then show "\<exists>s'. applyLoop_step sample_codec server_gob s sample_msg = Ran s'"
    using sample_step [OF assms(1)] assms(2,3) by (simp add: applyLoop_step_def sample_msg_def zero_msg_def SnapshotThreshold_def)
qed


text \<open>
  C34. Two calls for one index: when leadership was lost and won again, a second proposal can get the
  index of a first one that still waits.  It replaces the waiter of the first, and the deferred
  removal of the first, when its timeout fires, removes the waiter of the second; the entry of the
  second is then applied without anybody being told.
\<close>

theorem shared_index_loses_waiter:
  assumes "waiters_ok s" "register s (i, t1) = (s1, c1)" "register s1 (i, t2) = (s2, c2)"
    and "propose_finish s2 c1 Elapsed = Some (s3, r)" "applyLoop_step pb g s3 msg = Ran s4"
  shows "propose_finish s4 c2 Received = None"
proof -
  have "calls_ok s [] []" using assms(1) by (simp add: calls_ok_def)
  from register_calls [OF this assms(2)] have k1: "calls_ok s1 [c1] []" .
  from register_calls [OF this assms(3)] have k2: "calls_ok s2 [c2, c1] []" .
  from finish_calls [OF this assms(4)] have w3: "waiters_ok s3" by (auto simp: calls_ok_def)
  have e: "s_waiters s3 = (s_waiters s)(i := None)" "s_chans s3 (cl_chan c2) = None" "cl_chan c2 = s_nextChan s + 1"
    using assms(2,3,4) by (auto simp: register_def propose_finish_def Let_def)
  have lt: "ch < s_nextChan s" if "s_waiters s j = Some ch" for j ch using assms(1) that by (simp add: waiters_ok_def)
  have "s_waiters s3 j \<noteq> Some (cl_chan c2)" for j unfolding e(1,3) using lt [of j "s_nextChan s + 1"] by auto
  then have "s_chans s4 (cl_chan c2) = None"
    using applyLoop_step_waiting(2) [OF w3 assms(5)] e(2) by (auto simp: waiting_def answered_def split: option.splits prod.splits)
  then show ?thesis by (simp add: propose_finish_def)
qed

theorem shared_index_loses_waiter_witness:
  "\<exists>e s1 c1 s2 c2 s3 r s4. register (sample_server e) (2, 0) = (s1, c1) \<and> register s1 (2, 1) = (s2, c2) \<and>
     propose_finish s2 c1 Elapsed = Some (s3, r) \<and> applyLoop_step sample_codec server_gob s3 sample_msg = Ran s4 \<and>
     event server_gob (s_sm s3) sample_msg = Some (cl_index c2, \<lparr>wt_term = cl_term c2, wt_err = None\<rparr>) \<and>
     propose_finish s4 c2 Received = None"
proof -
  obtain e sm' where e: "sm_apply (newStateMachine e) sample_cmd = Some (sm', None)" using sample_apply by blast
  obtain s1 c1 where r1: "register (sample_server e) (2, 0) = (s1, c1)" by (cases "register (sample_server e) (2, 0)")
  obtain s2 c2 where r2: "register s1 (2, 1) = (s2, c2)" by (cases "register s1 (2, 1)")
  obtain s3 r where f: "propose_finish s2 c1 Elapsed = Some (s3, r)" by (simp add: propose_finish_def)
  have "calls_ok (sample_server e) [] []" using sample_server_ok [of e] by (simp add: calls_ok_def)
  from register_calls [OF this r1] have "calls_ok s1 [c1] []" .
  from register_calls [OF this r2] have "calls_ok s2 [c2, c1] []" .
  from finish_calls [OF this f] have w: "waiters_ok s3" by (auto simp: calls_ok_def)
  have s3: "s_sm s3 = newStateMachine e" "s_sinceSnap s3 = 0"
    using r1 r2 f by (auto simp: register_def sample_server_def propose_finish_def Let_def)
  note a = sample_server_applies [OF e s3 w]
  obtain s4 where s4: "applyLoop_step sample_codec server_gob s3 sample_msg = Ran s4" using a(2) by blast
  have c2: "cl_index c2 = 2" "cl_term c2 = 1" using r2 by (auto simp: register_def)
  have ev: "event server_gob (s_sm s3) sample_msg = Some (cl_index c2, \<lparr>wt_term = cl_term c2, wt_err = None\<rparr>)"
    using a(1) c2 by simp
  show ?thesis using r1 r2 f s4 ev shared_index_loses_waiter [OF sample_server_ok r1 r2 f s4] by blast
qed

end
