(* ===== verification/ServerReplay.thy ===== *)
theory ServerReplay
  imports ServerFacts
begin

text \<open>
  From the Raft log to the clients: the entries that a node's applier delivers, put through the apply
  loop of its server, leave the state machine in the state that replaying their commands gives, and
  this is what reads return.  Then the limits of the server: snapshots, membership changes, and reads
  right after a restart.
\<close>

section \<open>Replay\<close>

definition is_conf :: "Entry \<Rightarrow> bool" where
  "is_conf e \<longleftrightarrow> e_Type e = ENTRY_CONF_CHANGE \<and> e_ConfChange e \<noteq> None"

text \<open>The command of an entry; a no-op and an entry that does not decode have none.\<close>

definition entry_cmds :: "gob \<Rightarrow> Entry \<Rightarrow> KvCommand list" where
  "entry_cmds g e =
     (if is_conf e \<or> e_Data e = [] then [] else case decodeCommand g (e_Data e) of Inl _ \<Rightarrow> [] | Inr c \<Rightarrow> [c])"

definition log_cmds :: "gob \<Rightarrow> Entry list \<Rightarrow> KvCommand list" where
  "log_cmds g es = concat (map (entry_cmds g) es)"

lemma log_cmds_simps [simp]: "log_cmds g [] = []" "log_cmds g (e # es) = entry_cmds g e @ log_cmds g es"
  by (simp_all add: log_cmds_def)

lemma run_command_entry:
  assumes "\<not> is_conf e" "sm_run sm (entry_cmds g e @ cs) = Some sm'"
  shows "\<exists>sm1 err. run_command g sm (e_Data e) = Some (sm1, err) \<and> sm_run sm1 cs = Some sm'"
proof (cases "e_Data e = []")
  case True
  then show ?thesis using assms by (simp add: entry_cmds_def run_command_def)
next
  case False
  show ?thesis
  proof (cases "decodeCommand g (e_Data e)")
    case (Inl err)
    then show ?thesis using assms False by (simp add: entry_cmds_def run_command_def)
  next
    case (Inr c)
    then have "sm_run sm (c # cs) = Some sm'" using assms False by (simp add: entry_cmds_def)
    then show ?thesis
      using Inr False by (auto simp: run_command_def split: option.splits sm_err.splits)
  qed
qed

lemma conf_step:
  assumes "waiters_ok s" "is_conf e"
  shows "\<exists>s'. applyLoop_step pb g s (apply_msg e) = Ran s' \<and> waiters_ok s' \<and> s_sm s' = s_sm s \<and> s_applied s' = e_Index e \<and>
    s_sinceSnap s' = s_sinceSnap s"
proof -
  obtain cc where cc: "e_Type e = ENTRY_CONF_CHANGE" "e_ConfChange e = Some cc" using assms(2) by (auto simp: is_conf_def)
  then have m: "apply_msg e = conf_msg e cc" by (simp add: apply_msg_def)
  have "onConfChangeApplied s (Some cc) \<noteq> None" by (simp add: onConfChangeApplied_def split: option.split)
  then obtain s1 where s1: "onConfChangeApplied s (Some cc) = Some s1" by blast
  note f = onConf_frame [OF s1]
  let ?s = "s1\<lparr>s_applied := e_Index e\<rparr>"
  have "waiters_ok ?s" using assms(1) waiters_ok_cong [of ?s s] f(1) by (simp add: waiting_def)
  then obtain s' where s': "reply ?s (e_Index e) \<lparr>wt_term = e_Term e, wt_err = None\<rparr> = Ran s'" "s_sm s' = s_sm ?s"
      "s_applied s' = s_applied ?s" "s_sinceSnap s' = s_sinceSnap ?s"
    using reply_ok by blast
  then have r: "applyLoop_step pb g s (apply_msg e) = Ran s'"
    using s1 by (simp add: applyLoop_step_def m conf_msg_def zero_msg_def)
  show ?thesis using r applyLoop_step_ok [OF assms(1) r] s' f by simp
qed

lemma command_step:
  assumes "waiters_ok s" "\<not> is_conf e" "run_command g (s_sm s) (e_Data e) = Some (sm1, err)" "s_sinceSnap s + 1 < SnapshotThreshold"
  shows "\<exists>s'. applyLoop_step pb g s (apply_msg e) = Ran s' \<and> waiters_ok s' \<and> s_sm s' = sm1 \<and> s_applied s' = e_Index e \<and>
    s_sinceSnap s' = s_sinceSnap s + 1"
proof -
  have m: "apply_msg e = command_msg e"
    using assms(2) by (auto simp: apply_msg_def is_conf_def split: bool.splits option.splits)
  let ?s = "s\<lparr>s_sm := sm1, s_applied := e_Index e, s_sinceSnap := s_sinceSnap s + 1\<rparr>"
  have "waiters_ok ?s" using assms(1) waiters_ok_cong [of ?s s] by (simp add: waiting_def)
  then obtain s' where s': "reply ?s (e_Index e) \<lparr>wt_term = e_Term e, wt_err = err\<rparr> = Ran s'" "s_sm s' = s_sm ?s"
      "s_applied s' = s_applied ?s" "s_sinceSnap s' = s_sinceSnap ?s"
    using reply_ok by blast
  then have r: "applyLoop_step pb g s (apply_msg e) = Ran s'"
    using assms(3,4) by (simp add: applyLoop_step_def m command_msg_def zero_msg_def)
  show ?thesis using r applyLoop_step_ok [OF assms(1) r] s' by simp
qed

lemma applyLoop_replay:
  assumes "waiters_ok s" "sm_run (s_sm s) (log_cmds g es) = Some sm'" "s_sinceSnap s + int (length es) < SnapshotThreshold"
  shows "\<exists>s'. applyLoop pb g s (map apply_msg es) = Ran s' \<and> waiters_ok s' \<and> s_sm s' = sm' \<and>
    s_applied s' = (if es = [] then s_applied s else e_Index (last es))"
  using assms
proof (induction es arbitrary: s)
  case (Cons e es)
  show ?case
  proof (cases "is_conf e")
    case True
    obtain s1 where s1: "applyLoop_step pb g s (apply_msg e) = Ran s1" "waiters_ok s1" "s_sm s1 = s_sm s" "s_applied s1 = e_Index e"
        "s_sinceSnap s1 = s_sinceSnap s"
      using conf_step [OF Cons.prems(1) True] by blast
    have "sm_run (s_sm s1) (log_cmds g es) = Some sm'" using Cons.prems(2) True s1(3) by (simp add: entry_cmds_def)
    from Cons.IH [OF s1(2) this] show ?thesis using s1 Cons.prems(3) by auto
  next
    case False
    obtain sm1 err where r: "run_command g (s_sm s) (e_Data e) = Some (sm1, err)" "sm_run sm1 (log_cmds g es) = Some sm'"
      using run_command_entry [OF False, of "s_sm s" g "log_cmds g es" sm'] Cons.prems(2) by auto
    have "s_sinceSnap s + 1 < SnapshotThreshold" using Cons.prems(3) by simp
    then obtain s1 where s1: "applyLoop_step pb g s (apply_msg e) = Ran s1" "waiters_ok s1" "s_sm s1 = sm1" "s_applied s1 = e_Index e"
        "s_sinceSnap s1 = s_sinceSnap s + 1"
      using command_step [OF Cons.prems(1) False r(1)] by blast
    from Cons.IH [OF s1(2)] show ?thesis using s1 r(2) Cons.prems(3) by auto
  qed
qed simp

text \<open>
  C29. The committed log reaches the clients.  One round of the Raft applier followed by the apply
  loop on what it delivered ends without a panic and without blocking; the state machine is then the
  replay of the commands of the newly committed entries, in log order and with retries dropped, the
  applied index is the commit index, and every read at an index up to it returns the value of the
  replay.  The engine works, its data stays below 32 GiB, and no snapshot falls due in between.
\<close>

theorem committed_log_reaches_clients:
  fixes s :: "'c Server"
  defines "n \<equiv> s_node s"
  defines "es \<equiv> map (\<lambda>i. the (log_at (n_store n) i)) [Suc (unat (n_lastApplied n))..<Suc (unat (n_commitIndex n))]"
  assumes "log_wf (n_store n)" "can_apply n" "n_commitIndex n \<le> lastIndex (n_store n)"
    and "ds_snapIndex (n_store n) \<le> n_lastApplied n" "n_lastApplied n < n_commitIndex n"
    and "eng_ok (sm_engine (s_sm s))" "clean (sm_engine (s_sm s))" "\<forall>c \<in> set (log_cmds g es). cmd_fits c"
    and "eng_size (sm_engine (s_sm s)) + sum_list (map cmd_size (log_cmds g es)) < 2 ^ 35"
    and "waiters_ok s" "s_sinceSnap s + int (length es) < SnapshotThreshold"
  shows "\<exists>n' ms s'. applier n = Some (n', map Deliver ms) \<and> applyLoop pb g (s\<lparr>s_node := n'\<rparr>) ms = Ran s' \<and>
    sm_abs (s_sm s') = kv_run (sm_abs (s_sm s)) (log_cmds g es) \<and> s_applied s' = n_commitIndex n \<and>
    (\<forall>i key late cancelled. i \<le> n_commitIndex n \<longrightarrow> (\<exists>s'' r. Get_poll s' i key late cancelled = Some (s'', PollDone r) \<and>
       (r = Inr (fst (kv_run (sm_abs (s_sm s)) (log_cmds g es)) key))))"
proof -
  let ?S = "n_store n" and ?a = "unat (n_lastApplied n)" and ?c = "unat (n_commitIndex n)"
  have c: "?c \<le> unat (ds_snapIndex ?S) + length (ds_log ?S)" "unat (ds_snapIndex ?S) \<le> ?a" "?a < ?c"
    using assms(5,6,7) unat_lastIndex [OF assms(3)] by (simp_all add: word_le_nat_alt word_less_nat_alt)
  obtain n' where n': "applier_loop (?c - ?a) n = Some (n', map apply_msg es)"
    using applier_loop_spec [OF assms(3,4) c(1) _ _ order_refl] c by (auto simp: es_def comp_def max_def simp del: upt_Suc)
  then have ap: "applier n = Some (n', map Deliver (map apply_msg es))" by (simp add: applier_def)
  obtain sm' where sm': "sm_run (s_sm s) (log_cmds g es) = Some sm'" "sm_abs sm' = kv_run (sm_abs (s_sm s)) (log_cmds g es)"
      "eng_ok (sm_engine sm')" "clean (sm_engine sm')"
    using sm_run_clean [OF assms(8-11)] by blast
  let ?s = "s\<lparr>s_node := n'\<rparr>"
  have w: "waiters_ok ?s" using assms(12) waiters_ok_cong [of ?s s] by (simp add: waiting_def)
  obtain s' where s': "applyLoop pb g ?s (map apply_msg es) = Ran s'" "s_sm s' = sm'" "s_applied s' = e_Index (last es)"
    using applyLoop_replay [OF w, of g es sm'] sm'(1) assms(13) c(3) by (auto simp: es_def simp del: upt_Suc)
  have "last es = ds_log ?S ! (?c - Suc (unat (ds_snapIndex ?S)))"
    using c by (simp add: es_def last_map log_at_def)
  moreover have "unat (e_Index (ds_log ?S ! (?c - Suc (unat (ds_snapIndex ?S))))) = ?c"
    using assms(3) c unfolding log_wf_def by auto
  ultimately have idx: "s_applied s' = n_commitIndex n" using s'(3) by (metis word_unat_eq_iff)
  have "\<exists>s'' r. Get_poll s' i key late cancelled = Some (s'', PollDone r) \<and>
       (r = Inr (fst (kv_run (sm_abs (s_sm s)) (log_cmds g es)) key))" if i: "i \<le> n_commitIndex n" for i key late cancelled
  proof -
    obtain io' r where g: "Get (sm_engine sm') key = Some ((sm_engine sm')\<lparr>e_io := io'\<rparr>, r)"
        "r = Inr (e_map (sm_engine sm') key) \<or> False \<in> set (io_ok (e_io (sm_engine sm')))"
      using Get_spec [OF sm'(3), of key] by auto
    then have "r = Inr (e_map (sm_engine sm') key)" using sm'(4) by (simp add: clean_def)
    moreover have "e_map (sm_engine sm') = fst (kv_run (sm_abs (s_sm s)) (log_cmds g es))" using sm'(2) by (metis fst_conv sm_abs_def)
    ultimately show ?thesis using g(1) i idx s'(2) by (simp add: Get_poll_def sm_get_def)
  qed
  then show ?thesis using ap s'(1,2) sm'(2) idx by blast
qed

text \<open>A leader whose log holds the sample command, committed and not yet applied.\<close>

definition command_entry :: Entry where
  "command_entry = (entry 1 1)\<lparr>e_Data := [1]\<rparr>"

definition command_node :: Node where
  "command_node = sample_leader\<lparr>n_commitIndex := 1, n_store := sample_store\<lparr>ds_log := [command_entry]\<rparr>\<rparr>"

theorem committed_log_reaches_clients_witness:
  "\<exists>e0 n' ms s' s''. OpenEngine all_ok [] empty_disk \<lparr>FlushSize = 1000, SyncWAL = False\<rparr> = Some (Inr e0) \<and>
     applier command_node = Some (n', map Deliver ms) \<and>
     applyLoop sample_codec server_gob (sample_server e0\<lparr>s_node := n'\<rparr>) ms = Ran s' \<and>
     Get_poll s' 1 (str ''x'') False False = Some (s'', PollDone (Inr (Some (str ''1''))))"
proof -
  obtain e0 where e0: "OpenEngine all_ok [] empty_disk \<lparr>FlushSize = 1000, SyncWAL = False\<rparr> = Some (Inr e0)"
    by (auto simp: OpenEngine_def empty_disk_def table_names_def ReplayWAL_def OpenWAL_def numeral_2_eq_2)
  note o = OpenEngine_empty [OF e0]
  let ?s = "sample_server e0\<lparr>s_node := command_node\<rparr>"
  let ?n = "s_node ?s"
  let ?es = "map (\<lambda>i. the (log_at (n_store ?n) i)) [Suc (unat (n_lastApplied ?n))..<Suc (unat (n_commitIndex ?n))]"
  have n: "n_lastApplied ?n = 0" "n_commitIndex ?n = 1" "n_store ?n = sample_store\<lparr>ds_log := [command_entry]\<rparr>"
    by (simp_all add: command_node_def sample_leader_def sample_node_def)
  have es: "?es = [command_entry]" unfolding n by (simp add: log_at_def sample_store_def)
  have cmds: "log_cmds server_gob [command_entry] = [sample_cmd]"
    by (simp add: entry_cmds_def is_conf_def command_entry_def entry_def decodeCommand_def server_gob_def sample_gob_def)
  have a: "log_wf (n_store ?n)" "can_apply ?n" "n_commitIndex ?n \<le> lastIndex (n_store ?n)"
      "ds_snapIndex (n_store ?n) \<le> n_lastApplied ?n" "n_lastApplied ?n < n_commitIndex ?n"
    by (simp_all add: command_node_def sample_leader_def sample_defs command_entry_def log_wf_def can_apply_def lastIndex_def
        NewConfState_def)
  have b: "eng_ok (sm_engine (s_sm ?s))" "clean (sm_engine (s_sm ?s))" "waiters_ok ?s"
    using o waiters_ok_cong [of ?s "sample_server e0"] sample_server_ok [of e0]
    by (simp_all add: sample_server_def newStateMachine_def waiting_def)
  have c: "\<forall>c \<in> set (log_cmds server_gob ?es). cmd_fits c"
      "eng_size (sm_engine (s_sm ?s)) + sum_list (map cmd_size (log_cmds server_gob ?es)) < 2 ^ 35"
      "s_sinceSnap ?s + int (length ?es) < SnapshotThreshold"
    unfolding es cmds using o(4)
    by (simp_all add: cmd_fits_def cmd_size_def sample_cmd_def str_def sample_server_def newStateMachine_def SnapshotThreshold_def)
  obtain n' ms s' where r: "applier ?n = Some (n', map Deliver ms)"
      "applyLoop sample_codec server_gob (?s\<lparr>s_node := n'\<rparr>) ms = Ran s'"
      "\<forall>i key late cancelled. i \<le> n_commitIndex ?n \<longrightarrow> (\<exists>s'' r. Get_poll s' i key late cancelled = Some (s'', PollDone r) \<and>
         (r = Inr (fst (kv_run (sm_abs (s_sm ?s)) (log_cmds server_gob ?es)) key)))"
    using committed_log_reaches_clients [OF a b(1,2) c(1,2) b(3) c(3), of sample_codec] by blast
  have "fst (kv_run (sm_abs (s_sm ?s)) [sample_cmd]) (str ''x'') = Some (str ''1'')"
    using o(3) by (simp add: sample_cmd_def sample_server_def newStateMachine_def sm_abs_def kv_step_def is_dup_def seq_of_def
        cmd_op_def apply_writes_def upd_def)
  moreover obtain s'' r' where "Get_poll s' 1 (str ''x'') False False = Some (s'', PollDone r')"
      "r' = Inr (fst (kv_run (sm_abs (s_sm ?s)) [sample_cmd]) (str ''x''))"
    using r(3) [unfolded es cmds, unfolded n(2)] by blast
  ultimately have g: "Get_poll s' 1 (str ''x'') False False = Some (s'', PollDone (Inr (Some (str ''1''))))" by simp
  have "?n = command_node" "?s\<lparr>s_node := n'\<rparr> = sample_server e0\<lparr>s_node := n'\<rparr>" by simp_all
  then show ?thesis using e0 r(1,2) g by metis
qed

section \<open>Missed and stale answers\<close>



text \<open>What an election does to the commit index and to the snapshot: nothing.\<close>

definition read_point :: "Node \<Rightarrow> u64 \<times> u64" where
  "read_point n = (n_commitIndex n, ds_snapIndex (n_store n))"

lemma read_point_store: "core s' = core (n_store n) \<Longrightarrow> read_point (n\<lparr>n_store := s'\<rparr>) = read_point n"
  by (simp add: read_point_def core_def)

lemma reset_read_point: "resetElectionTimerLocked ev n = Some n' \<Longrightarrow> read_point n' = read_point n"
  by (auto simp: resetElectionTimerLocked_def read_point_def Let_def split: if_splits)

lemma setHardState_snap: "setHardState s t v = Some (s', e) \<Longrightarrow> ds_snapIndex s' = ds_snapIndex s"
  by (auto simp: setHardState_def try_then_def wal_Append_def wal_Sync_def split: option.splits prod.splits)

lemma stepDown_read_point: "stepDownLocked ev n t = Some n' \<Longrightarrow> read_point n' = read_point n"
  by (auto simp: stepDownLocked_def with_store_def read_point_def resetElectionTimerLocked_def Let_def bind_eq_Some_conv
      dest: setHardState_snap split: if_splits option.splits prod.splits)

lemma send_all_read_point: "send_all ev n ps = Some (n', es) \<Longrightarrow> read_point n' = read_point n"
proof (induction ps arbitrary: n es)
  case (Cons p ps)
  have one: "sendAppendLocked ev m q = Some (m', ds) \<Longrightarrow> read_point m' = read_point m" for m q m' ds
    by (auto simp: sendAppendLocked_def Let_def read_point_def split: if_splits bind_splits prod.splits)
  show ?case using Cons by (auto dest!: one split: if_splits bind_splits)
qed simp

lemma broadcast_read_point:
  assumes "broadcastAppendLocked ev n = Some (n', es)"
  shows "read_point n' = read_point n"
proof -
  obtain s err where s: "sync (n_store n) = Some (s, err)"
    using assms by (auto simp: broadcastAppendLocked_def with_store_def split: option.splits bind_splits)
  have "read_point (n\<lparr>n_store := s\<rparr>) = read_point n" by (rule read_point_store [OF sync_core [OF s]])
  then show ?thesis
    using assms s by (auto simp: broadcastAppendLocked_def with_store_def dest!: send_all_read_point split: if_splits)
qed

lemma becomeLeader_read_point: "becomeLeaderLocked pb ev n = Some (n', es) \<Longrightarrow> read_point n' = read_point n"
  by (auto simp: becomeLeaderLocked_def Let_def with_store_Some read_point_def [of n] dest!: broadcast_read_point appendEntries_keeps
      split: if_splits bind_splits) (simp_all add: read_point_def)

lemma onVoteResponse_read_point: "onVoteResponse pb ev n t resp = Some (n', es) \<Longrightarrow> read_point n' = read_point n"
  by (auto simp: onVoteResponse_def Let_def dest!: becomeLeader_read_point stepDown_read_point split: if_splits)
    (simp_all add: read_point_def)

lemma startElection_read_point: "startElectionLocked ev n = Some (n', es) \<Longrightarrow> read_point n' = read_point n"
  by (auto simp: startElectionLocked_def Let_def with_store_Some dest!: reset_read_point setHardState_snap
      split: if_splits bind_splits) (simp_all add: read_point_def)

lemma New_read_point:
  assumes "New pb g eio rand edisk rio rdir ev opts = Some (Inr s)"
  shows "s_applied s = ds_snapIndex (n_store (s_node s))" "n_commitIndex (s_node s) = ds_snapIndex (n_store (s_node s))"
    "s_waiters s = Map.empty"
proof -
  have nn: "n_commitIndex n = ds_snapIndex (n_store n)" if "NewNode pb rio rdir ev c = Some (Inr n)" for c n
    using that by (auto simp: NewNode_def resetElectionTimerLocked_def Let_def word_gt_0
        split: sum.splits store_err.splits if_splits)
  show "s_applied s = ds_snapIndex (n_store (s_node s))" "n_commitIndex (s_node s) = ds_snapIndex (n_store (s_node s))"
      "s_waiters s = Map.empty"
    using assms by (auto simp: New_def Let_def ReadSnapshot_def word_gt_0 dest!: nn
        split: option.splits sum.splits if_splits prod.splits)
qed


lemma sample_election:
  assumes "n_store n = sample_store\<lparr>ds_term := 0, ds_log := []\<rparr>" "n_conf n = NewConfState [1, 2, 3]" "n_id n = 1"
    and "ElectionTimeoutMin (n_cfg n) = 150000000" "ElectionTimeoutMax (n_cfg n) = 300000000"
  shows "\<exists>n1 es1 n2 es2. startElectionLocked sample_env n = Some (n1, es1) \<and>
    onVoteResponse sample_codec sample_env n1 1 \<lparr>rvr_Term = 1, rvr_VoteGranted = True\<rparr> = Some (n2, es2) \<and> n_role n2 = leader"
  using assms
  by (simp add: startElectionLocked_def onVoteResponse_def becomeLeaderLocked_def broadcastAppendLocked_def sendAppendLocked_def
      resetElectionTimerLocked_def Contains_def NewConfState_def VoterIDs_def JointIDs_def AllPeerIDs_def peerIDsLocked_def sortedKeys_def
      HasVoteQuorum_def InJoint_def majority_def fcard.rep_eq sample_env_def sample_store_def sample_wal_def entry_def
      wal_eval store_eval entriesFrom_def sample_codec_def nil_get_def mget_def Let_def appendRequest_def)


section \<open>Membership changes\<close>



section \<open>Snapshots\<close>



end
