(* ===== verification/RaftRoles.thy ===== *)
theory RaftRoles
  imports RaftNodeFacts
begin

text \<open>
  What each method of \<open>raft/node.go\<close> does to the role of a node and to the votes it has counted: only
  \<open>startElectionLocked\<close> makes a candidate, only a counted vote makes a leader, and every other method
  keeps the role or steps down.
\<close>

section \<open>Roles\<close>

text \<open>What every method but the election itself does to the role: it steps down, or keeps role, term and
  votes.\<close>

definition role_le :: "Node \<Rightarrow> Node \<Rightarrow> bool" where
  "role_le n n' \<longleftrightarrow> n_id n' = n_id n \<and> hard_le n n' \<and>
     (n_role n' = follower \<or> n_role n' = n_role n \<and> n_term n' = n_term n \<and> n_votes n' = n_votes n)"

definition keeps_role :: "Node \<Rightarrow> Node \<Rightarrow> bool" where
  "keeps_role n n' \<longleftrightarrow> n_cfg n' = n_cfg n \<and> (n_role n' = follower \<or> n_role n' = n_role n) \<and> n_votes n' = n_votes n"

lemma keeps_role_refl [simp]: "keeps_role n n"
  by (simp add: keeps_role_def)

lemma keeps_role_trans: "keeps_role a b \<Longrightarrow> keeps_role b c \<Longrightarrow> keeps_role a c"
  by (auto simp: keeps_role_def)

lemma stepDown_role: "stepDownLocked ev n t = Some n' \<Longrightarrow> keeps_role n n' \<and> n_role n' = follower"
  using stepDown_mem by (fastforce simp: keeps_role_def)

lemma reset_role: "resetElectionTimerLocked ev n = Some n' \<Longrightarrow> keeps_role n n' \<and> n_role n' = n_role n"
  using reset_mem by (fastforce simp: keeps_role_def)

lemma with_store_role: "with_store n m = Some (n', e) \<Longrightarrow> keeps_role n n' \<and> n_role n' = n_role n"
  by (auto simp: with_store_Some keeps_role_def)

lemma send_all_role: "send_all ev n ps = Some (n', es) \<Longrightarrow> keeps_role n n' \<and> n_role n' = n_role n"
proof (induction ps arbitrary: n es)
  case (Cons p ps)
  have one: "sendAppendLocked ev m q = Some (m', ds) \<Longrightarrow> keeps_role m m' \<and> n_role m' = n_role m" for m q m' ds
    by (auto simp: sendAppendLocked_def Let_def keeps_role_def split: if_splits bind_splits prod.splits)
  show ?case using Cons by (auto simp: keeps_role_def dest!: one split: if_splits bind_splits)
qed simp

lemma broadcast_role: "broadcastAppendLocked ev n = Some (n', es) \<Longrightarrow> keeps_role n n' \<and> n_role n' = n_role n"
  by (auto simp: broadcastAppendLocked_def keeps_role_def dest!: with_store_role send_all_role split: if_splits bind_splits)

lemma appendEntryLocked_role: "appendEntryLocked pb n x = Some (n', r) \<Longrightarrow> keeps_role n n' \<and> n_role n' = n_role n"
  by (auto simp: appendEntryLocked_def kickRun_def keeps_role_def dest!: with_store_role split: option.splits bind_splits)

lemma advanceCommit_role: "advanceCommitLocked n = Some n' \<Longrightarrow> keeps_role n n' \<and> n_role n' = n_role n"
  by (auto simp: advanceCommitLocked_def Let_def kickRun_def keeps_role_def dest!: with_store_role split: if_splits bind_splits)

text \<open>The methods that have no part in elections keep the term unless they step down.\<close>

definition same_or_down :: "Node \<Rightarrow> Node \<Rightarrow> bool" where
  "same_or_down n n' \<longleftrightarrow> keeps_role n n' \<and> (n_role n' = follower \<or> n_term n' = n_term n)"

lemma role_leI: "same_or_down n n' \<Longrightarrow> hard_le n n' \<Longrightarrow> role_le n n'"
  by (auto simp: same_or_down_def keeps_role_def role_le_def)

lemma hard_eq_same: "keeps_role n n' \<Longrightarrow> hard_eq n n' \<Longrightarrow> role_le n n'"
  by (auto simp: keeps_role_def role_le_def hard_eq_def hard_le_def)

lemma Propose_role: "Propose pb n c = Some (n', r) \<Longrightarrow> keeps_role n n'"
  by (auto simp: Propose_def dest!: appendEntryLocked_role split: if_splits)

lemma ProposeConfChange_role: "ProposeConfChange pb n c = Some (n', r) \<Longrightarrow> keeps_role n n'"
  by (auto simp: ProposeConfChange_def dest!: appendEntryLocked_role split: if_splits sum.splits conf_err.splits)

lemma Snapshot_role: "Snapshot pb n i d = Some (n', e) \<Longrightarrow> keeps_role n n'"
  by (auto simp: Snapshot_def dest!: with_store_role split: if_splits bind_splits)

lemma Stop_role: "Stop n = Some n' \<Longrightarrow> keeps_role n n'"
  by (auto simp: Stop_def dest!: with_store_role)

lemma conf_roles:
  "keeps_role n (conf_addrs n cc)" "keeps_role n (conf_progress n cc)"
  by (auto simp: keeps_role_def conf_progress_def conf_addrs_def Let_def
      split: role.splits option.splits prod.splits if_splits)

lemma apply_entry_role:
  assumes "apply_entry n e = Some (n', m)"
  shows "keeps_role n n'"
proof -
  have "keeps_role n n'" if a: "applyConfChangeLocked n cc = Some (n', x)" for cc x
  proof -
    obtain c' where c': "ApplyConfChange (n_conf n) cc = Inr c' \<or> n' = n"
      using a by (auto simp: applyConfChangeLocked_def split: sum.splits conf_err.splits)
    let ?n = "conf_progress (conf_addrs (n\<lparr>n_conf := c'\<rparr>) cc) cc"
    have "keeps_role n ?n"
      using keeps_role_trans [OF _ keeps_role_trans [OF conf_roles(1) conf_roles(2)]] by (simp add: keeps_role_def)
    then show ?thesis
      using a c' by (auto simp: applyConfChangeLocked_def Let_def dest!: with_store_role intro: keeps_role_trans)
  qed
  then show ?thesis using assms by (auto simp: apply_entry_def split: bool.splits option.splits)
qed

lemma applier_loop_role: "applier_loop f n = Some (n', ms) \<Longrightarrow> keeps_role n n'"
proof (induction f arbitrary: n ms)
  case 0
  then show ?case by (subst (asm) applier_loop.simps) (auto split: if_splits)
next
  case (Suc f)
  have set': "keeps_role (m\<lparr>n_lastApplied := i\<rparr>) n = keeps_role m n" for n m i by (simp add: keeps_role_def)
  from Suc.prems show ?case
    by (subst (asm) applier_loop.simps)
      (auto simp: Let_def set' dest!: Suc.IH apply_entry_role split: if_splits bind_splits, blast intro: keeps_role_trans)
qed

lemma applier_role: "applier n = Some (n', es) \<Longrightarrow> keeps_role n n'"
  by (auto simp: applier_def dest!: applier_loop_role)

lemma onAppendResponse_role: "onAppendResponse ev n p req resp = Some n' \<Longrightarrow> same_or_down n n'"
  by (auto simp: onAppendResponse_def Let_def kickRun_def keeps_role_def same_or_down_def core_def
      dest: advanceCommit_role advanceCommit_core dest!: stepDown_role split: if_splits bind_splits)

lemma onSnapshotResponse_role: "onSnapshotResponse ev n p req resp = Some n' \<Longrightarrow> same_or_down n n'"
  by (auto simp: onSnapshotResponse_def Let_def keeps_role_def same_or_down_def dest!: stepDown_role split: if_splits bind_splits)

lemma onReadIndexResponse_role: "onReadIndexResponse ev n op resp = Some (n', op') \<Longrightarrow> same_or_down n n'"
  by (auto simp: onReadIndexResponse_def Let_def keeps_role_def same_or_down_def dest!: stepDown_role split: if_splits)

lemma HandleReadIndex_role: "HandleReadIndex ev n req = Some (n', resp) \<Longrightarrow> same_or_down n n'"
  by (auto simp: HandleReadIndex_def Let_def keeps_role_def same_or_down_def dest!: stepDown_role reset_mem split: if_splits bind_splits)

lemma HandleRequestVote_role: "HandleRequestVote ev n req = Some (n', resp) \<Longrightarrow> same_or_down n n'"
  by (auto simp: HandleRequestVote_def Let_def keeps_role_def same_or_down_def with_store_Some dest!: stepDown_role reset_mem
      setHardState_mem split: if_splits bind_splits)

lemma HandleAppendEntries_role: "HandleAppendEntries pb ev n req = Some (n', resp) \<Longrightarrow> same_or_down n n'"
  by (auto simp: HandleAppendEntries_def storeEntries_def Let_def keeps_role_def same_or_down_def dest!: stepDown_role reset_role with_store_role
      split: if_splits bind_splits option.splits)

lemma HandleInstallSnapshot_role: "HandleInstallSnapshot pb ev n req = Some (n', resp, es) \<Longrightarrow> same_or_down n n'"
  by (auto simp: HandleInstallSnapshot_def Let_def keeps_role_def same_or_down_def dest!: stepDown_role reset_role with_store_role
      split: if_splits bind_splits)

section \<open>Elections of a node\<close>

lemma startElection_cases:
  assumes "startElectionLocked ev n = Some (n', es)"
  shows "n_id n' = n_id n \<and>
    (es = [] \<and> n_role n' = n_role n \<and> n_votes n' = n_votes n \<and> n_store n' = n_store n \<or>
     Contains (n_conf n) (n_id n) \<and> n_role n' = candidate \<and> n_term n' = n_term n + 1 \<and> n_votedFor n' = n_id n \<and>
       (es = [] \<or> n_votes n' = 1) \<and>
       (\<forall>x \<in> set es. \<exists>p req. x = SendRequestVote p req \<and> rv_Term req = n_term n + 1 \<and> rv_CandidateId req = n_id n \<and>
          p \<in> set (peerIDsLocked n) \<and> p \<noteq> n_id n))"
proof (cases "Contains (n_conf n) (n_id n) \<and> \<not> (length (VoterIDs (n_conf n)) = 1 \<and> lastIndex (n_store n) = ds_snapIndex (n_store n))")
  case True
  obtain n1 err where h: "with_store (n\<lparr>n_role := candidate\<rparr>) (setHardState (n_store n) (n_term n + 1) (n_id n)) = Some (n1, err)"
    using assms True by (auto simp: startElectionLocked_def Let_def split: bind_splits)
  then obtain s where s: "n1 = n\<lparr>n_role := candidate, n_store := s\<rparr>" "setHardState (n_store n) (n_term n + 1) (n_id n) = Some (s, err)"
    by (auto simp: with_store_Some)
  obtain w where w: "s = (n_store n)\<lparr>ds_term := n_term n + 1, ds_votedFor := n_id n, ds_wal := Some w\<rparr>"
    using setHardState_mem [OF s(2)] by blast
  show ?thesis
  proof (cases err)
    case (Some e)
    then have "n' = n1" "es = []" using assms True h by (auto simp: startElectionLocked_def Let_def)
    then show ?thesis using True s(1) w by simp
  next
    case None
    obtain n2 t b where r: "resetElectionTimerLocked ev (n1\<lparr>n_leaderID := 0\<rparr>) = Some n2"
      and t: "termAt (n_store n2) (lastIndex (n_store n2)) = Some (t, b)"
      using assms True h None by (auto simp: startElectionLocked_def Let_def split: bind_splits)
    let ?req = "\<lparr>rv_Term = n_term n + 1, rv_CandidateId = n_id n2, rv_LastLogIndex = lastIndex (n_store n2), rv_LastLogTerm = t\<rparr>"
    have out: "n' = n2\<lparr>n_votes := 1\<rparr>" "es = map (\<lambda>p. SendRequestVote p ?req) (filter (\<lambda>p. p \<noteq> n_id n2) (peerIDsLocked n2))"
      using assms True h None r t by (auto simp: startElectionLocked_def Let_def)
    obtain d where "n2 = n1\<lparr>n_leaderID := 0, n_electionDeadline := d\<rparr>" using reset_mem [OF r] by auto
    then show ?thesis using True s(1) w by (simp add: out peerIDsLocked_def)
  qed
next
  case False
  then have "\<exists>n2. resetElectionTimerLocked ev n = Some n2 \<and> n' = n2 \<and> es = []"
    using assms by (auto simp: startElectionLocked_def split: if_splits)
  then show ?thesis using reset_mem [of ev n n'] by auto
qed

lemma becomeLeader_role:
  "becomeLeaderLocked pb ev n = Some (n', es) \<Longrightarrow> n_role n' = leader \<and> n_id n' = n_id n \<and> n_votes n' = n_votes n"
  by (auto simp: becomeLeaderLocked_def Let_def keeps_role_def with_store_Some dest!: broadcast_role split: if_splits bind_splits)

lemma onVoteResponse_cases:
  assumes "onVoteResponse pb ev n t resp = Some (n', es)"
  shows "role_le n n' \<or>
    n_role n = candidate \<and> n_term n = t \<and> rvr_VoteGranted resp \<and> n_id n' = n_id n \<and> hard_eq n n' \<and>
      (n_role n' = candidate \<and> n_votes n' = n_votes n + 1 \<or> n_role n' = leader \<and> HasVoteQuorum (n_conf n) (n_votes n + 1))"
proof (cases "rvr_Term resp > n_term n")
  case True
  then have "stepDownLocked ev n (rvr_Term resp) = Some n'" using assms by (auto simp: onVoteResponse_def)
  then show ?thesis using stepDown_role stepDown_hard_le by (auto simp: role_le_def keeps_role_def)
next
  case False
  show ?thesis
  proof (cases "n_role n = candidate \<and> n_term n = t \<and> rvr_VoteGranted resp")
    case c: True
    let ?n = "n\<lparr>n_votes := n_votes n + 1\<rparr>"
    show ?thesis
    proof (cases "HasVoteQuorum (n_conf n) (n_votes n + 1)")
      case True
      then have b: "becomeLeaderLocked pb ev ?n = Some (n', es)" using assms False c by (simp add: onVoteResponse_def Let_def)
      have "hard_eq n n'" using becomeLeader_hard [OF b] by (simp add: hard_eq_def)
      then show ?thesis using becomeLeader_role [OF b] c True by simp
    next
      case nq: False
      then have "n' = ?n" using assms False c by (simp add: onVoteResponse_def Let_def)
      then show ?thesis using c by (simp add: hard_eq_def)
    qed
  next
    case False2: False
    then have "n' = n" using assms False by (auto simp: onVoteResponse_def split: if_splits)
    then show ?thesis by (simp add: role_le_def)
  qed
qed

section \<open>Steps outside elections\<close>

text \<open>The steps of a node other than those of an election, with any arguments; a restart brings back
  the term and the vote, as the storage guarantees for those it reported as written.\<close>

inductive other_step :: "codec \<Rightarrow> Node \<Rightarrow> Node \<Rightarrow> bool" for pb n where
  propose: "Propose pb n c = Some (n', r) \<Longrightarrow> other_step pb n n'"
| propose_conf: "ProposeConfChange pb n cc = Some (n', r) \<Longrightarrow> other_step pb n n'"
| broadcast: "n_role n = leader \<Longrightarrow> run_tick ev n = Some (n', es) \<Longrightarrow> other_step pb n n'"
| kicked: "n_role n = leader \<Longrightarrow> run_kick ev n = Some (n', es) \<Longrightarrow> other_step pb n n'"
| append_resp: "onAppendResponse ev n p ar ap = Some n' \<Longrightarrow> other_step pb n n'"
| snap_resp: "onSnapshotResponse ev n p sr sp = Some n' \<Longrightarrow> other_step pb n n'"
| read_resp: "onReadIndexResponse ev n op rr = Some (n', op') \<Longrightarrow> other_step pb n n'"
| rpc_done: "n' = clearInflight n p \<Longrightarrow> other_step pb n n'"
| append_req: "HandleAppendEntries pb ev n aq = Some (n', ap) \<Longrightarrow> other_step pb n n'"
| snap_req: "HandleInstallSnapshot pb ev n sq = Some (n', sp, es) \<Longrightarrow> other_step pb n n'"
| read_req: "HandleReadIndex ev n rq = Some (n', rr) \<Longrightarrow> other_step pb n n'"
| snapshot: "Snapshot pb n i d = Some (n', e) \<Longrightarrow> other_step pb n n'"
| applying: "applier n = Some (n', es) \<Longrightarrow> other_step pb n n'"
| stop: "Stop n = Some n' \<Longrightarrow> other_step pb n n'"
| restart: "NewNode pb io d ev cfg = Some (Inr n') \<Longrightarrow> n_id n' = n_id n \<Longrightarrow> hard_eq n n' \<Longrightarrow> other_step pb n n'"

lemma other_step_role: "other_step pb n n' \<Longrightarrow> role_le n n'"
proof (induction rule: other_step.induct)
  case (broadcast ev n' es)
  then have b: "broadcastAppendLocked ev n = Some (n', es)" by (simp add: run_tick_def run_body_def)
  from hard_eq_same [OF _ core_hard_eq [OF broadcast_core [OF b]]] broadcast_role [OF b] show ?case by blast
next
  case (kicked ev n' es)
  have k: "role_le (n\<lparr>n_kick := False\<rparr>) n' = role_le n n'" by (simp add: role_le_def hard_le_def)
  show ?case
  proof (cases "n_kick n")
    case True
    then have b: "broadcastAppendLocked ev (n\<lparr>n_kick := False\<rparr>) = Some (n', es)" using kicked by (simp add: run_kick_def run_body_def)
    from hard_eq_same [OF _ core_hard_eq [OF broadcast_core [OF b]]] broadcast_role [OF b] show ?thesis unfolding k [symmetric] by blast
  qed (use kicked in \<open>simp add: run_kick_def role_le_def\<close>)
next
  case (restart io d ev cfg n')
  have "n_role n' = follower"
    using restart(1) by (auto simp: NewNode_def Let_def resetElectionTimerLocked_def split: sum.splits store_err.splits if_splits)
  then show ?case using restart(2,3) hard_eq_le by (simp add: role_le_def)
next
  case (propose c n' r)
  then show ?case by (intro hard_eq_same [OF Propose_role Propose_hard])
next
  case (propose_conf cc n' r)
  then show ?case by (intro hard_eq_same [OF ProposeConfChange_role ProposeConfChange_hard])
next
  case (append_resp ev p ar ap n')
  then show ?case by (intro role_leI [OF onAppendResponse_role onAppendResponse_hard])
next
  case (snap_resp ev p sr sp n')
  then show ?case by (intro role_leI [OF onSnapshotResponse_role onSnapshotResponse_hard])
next
  case (read_resp ev op rr n' op')
  then show ?case by (intro role_leI [OF onReadIndexResponse_role onReadIndexResponse_hard])
next
  case (append_req ev aq n' ap)
  then show ?case by (intro role_leI [OF HandleAppendEntries_role HandleAppendEntries_hard])
next
  case (snap_req ev sq n' sp es)
  then show ?case by (intro role_leI [OF HandleInstallSnapshot_role HandleInstallSnapshot_hard])
next
  case (read_req ev rq n' rr)
  then show ?case by (intro role_leI [OF HandleReadIndex_role HandleReadIndex_hard])
next
  case (snapshot i d n' e)
  then show ?case by (intro hard_eq_same [OF Snapshot_role Snapshot_hard])
next
  case (applying n' es)
  then show ?case by (intro hard_eq_same [OF applier_role applier_hard])
next
  case (stop n')
  then show ?case by (intro hard_eq_same [OF Stop_role Stop_hard])
next
  case (rpc_done n' p)
  then show ?case by (simp add: clearInflight_def role_le_def hard_le_def)
qed

end
