(* ===== verification/RaftElection.thy ===== *)
theory RaftElection
  imports RaftRoles RaftReplication
begin

text \<open>
  Elections in a cluster of Raft nodes: nodes exchange the vote requests and responses of
  \<open>raft/node.go\<close> over a network that delays, reorders and loses them, and take any other step of
  theirs in between.  No term has two leaders.
\<close>

section \<open>The cluster\<close>

text \<open>
  The nodes by their ids, and the vote requests and responses on their way, by sender, receiver and
  term: \<open>startElectionLocked\<close> starts one goroutine per peer, which sends one request and handles at most
  one response.  The last two fields record what happened: who voted for whom in which term, and who
  became leader.
\<close>

record cluster =
  k_nodes :: "u64 \<Rightarrow> Node"
  k_reqs :: "u64 \<times> u64 \<times> u64 \<rightharpoonup> RequestVoteRequest"
  k_resps :: "u64 \<times> u64 \<times> u64 \<rightharpoonup> RequestVoteResponse"
  k_votes :: "(u64 \<times> u64 \<times> u64) set"
  k_leaders :: "(u64 \<times> u64) set"

fun send_reqs :: "u64 \<Rightarrow> effect list \<Rightarrow> (u64 \<times> u64 \<times> u64 \<rightharpoonup> RequestVoteRequest) \<Rightarrow> u64 \<times> u64 \<times> u64 \<rightharpoonup> RequestVoteRequest" where
  "send_reqs i [] m = m"
| "send_reqs i (SendRequestVote p req # es) m = send_reqs i es (m((i, p, rv_Term req) \<mapsto> req))"
| "send_reqs i (_ # es) m = send_reqs i es m"

lemma send_reqs_new:
  "send_reqs i es m k = Some req \<Longrightarrow> m k = Some req \<or> (\<exists>p. SendRequestVote p req \<in> set es \<and> k = (i, p, rv_Term req))"
  by (induction i es m rule: send_reqs.induct) (auto split: if_splits)

text \<open>A step of the cluster.  The membership \<open>c\<close> stays the same; changing it is a separate protocol.\<close>

definition fixed_conf :: "ConfState \<Rightarrow> cluster \<Rightarrow> bool" where
  "fixed_conf c k \<longleftrightarrow> (\<forall>i. n_conf (k_nodes k i) = c)"

inductive cluster_step :: "codec \<Rightarrow> cluster \<Rightarrow> cluster \<Rightarrow> bool" for pb k where
  other: "other_step pb (k_nodes k i) n' \<Longrightarrow> cluster_step pb k (k\<lparr>k_nodes := (k_nodes k)(i := n')\<rparr>)"
| elect: "n_role (k_nodes k i) \<noteq> leader \<Longrightarrow> n_term (k_nodes k i) < - 1 \<Longrightarrow> n0 = k_nodes k i \<or> n0 = (k_nodes k i)\<lparr>n_kick := False\<rparr> \<Longrightarrow>
    run_body ev n0 = Some (n', es) \<Longrightarrow>
    cluster_step pb k (k\<lparr>k_nodes := (k_nodes k)(i := n'), k_reqs := send_reqs i es (k_reqs k),
      k_votes := k_votes k \<union> (if n_term n' = n_term (k_nodes k i) then {} else {(i, n_term n', i)})\<rparr>)"
| deliver: "k_reqs k (i, p, t) = Some req \<Longrightarrow> HandleRequestVote ev (k_nodes k p) req = Some (n', resp) \<Longrightarrow>
    cluster_step pb k (k\<lparr>k_nodes := (k_nodes k)(p := n'), k_reqs := (k_reqs k)((i, p, t) := None),
      k_resps := (k_resps k)((i, p, t) \<mapsto> resp), k_votes := k_votes k \<union> (if rvr_VoteGranted resp then {(p, t, i)} else {})\<rparr>)"
| answer: "k_resps k (i, p, t) = Some resp \<Longrightarrow> onVoteResponse pb ev (k_nodes k i) t resp = Some (n', es) \<Longrightarrow>
    cluster_step pb k (k\<lparr>k_nodes := (k_nodes k)(i := n'), k_resps := (k_resps k)((i, p, t) := None),
      k_leaders := k_leaders k \<union> (if n_role n' = leader then {(n_term n', i)} else {})\<rparr>)"
| lose: "cluster_step pb k (k\<lparr>k_reqs := (k_reqs k)(x := None), k_resps := (k_resps k)(y := None)\<rparr>)"

inductive cluster_reach :: "codec \<Rightarrow> ConfState \<Rightarrow> cluster \<Rightarrow> bool" for pb c where
  start: "(\<And>i. n_id (nodes i) = i \<and> n_role (nodes i) = follower) \<Longrightarrow>
    fixed_conf c \<lparr>k_nodes = nodes, k_reqs = Map.empty, k_resps = Map.empty, k_votes = {}, k_leaders = {}\<rparr> \<Longrightarrow>
    cluster_reach pb c \<lparr>k_nodes = nodes, k_reqs = Map.empty, k_resps = Map.empty, k_votes = {}, k_leaders = {}\<rparr>"
| step: "cluster_reach pb c k \<Longrightarrow> cluster_step pb k k' \<Longrightarrow> fixed_conf c k' \<Longrightarrow> cluster_reach pb c k'"

section \<open>Election safety\<close>

text \<open>Votes stay where they were given, and nobody votes twice in a term.\<close>

definition votes_ok :: "cluster \<Rightarrow> bool" where
  "votes_ok k \<longleftrightarrow>
     (\<forall>p t a. (p, t, a) \<in> k_votes k \<longrightarrow> a \<noteq> 0 \<and>
        (t < n_term (k_nodes k p) \<or> t = n_term (k_nodes k p) \<and> n_votedFor (k_nodes k p) = a)) \<and>
     (\<forall>p t a b. (p, t, a) \<in> k_votes k \<longrightarrow> (p, t, b) \<in> k_votes k \<longrightarrow> a = b)"

text \<open>What is on its way belongs to an election of its sender, once.\<close>

definition req_ok :: "ConfState \<Rightarrow> u64 \<Rightarrow> u64 \<times> u64 \<times> u64 \<Rightarrow> RequestVoteRequest \<Rightarrow> bool" where
  "req_ok c term x req = (case x of (i, p, t) \<Rightarrow> rv_Term req = t \<and> rv_CandidateId req = i \<and> t \<le> term \<and>
     i \<in> set (AllPeerIDs c) \<and> p \<in> set (AllPeerIDs c) \<and> p \<noteq> i)"

definition resp_ok :: "ConfState \<Rightarrow> u64 \<Rightarrow> (u64 \<times> u64 \<times> u64) set \<Rightarrow> u64 \<times> u64 \<times> u64 \<Rightarrow> RequestVoteResponse \<Rightarrow> bool" where
  "resp_ok c term votes x resp = (case x of (i, p, t) \<Rightarrow> t \<le> term \<and> i \<in> set (AllPeerIDs c) \<and> p \<in> set (AllPeerIDs c) \<and>
     (rvr_VoteGranted resp \<longrightarrow> (p, t, i) \<in> votes))"

definition msgs_ok :: "ConfState \<Rightarrow> cluster \<Rightarrow> bool" where
  "msgs_ok c k \<longleftrightarrow>
     (\<forall>x req. k_reqs k x = Some req \<longrightarrow> req_ok c (n_term (k_nodes k (fst x))) x req) \<and>
     (\<forall>x resp. k_resps k x = Some resp \<longrightarrow> resp_ok c (n_term (k_nodes k (fst x))) (k_votes k) x resp)"

lemma msgs_okI [intro?]:
  assumes "\<And>x req. k_reqs k x = Some req \<Longrightarrow> req_ok c (n_term (k_nodes k (fst x))) x req"
    "\<And>x resp. k_resps k x = Some resp \<Longrightarrow> resp_ok c (n_term (k_nodes k (fst x))) (k_votes k) x resp"
  shows "msgs_ok c k"
  using assms by (simp add: msgs_ok_def)

lemma msgs_okD:
  assumes "msgs_ok c k"
  shows "k_reqs k x = Some req \<Longrightarrow> req_ok c (n_term (k_nodes k (fst x))) x req"
    "k_resps k x = Some resp \<Longrightarrow> resp_ok c (n_term (k_nodes k (fst x))) (k_votes k) x resp"
  using assms unfolding msgs_ok_def by blast+

lemma req_ok_mono: "req_ok c t x req \<Longrightarrow> t \<le> t' \<Longrightarrow> req_ok c t' x req"
  by (auto simp: req_ok_def)

lemma resp_ok_mono: "resp_ok c t v x resp \<Longrightarrow> t \<le> t' \<Longrightarrow> v \<subseteq> v' \<Longrightarrow> resp_ok c t' v' x resp"
  by (auto simp: resp_ok_def)

text \<open>The message state may lose messages while terms and votes grow.\<close>

lemma msgs_mono:
  assumes ok: "msgs_ok c k" and "\<And>i. n_term (k_nodes k i) \<le> n_term (k_nodes k' i)" "k_votes k \<subseteq> k_votes k'"
    and "k_reqs k' \<subseteq>\<^sub>m k_reqs k" "k_resps k' \<subseteq>\<^sub>m k_resps k"
  shows "msgs_ok c k'"
proof
  fix x req assume "k_reqs k' x = Some req"
  then have "k_reqs k x = Some req" using assms(4) by (metis domI map_le_def)
  then show "req_ok c (n_term (k_nodes k' (fst x))) x req" using msgs_okD(1) [OF ok] req_ok_mono assms(2) by blast
next
  fix x resp assume "k_resps k' x = Some resp"
  then have "k_resps k x = Some resp" using assms(5) by (metis domI map_le_def)
  then show "resp_ok c (n_term (k_nodes k' (fst x))) (k_votes k') x resp"
    using msgs_okD(2) [OF ok] resp_ok_mono assms(2,3) by blast
qed

definition busy :: "cluster \<Rightarrow> u64 \<Rightarrow> u64 \<Rightarrow> u64 \<Rightarrow> bool" where
  "busy k i p t \<longleftrightarrow> k_reqs k (i, p, t) \<noteq> None \<or> k_resps k (i, p, t) \<noteq> None"

text \<open>The votes a candidate has counted are votes for it, of distinct voters whose goroutine is done.\<close>

definition counted :: "ConfState \<Rightarrow> cluster \<Rightarrow> u64 \<Rightarrow> bool" where
  "counted c k i \<longleftrightarrow> (\<exists>S. S \<subseteq> set (AllPeerIDs c) \<and> card S = n_votes (k_nodes k i) \<and>
     (\<forall>p \<in> S. (p, n_term (k_nodes k i), i) \<in> k_votes k \<and> \<not> busy k i p (n_term (k_nodes k i))))"

definition cands_ok :: "ConfState \<Rightarrow> cluster \<Rightarrow> bool" where
  "cands_ok c k \<longleftrightarrow> (\<forall>i. n_role (k_nodes k i) = candidate \<longrightarrow>
     (\<forall>p. \<not> busy k i p (n_term (k_nodes k i))) \<or> counted c k i)"

definition won :: "ConfState \<Rightarrow> cluster \<Rightarrow> u64 \<Rightarrow> u64 \<Rightarrow> bool" where
  "won c k t i \<longleftrightarrow> (\<exists>S. S \<subseteq> set (AllPeerIDs c) \<and> HasVoteQuorum c (card S) \<and> (\<forall>p \<in> S. (p, t, i) \<in> k_votes k))"

definition leaders_ok :: "ConfState \<Rightarrow> cluster \<Rightarrow> bool" where
  "leaders_ok c k \<longleftrightarrow> (\<forall>t i. (t, i) \<in> k_leaders k \<longrightarrow> won c k t i) \<and>
     (\<forall>i. n_role (k_nodes k i) = leader \<longrightarrow> (n_term (k_nodes k i), i) \<in> k_leaders k)"

lemma leader_recorded: "leaders_ok c k \<Longrightarrow> n_role (k_nodes k i) = leader \<Longrightarrow> (n_term (k_nodes k i), i) \<in> k_leaders k"
  by (simp add: leaders_ok_def)

definition ids_ok :: "cluster \<Rightarrow> bool" where
  "ids_ok k \<longleftrightarrow> (\<forall>i. n_id (k_nodes k i) = i)"

definition once_ok :: "cluster \<Rightarrow> bool" where
  "once_ok k \<longleftrightarrow> (\<forall>x. k_reqs k x = None \<or> k_resps k x = None)"

definition cluster_ok :: "ConfState \<Rightarrow> cluster \<Rightarrow> bool" where
  "cluster_ok c k \<longleftrightarrow> ids_ok k \<and> once_ok k \<and> votes_ok k \<and> msgs_ok c k \<and> cands_ok c k \<and> leaders_ok c k"

lemma cluster_okI [intro?]:
  "ids_ok k \<Longrightarrow> once_ok k \<Longrightarrow> votes_ok k \<Longrightarrow> msgs_ok c k \<Longrightarrow> cands_ok c k \<Longrightarrow> leaders_ok c k \<Longrightarrow> cluster_ok c k"
  by (simp add: cluster_ok_def)

lemma cluster_okD:
  assumes "cluster_ok c k"
  shows "ids_ok k" "votes_ok k" "msgs_ok c k" "cands_ok c k" "leaders_ok c k" "once_ok k"
  using assms by (simp_all add: cluster_ok_def)

lemma once_okD: "once_ok k \<Longrightarrow> k_reqs k x = None \<or> k_resps k x = None"
  by (simp only: once_ok_def)

lemma votes_okD:
  assumes "votes_ok k" "(p, t, a) \<in> k_votes k"
  shows "a \<noteq> 0" "t < n_term (k_nodes k p) \<or> t = n_term (k_nodes k p) \<and> n_votedFor (k_nodes k p) = a"
    "(p, t, b) \<in> k_votes k \<Longrightarrow> a = b"
  using assms unfolding votes_ok_def by blast+

text \<open>A new vote is one in the current term of the voter, which has recorded it.\<close>

lemma votes_insert:
  assumes "votes_ok k" "a \<noteq> 0" "n_term (k_nodes k p) = t" "n_votedFor (k_nodes k p) = a"
    and "k_nodes k' = k_nodes k" "k_votes k' = insert (p, t, a) (k_votes k)"
  shows "votes_ok k'"
proof -
  have old: "b = a" if "(p, t, b) \<in> k_votes k" for b using votes_okD(2) [OF assms(1) that] assms(3,4) by simp
  show ?thesis using votes_okD [OF assms(1)] old assms(2-4) unfolding votes_ok_def assms(5,6) by (auto; blast)
qed

lemma won_unique:
  assumes "conf_wf c" "votes_ok k" "won c k t i" "won c k t j"
  shows "i = j"
proof -
  obtain S where S: "S \<subseteq> set (AllPeerIDs c)" "HasVoteQuorum c (card S)" "\<forall>p \<in> S. (p, t, i) \<in> k_votes k"
    using assms(3) by (auto simp: won_def)
  obtain T where T: "T \<subseteq> set (AllPeerIDs c)" "HasVoteQuorum c (card T)" "\<forall>p \<in> T. (p, t, j) \<in> k_votes k"
    using assms(4) by (auto simp: won_def)
  obtain p where "p \<in> S" "p \<in> T" using vote_quorums_meet [OF assms(1) S(1,2) T(1,2)] by blast
  then show ?thesis using S(3) T(3) votes_okD(3) [OF assms(2)] by blast
qed

lemma won_mono: "won c k t i \<Longrightarrow> k_votes k \<subseteq> k_votes k' \<Longrightarrow> won c k' t i"
  unfolding won_def by (elim exE) (rule exI, blast)

lemma leaders_mono:
  assumes "leaders_ok c k" "k_votes k \<subseteq> k_votes k'" "k_leaders k' = k_leaders k" "k_nodes k' = k_nodes k"
  shows "leaders_ok c k'"
  using assms(1) won_mono [OF _ assms(2)] unfolding leaders_ok_def assms(3,4) by simp

lemma counted_mono:
  assumes "counted c k i" "n_term (k_nodes k' i) = n_term (k_nodes k i)" "n_votes (k_nodes k' i) = n_votes (k_nodes k i)"
    "k_votes k \<subseteq> k_votes k'" "\<And>p t. busy k' i p t \<Longrightarrow> busy k i p t"
  shows "counted c k' i"
proof -
  obtain S where S: "S \<subseteq> set (AllPeerIDs c)" "card S = n_votes (k_nodes k i)"
    "\<forall>p \<in> S. (p, n_term (k_nodes k i), i) \<in> k_votes k \<and> \<not> busy k i p (n_term (k_nodes k i))"
    using assms(1) by (auto simp: counted_def)
  then have "\<forall>p \<in> S. (p, n_term (k_nodes k' i), i) \<in> k_votes k' \<and> \<not> busy k' i p (n_term (k_nodes k' i))"
    using assms(4,5) by (auto simp: assms(2))
  then show ?thesis using S(1,2) unfolding counted_def assms(3) by blast
qed

lemma cands_mono:
  assumes "cands_ok c k" "k_nodes k' = k_nodes k" "k_votes k \<subseteq> k_votes k'" "\<And>i p t. busy k' i p t \<Longrightarrow> busy k i p t"
  shows "cands_ok c k'"
  using assms(1) counted_mono [OF _ _ _ assms(3,4)] assms(4) unfolding cands_ok_def assms(2) by metis

lemma votes_upd:
  assumes "votes_ok k" "hard_le (k_nodes k i) n'"
  shows "votes_ok (k\<lparr>k_nodes := (k_nodes k)(i := n')\<rparr>)"
  using assms by (fastforce simp: votes_ok_def hard_le_def)

lemma hard_le_term: "hard_le n n' \<Longrightarrow> n_term n \<le> n_term n'"
  by (auto simp: hard_le_def)

lemma msgs_upd:
  assumes "msgs_ok c k" "hard_le (k_nodes k i) n'"
  shows "msgs_ok c (k\<lparr>k_nodes := (k_nodes k)(i := n')\<rparr>)"
  using hard_le_term [OF assms(2)] by (intro msgs_mono [OF assms(1)]) simp_all

lemma busy_upd [simp]: "busy (k\<lparr>k_nodes := f\<rparr>) = busy k"
  by (intro ext) (simp add: busy_def)

lemma node_upd_ok:
  assumes ok: "cluster_ok c k" and r: "role_le (k_nodes k i) n'"
  shows "cluster_ok c (k\<lparr>k_nodes := (k_nodes k)(i := n')\<rparr>)"
proof -
  let ?k = "k\<lparr>k_nodes := (k_nodes k)(i := n')\<rparr>"
  have h: "hard_le (k_nodes k i) n'" and id: "n_id n' = n_id (k_nodes k i)" using r by (simp_all add: role_le_def)
  have v: "votes_ok ?k" "msgs_ok c ?k" using ok votes_upd [OF _ h] msgs_upd [OF _ h] by (simp_all add: cluster_ok_def)
  have "ids_ok ?k" "once_ok ?k" using ok id by (simp_all add: cluster_ok_def ids_ok_def once_ok_def)
  moreover have "cands_ok c ?k"
      unfolding cands_ok_def
  proof (intro allI impI)
    fix j assume j: "n_role (k_nodes ?k j) = candidate"
    then have same: "n_role (k_nodes k j) = candidate" "n_term (k_nodes ?k j) = n_term (k_nodes k j)"
      "n_votes (k_nodes ?k j) = n_votes (k_nodes k j)"
      using r by (auto simp: role_le_def split: if_splits)
    then have "counted c ?k j = counted c k j" unfolding counted_def by simp
    then show "(\<forall>p. \<not> busy ?k j p (n_term (k_nodes ?k j))) \<or> counted c ?k j"
      using ok same(1) unfolding same(2) by (simp add: cluster_ok_def cands_ok_def)
  qed
  moreover have "leaders_ok c ?k"
    using ok r by (auto simp: cluster_ok_def leaders_ok_def won_def role_le_def)
  ultimately show ?thesis using v by (simp add: cluster_ok_def)
qed

lemma lose_ok:
  assumes ok: "cluster_ok c k" and sub: "r \<subseteq>\<^sub>m k_reqs k" "q \<subseteq>\<^sub>m k_resps k"
  shows "cluster_ok c (k\<lparr>k_reqs := r, k_resps := q\<rparr>)" (is "cluster_ok c ?k")
proof
  have d: "r x \<noteq> None \<Longrightarrow> k_reqs k x \<noteq> None" "q x \<noteq> None \<Longrightarrow> k_resps k x \<noteq> None" for x
    using map_le_implies_dom_le [OF sub(1)] map_le_implies_dom_le [OF sub(2)] by blast+
  have b: "busy ?k i p t \<Longrightarrow> busy k i p t" for i p t
    using d(1) [of "(i, p, t)"] d(2) [of "(i, p, t)"] by (simp add: busy_def del: not_None_eq) blast
  show "cands_ok c ?k" by (rule cands_mono [OF cluster_okD(4) [OF ok] _ _ b]) simp_all
  show "msgs_ok c ?k" by (rule msgs_mono [OF cluster_okD(3) [OF ok]]) (simp_all add: sub)
  show "leaders_ok c ?k" by (rule leaders_mono [OF cluster_okD(5) [OF ok]]) simp_all
  show "once_ok ?k" using cluster_okD(6) [OF ok] d unfolding once_ok_def by (simp del: not_None_eq) metis
qed (use cluster_okD(1,2) [OF ok] in \<open>simp_all add: ids_ok_def votes_ok_def\<close>)

lemma granted_hard:
  assumes "HandleRequestVote ev n req = Some (n', resp)" "rvr_VoteGranted resp"
  shows "n_term n' = rv_Term req \<and> n_votedFor n' = rv_CandidateId req"
proof (rule HandleRequestVote_granted [OF assms], goal_cases)
  case (1 n1 t s2 d)
  show ?case using setHardState_mem [OF 1(7)] stepDown_term [OF 1(1,2)] by (auto simp: 1(8))
qed

lemma deliver_ok:
  assumes ok: "cluster_ok c k" and z: "0 \<notin> set (AllPeerIDs c)" and req: "k_reqs k (i, p, t) = Some req"
    and h: "HandleRequestVote ev (k_nodes k p) req = Some (n', resp)"
  shows "cluster_ok c (k\<lparr>k_nodes := (k_nodes k)(p := n'), k_reqs := (k_reqs k)((i, p, t) := None),
    k_resps := (k_resps k)((i, p, t) \<mapsto> resp), k_votes := k_votes k \<union> (if rvr_VoteGranted resp then {(p, t, i)} else {})\<rparr>)"
    (is "cluster_ok c ?k")
proof -
  let ?m = "k\<lparr>k_nodes := (k_nodes k)(p := n')\<rparr>"
  have m: "cluster_ok c ?m"
    by (intro node_upd_ok [OF ok] role_leI [OF HandleRequestVote_role [OF h] HandleRequestVote_hard [OF h]])
  have i: "i \<noteq> 0" "rv_Term req = t" "rv_CandidateId req = i" "i \<in> set (AllPeerIDs c)" "p \<in> set (AllPeerIDs c)"
    using msgs_okD(1) [OF cluster_okD(3) [OF ok] req] z by (auto simp: req_ok_def)
  have g: "n_term n' = t" "n_votedFor n' = i" if "rvr_VoteGranted resp"
    using granted_hard [OF h that] i by simp_all
  have b: "busy ?k = busy ?m" using req by (intro ext) (auto simp: busy_def)
  have votes: "votes_ok ?k"
  proof (cases "rvr_VoteGranted resp")
    case True
    then show ?thesis using g i(1) by (intro votes_insert [OF cluster_okD(2) [OF m]]) simp_all
  qed (use cluster_okD(2) [OF m] in \<open>simp add: votes_ok_def\<close>)
  have msgs: "msgs_ok c ?k"
  proof
    fix x resp' assume "k_resps ?k x = Some resp'"
    then consider "x = (i, p, t)" "resp' = resp" | "k_resps ?m x = Some resp'" by (cases "x = (i, p, t)") auto
    then show "resp_ok c (n_term (k_nodes ?k (fst x))) (k_votes ?k) x resp'"
    proof cases
      case 1
      have "req_ok c (n_term (k_nodes ?m i)) (i, p, t) req" using msgs_okD(1) [OF cluster_okD(3) [OF m], of "(i, p, t)" req] req by simp
      then show ?thesis using 1 by (simp add: req_ok_def resp_ok_def)
    next
      case 2
      from msgs_okD(2) [OF cluster_okD(3) [OF m] 2] show ?thesis by (rule resp_ok_mono) simp_all
    qed
  next
    fix x r assume "k_reqs ?k x = Some r"
    then have "k_reqs ?m x = Some r" by (simp split: if_splits)
    from msgs_okD(1) [OF cluster_okD(3) [OF m] this] show "req_ok c (n_term (k_nodes ?k (fst x))) x r" by simp
  qed
  have "cands_ok c ?k" by (rule cands_mono [OF cluster_okD(4) [OF m]]) (auto simp: b)
  moreover have "leaders_ok c ?k" by (rule leaders_mono [OF cluster_okD(5) [OF m]]) auto
  moreover have "ids_ok ?k" "once_ok ?k" using cluster_okD(1,6) [OF m] by (simp_all add: ids_ok_def once_ok_def)
  ultimately show ?thesis using votes msgs by (intro cluster_okI)
qed

lemma run_body_cases:
  assumes "run_body ev n = Some (n', es)" "n_role n \<noteq> leader" "n_term n < - 1"
  obtains (idle) "es = []" "role_le n n'" "n_term n' = n_term n"
  | (started) "n_id n' = n_id n" "hard_le n n'" "n_term n < n_term n'" "n_votedFor n' = n_id n" "n_role n' = candidate"
    "Contains (n_conf n) (n_id n)" "es = [] \<or> n_votes n' = 1"
    "\<forall>x \<in> set es. \<exists>p req. x = SendRequestVote p req \<and> rv_Term req = n_term n' \<and> rv_CandidateId req = n_id n \<and>
       p \<in> set (peerIDsLocked n) \<and> p \<noteq> n_id n"
proof (cases "now ev > n_electionDeadline n")
  case True
  then have e: "startElectionLocked ev n = Some (n', es)" using assms(1,2) by (auto simp: run_body_def split: role.splits)
  have up: "n_term n < n_term n + 1" by (rule u64_less_succ [OF assms(3)])
  show ?thesis
    using startElection_cases [OF e]
  proof (elim conjE disjE, goal_cases)
    case 1
    then show ?case by (intro idle) (simp_all add: role_le_def hard_le_def)
  qed (rule started; use up in \<open>simp add: hard_le_def\<close>)+
next
  case False
  then have "n' = n" "es = []" using assms(1,2) by (auto simp: run_body_def split: role.splits)
  then show ?thesis by (intro idle) (simp_all add: role_le_def)
qed

lemma send_reqs_other: "fst x \<noteq> i \<Longrightarrow> send_reqs i es m x = m x"
  by (induction i es m rule: send_reqs.induct) auto

text \<open>Nothing is on its way for a term its sender has not reached.\<close>

lemma not_busy_above:
  assumes "msgs_ok c k" "n_term (k_nodes k i) < t"
  shows "k_reqs k (i, p, t) = None" "k_resps k (i, p, t) = None"
proof -
  have "\<not> req_ok c (n_term (k_nodes k i)) (i, p, t) req" "\<not> resp_ok c (n_term (k_nodes k i)) v (i, p, t) resp" for req v resp
    using assms(2) by (auto simp: req_ok_def resp_ok_def)
  then show "k_reqs k (i, p, t) = None" "k_resps k (i, p, t) = None"
    using msgs_okD [OF assms(1), of "(i, p, t)"] by fastforce+
qed

lemma elect_ok:
  assumes ok: "cluster_ok c k" and c: "n_conf (k_nodes k i) = c" and z: "0 \<notin> set (AllPeerIDs c)"
    and r: "n_role n0 \<noteq> leader" "n_term n0 < - 1" "n0 = k_nodes k i \<or> n0 = (k_nodes k i)\<lparr>n_kick := False\<rparr>"
    and run: "run_body ev n0 = Some (n', es)"
  shows "cluster_ok c (k\<lparr>k_nodes := (k_nodes k)(i := n'), k_reqs := send_reqs i es (k_reqs k),
      k_votes := k_votes k \<union> (if n_term n' = n_term (k_nodes k i) then {} else {(i, n_term n', i)})\<rparr>)"
    (is "cluster_ok c ?k")
  using run r(1,2)
proof (cases rule: run_body_cases)
  case idle
  then have "role_le (k_nodes k i) n'" using r(3) by (auto simp: role_le_def hard_le_def)
  moreover have "?k = k\<lparr>k_nodes := (k_nodes k)(i := n')\<rparr>" using idle r(3) by (cases k) auto
  ultimately show ?thesis using node_upd_ok [OF ok] by metis
next
  case started
  let ?n = "k_nodes k i" and ?m = "k\<lparr>k_nodes := (k_nodes k)(i := n')\<rparr>"
  have same: "n_id n0 = i" "n_term n0 = n_term ?n" "n_conf n0 = c" "hard_le ?n n'"
    using cluster_okD(1) [OF ok] started(2) r(3) c by (auto simp: ids_ok_def hard_le_def)
  have i: "i \<in> set (AllPeerIDs c)" using started(6) same by (auto simp: Contains_def AllPeerIDs_def VoterIDs_def)
  have new: "n_term ?n < n_term n'" using started(3) same by simp
  have votes: "votes_ok ?k"
    using i z new started(4) same(1) by (intro votes_insert [OF votes_upd [OF cluster_okD(2) [OF ok] same(4)]]) auto
  have mm: "msgs_ok c ?m" by (rule msgs_upd [OF cluster_okD(3) [OF ok] same(4)])
  have sent: "p \<in> set (AllPeerIDs c) \<and> p \<noteq> i \<and> rv_Term req = n_term n' \<and> rv_CandidateId req = i"
    if "SendRequestVote p req \<in> set es" for p req
    using started(8) that same by (fastforce simp: peerIDsLocked_def)
  have none: "k_reqs k (i, p, n_term n') = None" "k_resps k (i, p, n_term n') = None" for p
    using not_busy_above [OF cluster_okD(3) [OF ok] new] by auto
  have old: "j = i \<and> t = n_term n' \<and> p \<noteq> i \<and> req_ok c (n_term n') (i, p, n_term n') req \<and> es \<noteq> []"
    if "k_reqs k (j, p, t) \<noteq> Some req" "send_reqs i es (k_reqs k) (j, p, t) = Some req" for req j p t
    using send_reqs_new [OF that(2)] that(1) sent i by (auto simp: req_ok_def)
  have "msgs_ok c ?k"
  proof
    fix x req assume a: "k_reqs ?k x = Some req"
    obtain j p t where x: "x = (j, p, t)" by (cases x)
    show "req_ok c (n_term (k_nodes ?k (fst x))) x req"
    proof (cases "k_reqs k x = Some req")
      case True
      then show ?thesis using msgs_okD(1) [OF mm, of x req] by simp
    next
      case False
      have o: "j = i" "t = n_term n'" "req_ok c (n_term n') (i, p, n_term n') req" using old [of j p t req] False a x by simp_all
      show ?thesis unfolding x o(1,2) using o(3) by simp
    qed
  next
    fix x resp assume "k_resps ?k x = Some resp"
    then have "resp_ok c (n_term (k_nodes ?m (fst x))) (k_votes ?m) x resp" by (intro msgs_okD(2) [OF mm]) simp
    then show "resp_ok c (n_term (k_nodes ?k (fst x))) (k_votes ?k) x resp" by (rule resp_ok_mono) simp_all
  qed
  moreover have "once_ok ?k"
    unfolding once_ok_def
  proof (intro allI)
    fix x :: "u64 \<times> u64 \<times> u64"
    obtain j p t where x: "x = (j, p, t)" by (cases x)
    have "k_reqs k x = None \<or> k_resps k x = None" by (rule once_okD [OF cluster_okD(6) [OF ok]])
    then show "k_reqs ?k x = None \<or> k_resps ?k x = None"
      using old [of j p t "the (send_reqs i es (k_reqs k) x)"] none(2) [of p] x
      by (cases "send_reqs i es (k_reqs k) x") force+
  qed
  moreover have "cands_ok c ?k"
    unfolding cands_ok_def
  proof (intro allI impI)
    fix j assume j: "n_role (k_nodes ?k j) = candidate"
    show "(\<forall>p. \<not> busy ?k j p (n_term (k_nodes ?k j))) \<or> counted c ?k j"
    proof (cases "j = i")
      case True
      have b: "p \<noteq> i" "es \<noteq> []" if "busy ?k i p (n_term n')" for p
        using old [of i p "n_term n'"] none [of p] that by (auto simp: busy_def)
      have "counted c ?k i" if "es \<noteq> []"
        unfolding counted_def
      proof (intro exI [of _ "{i}"] conjI ballI)
        show "\<not> busy ?k i p (n_term (k_nodes ?k i))" if "p \<in> {i}" for p using b(1) [of p] that by auto
      qed (use that started(7) new i in auto)
      then show ?thesis using b(2) True by auto
    next
      case False
      then have b: "busy ?k j p t = busy k j p t" for p t by (simp add: busy_def send_reqs_other)
      have "(\<forall>p. \<not> busy k j p (n_term (k_nodes k j))) \<or> counted c k j"
        using cluster_okD(4) [OF ok] j False by (simp add: cands_ok_def)
      moreover have "counted c ?k j" if "counted c k j"
        by (rule counted_mono [OF that]) (use False b in auto)
      ultimately show ?thesis using False unfolding b by auto
    qed
  qed
  moreover have "leaders_ok c ?k"
    using cluster_okD(5) [OF ok] won_mono [of c k _ _ ?k] started(5) by (auto simp: leaders_ok_def)
  moreover have "ids_ok ?k" using cluster_okD(1) [OF ok] started(1) same(1) by (simp add: ids_ok_def)
  ultimately show ?thesis using votes by (intro cluster_okI)
qed

lemma answer_ok:
  assumes ok: "cluster_ok c k" and c: "n_conf (k_nodes k i) = c" and q: "k_resps k (i, p, t) = Some resp"
    and h: "onVoteResponse pb ev (k_nodes k i) t resp = Some (n', es)"
  shows "cluster_ok c (k\<lparr>k_nodes := (k_nodes k)(i := n'), k_resps := (k_resps k)((i, p, t) := None),
      k_leaders := k_leaders k \<union> (if n_role n' = leader then {(n_term n', i)} else {})\<rparr>)"
    (is "cluster_ok c ?k")
  using onVoteResponse_cases [OF h]
proof (elim disjE)
  assume r: "role_le (k_nodes k i) n'"
  let ?m = "k\<lparr>k_nodes := (k_nodes k)(i := n')\<rparr>"
  have m: "cluster_ok c ?m" by (rule node_upd_ok [OF ok r])
  have "(n_term n', i) \<in> k_leaders k" if "n_role n' = leader"
    using leader_recorded [OF cluster_okD(5) [OF m], of i] that by simp
  then have "?k = ?m\<lparr>k_reqs := k_reqs k, k_resps := (k_resps k)((i, p, t) := None)\<rparr>" by (cases k) auto
  then show ?thesis using lose_ok [OF m, of "k_reqs k" "(k_resps k)((i, p, t) := None)"] by (simp add: map_le_def)
next
  let ?n = "k_nodes k i"
  assume "n_role ?n = candidate \<and> n_term ?n = t \<and> rvr_VoteGranted resp \<and> n_id n' = n_id ?n \<and> hard_eq ?n n' \<and>
    (n_role n' = candidate \<and> n_votes n' = n_votes ?n + 1 \<or> n_role n' = leader \<and> HasVoteQuorum (n_conf ?n) (n_votes ?n + 1))"
  then have a: "n_role ?n = candidate" "n_term ?n = t" "rvr_VoteGranted resp" "n_id n' = n_id ?n" "hard_le ?n n'" "n_term n' = t"
    and out: "n_role n' = candidate \<and> n_votes n' = n_votes ?n + 1 \<or> n_role n' = leader \<and> HasVoteQuorum c (n_votes ?n + 1)"
    using c by (auto simp: hard_eq_def hard_le_def)
  have busy: "busy k i p t" using q by (simp add: busy_def)
  then obtain S where S: "S \<subseteq> set (AllPeerIDs c)" "card S = n_votes ?n" "\<forall>p \<in> S. (p, t, i) \<in> k_votes k \<and> \<not> busy k i p t"
    using cluster_okD(4) [OF ok] a(1,2) unfolding cands_ok_def counted_def by blast
  have new: "p \<in> set (AllPeerIDs c)" "(p, t, i) \<in> k_votes k"
    using msgs_okD(2) [OF cluster_okD(3) [OF ok] q] a(3) by (simp_all add: resp_ok_def)
  have S': "insert p S \<subseteq> set (AllPeerIDs c)" "card (insert p S) = n_votes ?n + 1" "\<forall>p \<in> insert p S. (p, t, i) \<in> k_votes k"
    using S new busy finite_subset [OF S(1)] by auto
  have b: "busy ?k j x u \<Longrightarrow> busy k j x u" for j x u by (auto simp: busy_def split: if_splits)
  have idle: "\<not> busy ?k i x t" if "x \<in> insert p S" for x
    using S(3) b [of i x t] that once_okD [OF cluster_okD(6) [OF ok], of "(i, p, t)"] q by (auto simp: busy_def)
  have "cands_ok c ?k"
    unfolding cands_ok_def
  proof (intro allI impI)
    fix j assume j: "n_role (k_nodes ?k j) = candidate"
    show "(\<forall>p. \<not> busy ?k j p (n_term (k_nodes ?k j))) \<or> counted c ?k j"
    proof (cases "j = i")
      case True
      have "counted c ?k i"
        unfolding counted_def
      proof (intro exI [of _ "insert p S"] conjI ballI)
        show "card (insert p S) = n_votes (k_nodes ?k i)" using S'(2) out j True by auto
        show "\<not> busy ?k i x (n_term (k_nodes ?k i))" if "x \<in> insert p S" for x using idle [OF that] a(6) by simp
      qed (use S'(1,3) a(6) in auto)
      then show ?thesis using True by blast
    next
      case False
      have "(\<forall>p. \<not> busy k j p (n_term (k_nodes k j))) \<or> counted c k j"
        using cluster_okD(4) [OF ok] j False by (simp add: cands_ok_def)
      moreover have "counted c ?k j" if "counted c k j"
        by (rule counted_mono [OF that _ _ _ b]) (use False in auto)
      moreover have "busy ?k j x u = busy k j x u" for x u using False by (simp add: busy_def)
      ultimately show ?thesis using False by auto
    qed
  qed
  moreover have "leaders_ok c ?k"
  proof -
    have "won c ?k t i" if "n_role n' = leader"
      unfolding won_def using S' out that by (intro exI [of _ "insert p S"]) auto
    moreover have "won c ?k u j" if "won c k u j" for u j by (rule won_mono [OF that]) simp
    ultimately show ?thesis using cluster_okD(5) [OF ok] a(6) by (auto simp: leaders_ok_def)
  qed
  moreover have "votes_ok ?k" using votes_upd [OF cluster_okD(2) [OF ok] a(5)] by (simp add: votes_ok_def)
  moreover have "msgs_ok c ?k"
    by (rule msgs_mono [OF msgs_upd [OF cluster_okD(3) [OF ok] a(5)]]) (simp_all add: map_le_def)
  moreover have "ids_ok ?k" using cluster_okD(1) [OF ok] a(4) by (simp add: ids_ok_def)
  moreover have "once_ok ?k"
    unfolding once_ok_def using once_okD [OF cluster_okD(6) [OF ok]] by auto
  ultimately show ?thesis by (intro cluster_okI)
qed

lemma cluster_step_ok:
  assumes "cluster_step pb k k'" "cluster_ok c k" "fixed_conf c k" "0 \<notin> set (AllPeerIDs c)"
  shows "cluster_ok c k'"
  using assms(1)
proof cases
  case (other i n')
  then show ?thesis using node_upd_ok [OF assms(2) other_step_role] by simp
next
  case (elect i n0 ev n' es)
  have "n_role n0 \<noteq> leader" "n_term n0 < - 1" using elect(2-4) by auto
  then show ?thesis
    unfolding elect(1) using assms(3) by (intro elect_ok [OF assms(2) _ assms(4) _ _ elect(4,5)]) (simp_all add: fixed_conf_def)
next
  case (deliver i p t req ev n' resp)
  show ?thesis unfolding deliver(1) by (rule deliver_ok [OF assms(2,4) deliver(2,3)])
next
  case (answer i p t resp ev n' es)
  show ?thesis unfolding answer(1) using assms(3) by (intro answer_ok [OF assms(2) _ answer(2,3)]) (simp add: fixed_conf_def)
next
  case (lose x y)
  show ?thesis unfolding lose by (rule lose_ok [OF assms(2)]) (simp_all add: map_le_def)
qed

lemma cluster_reach_ok:
  assumes "cluster_reach pb c k" "0 \<notin> set (AllPeerIDs c)"
  shows "cluster_ok c k \<and> fixed_conf c k"
  using assms(1)
proof induction
  case (start nodes)
  then show ?case
    by (simp add: cluster_ok_def ids_ok_def once_ok_def votes_ok_def msgs_ok_def cands_ok_def leaders_ok_def)
next
  case (step k k')
  then show ?case using cluster_step_ok assms(2) by blast
qed

section \<open>A run of the cluster\<close>

text \<open>Three servers after their first start; server 1 asks for votes, server 2 grants its vote.\<close>

definition boot_cluster :: "u64 \<Rightarrow> Node" where
  "boot_cluster i = boot_node\<lparr>n_cfg := (n_cfg boot_node)\<lparr>cfg_ID := i\<rparr>\<rparr>"

lemma boot_cluster_eq:
  "boot_cluster i = sample_node\<lparr>n_store := sample_store\<lparr>ds_term := 0, ds_log := []\<rparr>, n_cfg := (n_cfg sample_node)\<lparr>cfg_ID := i\<rparr>\<rparr>"
  by (simp add: boot_cluster_def boot_node_def boot_open sample_node_def)

lemma boot_cluster_simps [simp]:
  "n_id (boot_cluster i) = i" "n_role (boot_cluster i) = follower" "n_conf (boot_cluster i) = NewConfState [1, 2, 3]"
  "n_term (boot_cluster i) = 0" "n_store (boot_cluster i) = sample_store\<lparr>ds_term := 0, ds_log := []\<rparr>"
  by (simp_all add: boot_cluster_eq sample_node_def)

lemma boot_votes:
  "\<exists>n'. HandleRequestVote sample_env (boot_cluster 2) (vote_request 1) = Some (n', \<lparr>rvr_Term = 1, rvr_VoteGranted = True\<rparr>) \<and>
     n_conf n' = NewConfState [1, 2, 3] \<and> n_role n' = follower"
  by (simp add: boot_cluster_eq sample_defs HandleRequestVote_def vote_request_def Contains_def NewConfState_def
      stepDownLocked_def resetElectionTimerLocked_def wal_eval store_eval upToDate_def Let_def)

lemma boot_elects:
  "\<exists>n1 es1 n2 es2. run_body sample_env (boot_cluster 1) = Some (n1, es1) \<and> n_conf n1 = NewConfState [1, 2, 3] \<and> n_term n1 = 1 \<and>
     send_reqs 1 es1 Map.empty (1, 2, 1) = Some (vote_request 1) \<and>
     onVoteResponse sample_codec sample_env n1 1 \<lparr>rvr_Term = 1, rvr_VoteGranted = True\<rparr> = Some (n2, es2) \<and>
     n_role n2 = leader \<and> n_term n2 = 1 \<and> n_conf n2 = NewConfState [1, 2, 3]"
  by (simp add: run_body_def startElectionLocked_def onVoteResponse_def becomeLeaderLocked_def broadcastAppendLocked_def sendAppendLocked_def
      resetElectionTimerLocked_def Contains_def NewConfState_def VoterIDs_def JointIDs_def AllPeerIDs_def peerIDsLocked_def sortedKeys_def
      HasVoteQuorum_def InJoint_def majority_def fcard.rep_eq boot_cluster_eq sample_defs vote_request_def
      wal_eval store_eval entriesFrom_def sample_codec_def nil_get_def mget_def Let_def appendRequest_def)

lemma boot_reaches_leader:
  "\<exists>k. cluster_reach sample_codec (NewConfState [1, 2, 3]) k \<and> n_role (k_nodes k 1) = leader \<and> n_term (k_nodes k 1) = 1"
proof -
  let ?c = "NewConfState [1, 2, 3]"
  let ?resp = "\<lparr>rvr_Term = 1, rvr_VoteGranted = True\<rparr>"
  obtain n1 es1 n2 es2 where e: "run_body sample_env (boot_cluster 1) = Some (n1, es1)" "n_conf n1 = ?c" "n_term n1 = 1"
    "send_reqs 1 es1 Map.empty (1, 2, 1) = Some (vote_request 1)"
    "onVoteResponse sample_codec sample_env n1 1 ?resp = Some (n2, es2)" "n_role n2 = leader" "n_term n2 = 1" "n_conf n2 = ?c"
    using boot_elects by blast
  obtain m where m: "HandleRequestVote sample_env (boot_cluster 2) (vote_request 1) = Some (m, ?resp)" "n_conf m = ?c"
    using boot_votes by blast
  let ?k0 = "\<lparr>k_nodes = boot_cluster, k_reqs = Map.empty, k_resps = Map.empty, k_votes = {}, k_leaders = {}\<rparr>"
  have k0: "cluster_reach sample_codec ?c ?k0" by (rule cluster_reach.start) (simp_all add: fixed_conf_def)
  have "cluster_step sample_codec ?k0 (?k0\<lparr>k_nodes := (k_nodes ?k0)(1 := n1), k_reqs := send_reqs 1 es1 (k_reqs ?k0),
      k_votes := k_votes ?k0 \<union> (if n_term n1 = n_term (k_nodes ?k0 1) then {} else {(1, n_term n1, 1)})\<rparr>)" (is "cluster_step _ _ ?k1")
    by (rule cluster_step.elect [where ?n0.0 = "boot_cluster 1" and ev = sample_env]) (simp_all add: e(1) word_gt_0)
  moreover have "fixed_conf ?c ?k1" using e(2) by (simp add: fixed_conf_def)
  ultimately have k1: "cluster_reach sample_codec ?c ?k1" by (rule cluster_reach.step [OF k0])
  have req: "k_reqs ?k1 (1, 2, 1) = Some (vote_request 1)" using e(4) by simp
  have at2: "HandleRequestVote sample_env (k_nodes ?k1 2) (vote_request 1) = Some (m, ?resp)" using m(1) by simp
  obtain k2 where k2: "cluster_reach sample_codec ?c k2" "k_nodes k2 = (k_nodes ?k1)(2 := m)" "k_resps k2 (1, 2, 1) = Some ?resp"
  proof (rule that)
    show "cluster_reach sample_codec ?c (?k1\<lparr>k_nodes := (k_nodes ?k1)(2 := m), k_reqs := (k_reqs ?k1)((1, 2, 1) := None),
        k_resps := (k_resps ?k1)((1, 2, 1) \<mapsto> ?resp), k_votes := k_votes ?k1 \<union> (if rvr_VoteGranted ?resp then {(2, 1, 1)} else {})\<rparr>)"
      by (rule cluster_reach.step [OF k1 cluster_step.deliver [OF req at2]]) (simp add: fixed_conf_def e(2) m(2))
  qed simp_all
  have at1: "onVoteResponse sample_codec sample_env (k_nodes k2 1) 1 ?resp = Some (n2, es2)" using e(5) k2(2) by simp
  obtain k3 where k3: "cluster_reach sample_codec ?c k3" "k_nodes k3 = (k_nodes k2)(1 := n2)"
  proof (rule that)
    show "cluster_reach sample_codec ?c (k2\<lparr>k_nodes := (k_nodes k2)(1 := n2), k_resps := (k_resps k2)((1, 2, 1) := None),
        k_leaders := k_leaders k2 \<union> (if n_role n2 = leader then {(n_term n2, 1)} else {})\<rparr>)"
      by (rule cluster_reach.step [OF k2(1) cluster_step.answer [OF k2(3) at1]]) (simp add: fixed_conf_def e(8) k2(2) m(2))
  qed simp
  then show ?thesis using e(6,7) by auto
qed

section \<open>No term has two leaders\<close>



end
