(* ===== verification/Spec2Isabelle.thy ===== *)
theory Spec2Isabelle
  imports ServerReplay RaftElection
begin

text \<open>
  A verification development for DistKV, a replicated key-value store in Go.
\<close>

end
